(* ===== verification/Prelude.thy ===== *)
theory Prelude
  imports Main "HOL-Library.Monad_Syntax" "HOL-Library.Word" "HOL-Library.List_Lexorder"
begin

text \<open>
  Shared vocabulary of the development.

  \<^item> Rust's \<^verbatim>\<open>u64\<close> and \<^verbatim>\<open>usize\<close> are natural numbers whose additions and subtractions are
    checked: \<open>add64\<close> and \<open>sub64\<close> return \<open>None\<close> where the Rust expression panics (overflow
    checks are on in the profile the repository's tests use).
  \<^item> A computation that may panic has a result of type \<open>'a option\<close>; \<open>None\<close> is the panic
    (\<^verbatim>\<open>expect\<close> on \<^verbatim>\<open>None\<close>, an index out of range, an arithmetic overflow) and the binds of
    \<open>do\<close> blocks propagate it. A Rust \<^verbatim>\<open>Option\<close> inside such a computation is a second option
    layer, a Rust \<^verbatim>\<open>Result\<close> is a sum with the error on the left.
\<close>

section \<open>Checked machine arithmetic\<close>

type_synonym u64 = nat
type_synonym byte = "8 word"
type_synonym bytes = "byte list"

text \<open>Collections of facts: \<open>run_simps\<close> opens a panicking computation that returned,
  \<open>u64_simps\<close> opens checked arithmetic.\<close>

named_theorems run_simps
named_theorems u64_simps

definition fits64 :: "nat \<Rightarrow> bool" where
  "fits64 n \<longleftrightarrow> n < 18446744073709551616"

definition add64 :: "u64 \<Rightarrow> u64 \<Rightarrow> u64 option" where
  "add64 a b = (if fits64 (a + b) then Some (a + b) else None)"

definition sub64 :: "u64 \<Rightarrow> u64 \<Rightarrow> u64 option" where
  "sub64 a b = (if b \<le> a then Some (a - b) else None)"

lemma fits64_code [code]: "fits64 n \<longleftrightarrow> int n < 18446744073709551616"
  by (simp add: fits64_def)

lemma fits64_mono: "fits64 n \<Longrightarrow> m \<le> n \<Longrightarrow> fits64 m"
  by (simp add: fits64_def)

lemma fits64_0 [simp]: "fits64 0"
  and fits64_1 [simp]: "fits64 (Suc 0)"
  by (simp_all add: fits64_def)

lemma fits64_numeral [simp]: "fits64 (numeral k) \<longleftrightarrow> (numeral k :: nat) < 18446744073709551616"
  by (simp only: fits64_def)

lemma add64_eq_Some [u64_simps, run_simps]: "add64 a b = Some c \<longleftrightarrow> fits64 (a + b) \<and> c = a + b"
  by (auto simp: add64_def)

lemma sub64_eq_Some [u64_simps, run_simps]: "sub64 a b = Some c \<longleftrightarrow> b \<le> a \<and> c = a - b"
  by (auto simp: sub64_def)

lemma add64_fits: "fits64 (a + b) \<Longrightarrow> add64 a b = Some (a + b)"
  by (simp add: add64_def)

lemma sub64_le [simp]: "b \<le> a \<Longrightarrow> sub64 a b = Some (a - b)"
  by (simp add: sub64_def)

declare bind_eq_Some_conv [run_simps] Let_def [run_simps]

section \<open>Results\<close>

text \<open>Rust's \<^verbatim>\<open>?\<close> on a \<^verbatim>\<open>Result\<close>.\<close>

definition and_then :: "'e + 'a \<Rightarrow> ('a \<Rightarrow> 'e + 'b) \<Rightarrow> 'e + 'b" where
  "and_then r f = (case r of Inl e \<Rightarrow> Inl e | Inr x \<Rightarrow> f x)"

lemma and_then_simps [simp]: "and_then (Inl e) f = Inl e" "and_then (Inr x) f = f x"
  by (simp_all add: and_then_def)

lemma and_then_cong [fundef_cong]:
  "r = r' \<Longrightarrow> (\<And>x. r' = Inr x \<Longrightarrow> f x = g x) \<Longrightarrow> and_then r f = and_then r' g"
  by (cases r) auto

lemma and_then_eq_Inr: "and_then r f = Inr y \<longleftrightarrow> (\<exists>x. r = Inr x \<and> f x = Inr y)"
  by (cases r) auto

section \<open>Lists\<close>

lemma nth_last_snoc: "xs \<noteq> [] \<Longrightarrow> xs ! (length xs - 1) = last xs"
  by (simp add: last_conv_nth)

lemma take_snoc_eq: "k < length xs \<Longrightarrow> take k xs @ [xs ! k] = take (Suc k) xs"
  by (simp add: take_Suc_conv_app_nth)

text \<open>The scan of \<^verbatim>\<open>iter().rev().find_map(f)\<close>: the last element on which \<open>f\<close> succeeds.\<close>

fun find_map :: "('a \<Rightarrow> 'b option) \<Rightarrow> 'a list \<Rightarrow> 'b option" where
  "find_map f [] = None"
| "find_map f (x # xs) = (case f x of Some y \<Rightarrow> Some y | None \<Rightarrow> find_map f xs)"

lemma find_map_append:
  "find_map f (xs @ ys) = (case find_map f xs of Some y \<Rightarrow> Some y | None \<Rightarrow> find_map f ys)"
  by (induction xs) (auto split: option.splits)

lemma find_map_eq_None: "find_map f xs = None \<longleftrightarrow> (\<forall>x \<in> set xs. f x = None)"
  by (induction xs) (auto split: option.splits)

lemma find_map_eq_SomeD: "find_map f xs = Some y \<Longrightarrow> \<exists>x \<in> set xs. f x = Some y"
  by (induction xs) (auto split: option.splits)

text \<open>Pairs of a position and an element, as \<^verbatim>\<open>iter().enumerate()\<close> yields them.\<close>

lemma enumerate_snoc: "enumerate k (xs @ [x]) = enumerate k xs @ [(k + length xs, x)]"
  by (simp add: enumerate_append_eq)

end
