(* ===== verification/Raft_Types.thy ===== *)
theory Raft_Types
  imports Prelude
begin

text \<open>
  The protocol vocabulary of \<^verbatim>\<open>crates/kurogane-raft/src/lib.rs\<close> (its first 345 lines): node
  identities, roles, messages, events, effects, durable fragments, errors, the \<open>node\<close> record
  and the two scans over a log and a voter set that are free functions there.
  A field keeps its Rust name, with a short prefix where two structs share it.
\<close>

section \<open>Identities and roles\<close>

datatype node_id = NodeId (node_no: u64)

instantiation node_id :: linorder
begin

definition less_eq_node_id :: "node_id \<Rightarrow> node_id \<Rightarrow> bool" where
  "less_eq_node_id a b \<longleftrightarrow> node_no a \<le> node_no b"

definition less_node_id :: "node_id \<Rightarrow> node_id \<Rightarrow> bool" where
  "less_node_id a b \<longleftrightarrow> node_no a < node_no b"

instance
  by standard (auto simp: less_eq_node_id_def less_node_id_def intro: node_id.expand)

end

lemma NodeId_le [simp]: "NodeId a \<le> NodeId b \<longleftrightarrow> a \<le> b"
  and NodeId_less [simp]: "NodeId a < NodeId b \<longleftrightarrow> a < b"
  by (simp_all add: less_eq_node_id_def less_node_id_def)

datatype role = Follower | Candidate | Leader

section \<open>Configurations and log entries\<close>

record cluster_config =
  voters :: "node_id list"
  old_voters :: "node_id list option"

definition is_voter :: "cluster_config \<Rightarrow> node_id \<Rightarrow> bool" where
  "is_voter c i \<longleftrightarrow> i \<in> set (voters c) \<or>
     i \<in> set (case old_voters c of Some vs \<Rightarrow> vs | None \<Rightarrow> [])"

definition is_joint :: "cluster_config \<Rightarrow> bool" where
  "is_joint c \<longleftrightarrow> old_voters c \<noteq> None"

definition default_config :: cluster_config where
  "default_config = \<lparr>voters = [], old_voters = None\<rparr>"

datatype log_payload = Command bytes | Configuration cluster_config

record log_entry =
  entry_term :: u64
  payload :: log_payload

section \<open>Messages\<close>

record request_vote =
  rv_term :: u64
  candidate_id :: node_id
  rv_last_log_index :: u64
  rv_last_log_term :: u64

record request_vote_response =
  rvr_term :: u64
  granted :: bool

record append_entries =
  ae_term :: u64
  ae_leader_id :: node_id
  prev_log_index :: u64
  prev_log_term :: u64
  entries :: "log_entry list"
  leader_commit :: u64

record append_entries_response =
  aer_term :: u64
  success :: bool
  aer_match_index :: u64

record install_snapshot =
  is_term :: u64
  is_leader_id :: node_id
  is_last_included_index :: u64
  is_last_included_term :: u64
  is_data :: bytes
  is_config :: cluster_config

record install_snapshot_response =
  isr_term :: u64
  isr_last_included_index :: u64

datatype message =
    RequestVote request_vote
  | RequestVoteResponse request_vote_response
  | AppendEntries append_entries
  | AppendEntriesResponse append_entries_response
  | InstallSnapshot install_snapshot
  | InstallSnapshotResponse install_snapshot_response

section \<open>Events and effects\<close>

datatype event =
    Tick u64
  | Step node_id message

datatype effect =
    Send node_id message
  | PersistHardState u64 "node_id option"
  | PersistLog u64 "log_entry list"
  | PersistSnapshot u64 u64 bytes cluster_config
  | PersistLearners "node_id list"

fun is_send :: "effect \<Rightarrow> bool" where
  "is_send (Send _ _) = True"
| "is_send _ = False"

section \<open>Durable fragments and errors\<close>

record hard_state =
  hs_current_term :: u64
  hs_voted_for :: "node_id option"

definition default_hard_state :: hard_state where
  "default_hard_state = \<lparr>hs_current_term = 0, hs_voted_for = None\<rparr>"

record snapshot_metadata =
  last_included_index :: u64
  last_included_term :: u64

definition default_metadata :: snapshot_metadata where
  "default_metadata = \<lparr>last_included_index = 0, last_included_term = 0\<rparr>"

record snapshot =
  metadata :: snapshot_metadata
  snap_data :: bytes
  snap_config :: cluster_config

definition default_snapshot :: snapshot where
  "default_snapshot =
     \<lparr>metadata = default_metadata, snap_data = [], snap_config = default_config\<rparr>"

datatype config_error =
    EmptyConfiguration
  | MembersNotStrictlyOrdered
  | LocalNodeMissing
  | ZeroElectionTimeout
  | ZeroHeartbeatInterval
  | HeartbeatIntervalExceedsElectionTimeout

datatype compact_error = IndexNotCommitted

section \<open>The state of one node\<close>

record node =
  nid :: node_id
  role :: role
  current_term :: u64
  voted_for :: "node_id option"
  election_elapsed :: u64
  election_timeout :: u64
  votes_granted :: "node_id set"
  heartbeat_elapsed :: u64
  heartbeat_interval :: u64
  leader_contact_elapsed :: u64
  log :: "log_entry list"
  commit_index :: u64
  next_index :: "node_id \<rightharpoonup> u64"
  match_index :: "node_id \<rightharpoonup> u64"
  snapshot :: snapshot_metadata
  snapshot_data :: bytes
  snapshot_config :: cluster_config
  current_config :: cluster_config
  current_config_index :: u64
  learners :: "node_id set"

abbreviation boundary :: "node \<Rightarrow> u64" where
  "boundary n \<equiv> last_included_index (snapshot n)"

section \<open>The two scans that are free functions in the source\<close>

text \<open>\<^verbatim>\<open>log.iter().enumerate().rev().find_map(..)\<close>; the position of an entry is added to the
  boundary with overflow checks, so the scan can panic.\<close>

definition latest_configuration_in ::
    "log_entry list \<Rightarrow> u64 \<Rightarrow> (cluster_config \<times> u64) option option" where
  "latest_configuration_in lg b =
     (case find_map
            (\<lambda>(offset, entry). case payload entry of
               Configuration config \<Rightarrow> Some (config, offset)
             | Command _ \<Rightarrow> None)
            (rev (enumerate 0 lg)) of
        None \<Rightarrow> Some None
      | Some (config, offset) \<Rightarrow> do {
          a \<leftarrow> add64 b offset;
          index \<leftarrow> add64 a 1;
          Some (Some (config, index))
        })"

definition majority_reached :: "node_id list \<Rightarrow> (node_id \<Rightarrow> bool) \<Rightarrow> bool" where
  "majority_reached vs reached \<longleftrightarrow>
     (let quorum = length vs div 2 + 1 in quorum \<le> length (filter reached vs))"

text \<open>The configuration in force, as a specification: replay the entries above a boundary in
  order, each configuration entry taking effect at its own index.\<close>

fun replay_config :: "cluster_config \<times> u64 \<Rightarrow> u64 \<Rightarrow> log_entry list \<Rightarrow> cluster_config \<times> u64" where
  "replay_config ci i [] = ci"
| "replay_config ci i (e # es) =
     replay_config
       (case payload e of Configuration c \<Rightarrow> (c, i + 1) | Command _ \<Rightarrow> ci) (i + 1) es"

lemma replay_config_append:
  "replay_config ci i (xs @ ys) = replay_config (replay_config ci i xs) (i + length xs) ys"
  by (induction xs arbitrary: ci i) auto

lemma replay_config_snoc [simp]:
  "replay_config ci i (xs @ [e]) =
     (case payload e of
        Configuration c \<Rightarrow> (c, i + length xs + 1)
      | Command _ \<Rightarrow> replay_config ci i xs)"
  by (simp add: replay_config_append split: log_payload.split)

lemma replay_config_bounds:
  "snd ci \<le> i \<Longrightarrow> snd ci \<le> snd (replay_config ci i lg) \<and> snd (replay_config ci i lg) \<le> i + length lg"
proof (induction lg rule: rev_induct)
  case (snoc e lg)
  then show ?case by (auto split: log_payload.split)
qed simp

text \<open>Under the index bound the backward scan of the source finds what the replay leaves.\<close>

lemma latest_configuration_in_Nil [simp]: "latest_configuration_in [] b = Some None"
  by (simp add: latest_configuration_in_def)

lemma latest_configuration_in_snoc:
  "latest_configuration_in (lg @ [e]) b =
     (case payload e of
        Configuration c \<Rightarrow>
          (if fits64 (b + length lg + 1) then Some (Some (c, b + length lg + 1)) else None)
      | Command _ \<Rightarrow> latest_configuration_in lg b)"
  using fits64_mono [of "b + length lg + 1" "b + length lg"]
  by (cases "payload e") (auto simp: latest_configuration_in_def enumerate_snoc add64_def)

lemma latest_configuration_in_total:
  "fits64 (b + length lg) \<Longrightarrow> \<exists>r. latest_configuration_in lg b = Some r"
proof (induction lg rule: rev_induct)
  case (snoc e lg)
  then have "fits64 (b + length lg)" by (auto elim: fits64_mono)
  with snoc show ?case
    by (auto simp: latest_configuration_in_snoc split: log_payload.split)
qed simp

lemma latest_configuration_in_replay:
  "latest_configuration_in lg b = Some r \<Longrightarrow>
     (case r of Some ci \<Rightarrow> ci | None \<Rightarrow> (c, b)) = replay_config (c, b) b lg"
proof (induction lg arbitrary: r rule: rev_induct)
  case (snoc e lg)
  then show ?case
    by (auto simp: latest_configuration_in_snoc split: log_payload.splits if_splits)
qed simp

end
