(* ===== verification/Raft_Node.thy ===== *)
theory Raft_Node
  imports Raft_Types
begin

text \<open>
  Construction of a node, its log accessors, the quorum rules, replication messages and the two
  ways out of leadership: the parts of \<^verbatim>\<open>impl Node\<close> in \<^verbatim>\<open>crates/kurogane-raft/src/lib.rs\<close>
  that the event handlers of \<open>Raft_Election\<close>, \<open>Raft_Replication\<close> and \<open>Raft_Commit\<close> call.
\<close>

section \<open>Configuration bookkeeping\<close>

definition recompute_config :: "node \<Rightarrow> node option" where
  "recompute_config n = do {
     found \<leftarrow> latest_configuration_in (log n) (boundary n);
     let (config, index) =
       (case found of Some ci \<Rightarrow> ci | None \<Rightarrow> (snapshot_config n, boundary n));
     Some (n\<lparr>current_config := config, current_config_index := index\<rparr>)
   }"

section \<open>Construction\<close>

text \<open>\<^verbatim>\<open>windows(2).any(..)\<close>: some pair of neighbours satisfies the predicate.\<close>

fun any_window :: "('a \<Rightarrow> 'a \<Rightarrow> bool) \<Rightarrow> 'a list \<Rightarrow> bool" where
  "any_window P (x # y # zs) = (P x y \<or> any_window P (y # zs))"
| "any_window P _ = False"

text \<open>The configuration at the boundary of a recovered node: the snapshot's own when there is one,
  the bootstrap members otherwise.\<close>

definition bootstrap_config :: "snapshot \<Rightarrow> node_id list \<Rightarrow> cluster_config" where
  "bootstrap_config snap peers =
     (if 0 < last_included_index (metadata snap) then snap_config snap
      else \<lparr>voters = peers, old_voters = None\<rparr>)"

definition recover ::
    "node_id \<Rightarrow> node_id list \<Rightarrow> u64 \<Rightarrow> u64 \<Rightarrow> hard_state \<Rightarrow> log_entry list \<Rightarrow>
     snapshot \<Rightarrow> node_id list \<Rightarrow> (config_error + node) option" where
  "recover i peers timeout heartbeat hs lg snap lrn =
     (if peers = [] then Some (Inl EmptyConfiguration)
      else if any_window (\<lambda>a b. b \<le> a) peers then Some (Inl MembersNotStrictlyOrdered)
      else if i \<notin> set peers then Some (Inl LocalNodeMissing)
      else if timeout = 0 then Some (Inl ZeroElectionTimeout)
      else if heartbeat = 0 then Some (Inl ZeroHeartbeatInterval)
      else if timeout < heartbeat then Some (Inl HeartbeatIntervalExceedsElectionTimeout)
      else do {
        let b = last_included_index (metadata snap);
        let snapshot_config = bootstrap_config snap peers;
        found \<leftarrow> latest_configuration_in lg b;
        let (config, index) = (case found of Some ci \<Rightarrow> ci | None \<Rightarrow> (snapshot_config, b));
        Some (Inr \<lparr>nid = i, role = Follower, current_term = hs_current_term hs,
          voted_for = hs_voted_for hs, election_elapsed = 0, election_timeout = timeout,
          votes_granted = {}, heartbeat_elapsed = 0, heartbeat_interval = heartbeat,
          leader_contact_elapsed = heartbeat, log = lg, commit_index = b,
          next_index = Map.empty, match_index = Map.empty, snapshot = metadata snap,
          snapshot_data = snap_data snap, snapshot_config = snapshot_config,
          current_config = config, current_config_index = index, learners = set lrn\<rparr>)
      })"

definition new_node ::
    "node_id \<Rightarrow> node_id list \<Rightarrow> u64 \<Rightarrow> u64 \<Rightarrow> (config_error + node) option" where
  "new_node i peers timeout heartbeat =
     recover i peers timeout heartbeat default_hard_state [] default_snapshot []"

definition new_learner :: "node_id \<Rightarrow> u64 \<Rightarrow> u64 \<Rightarrow> config_error + node" where
  "new_learner i timeout heartbeat =
     (if timeout = 0 then Inl ZeroElectionTimeout
      else if heartbeat = 0 then Inl ZeroHeartbeatInterval
      else if timeout < heartbeat then Inl HeartbeatIntervalExceedsElectionTimeout
      else
        (let empty_config = \<lparr>voters = [], old_voters = None\<rparr> in
         Inr \<lparr>nid = i, role = Follower, current_term = 0,
          voted_for = None, election_elapsed = 0, election_timeout = timeout,
          votes_granted = {}, heartbeat_elapsed = 0, heartbeat_interval = heartbeat,
          leader_contact_elapsed = heartbeat, log = [], commit_index = 0,
          next_index = Map.empty, match_index = Map.empty, snapshot = default_metadata,
          snapshot_data = [], snapshot_config = empty_config,
          current_config = empty_config, current_config_index = 0, learners = {}\<rparr>))"

section \<open>The log, addressed by absolute index\<close>

definition last_log_index :: "node \<Rightarrow> u64 option" where
  "last_log_index n = add64 (boundary n) (length (log n))"

definition last_log_term :: "node \<Rightarrow> u64" where
  "last_log_term n =
     (if log n = [] then last_included_term (snapshot n) else entry_term (last (log n)))"

definition is_member :: "node \<Rightarrow> node_id \<Rightarrow> bool" where
  "is_member n i \<longleftrightarrow> is_voter (current_config n) i \<or> i \<in> learners n"

definition vec_index :: "node \<Rightarrow> u64 \<Rightarrow> nat option" where
  "vec_index n index = do { a \<leftarrow> sub64 index (boundary n); sub64 a 1 }"

definition entry_at :: "node \<Rightarrow> u64 \<Rightarrow> log_entry option option" where
  "entry_at n index =
     (if index = 0 \<or> index \<le> boundary n then Some None
      else do {
        k \<leftarrow> vec_index n index;
        Some (if k < length (log n) then Some (log n ! k) else None)
      })"

definition term_at :: "node \<Rightarrow> u64 \<Rightarrow> u64 option option" where
  "term_at n index =
     (if index = 0 then Some None
      else if index = boundary n then Some (Some (last_included_term (snapshot n)))
      else if index < boundary n then Some None
      else do { e \<leftarrow> entry_at n index; Some (map_option entry_term e) })"

definition entries_from :: "node \<Rightarrow> u64 \<Rightarrow> log_entry list option" where
  "entries_from n index = do {
     k \<leftarrow> vec_index n index;
     if k \<le> length (log n) then Some (drop k (log n)) else None
   }"

section \<open>Replication messages\<close>

definition replicate_to :: "node \<Rightarrow> node_id \<Rightarrow> effect option" where
  "replicate_to n peer = do {
     next \<leftarrow> next_index n peer;
     if next \<le> boundary n then
       Some (Send peer (InstallSnapshot \<lparr>is_term = current_term n, is_leader_id = nid n,
         is_last_included_index = boundary n,
         is_last_included_term = last_included_term (snapshot n),
         is_data = snapshot_data n, is_config = snapshot_config n\<rparr>))
     else do {
       prev \<leftarrow> sub64 next 1;
       t \<leftarrow> term_at n prev;
       es \<leftarrow> entries_from n next;
       Some (Send peer (AppendEntries \<lparr>ae_term = current_term n, ae_leader_id = nid n,
         prev_log_index = prev, prev_log_term = (case t of Some t' \<Rightarrow> t' | None \<Rightarrow> 0),
         entries = es, leader_commit = commit_index n\<rparr>))
     }
   }"

definition replication_targets :: "node \<Rightarrow> node_id set" where
  "replication_targets n =
     (set (voters (current_config n)) \<union>
      set (case old_voters (current_config n) of Some vs \<Rightarrow> vs | None \<Rightarrow> []) \<union>
      learners n) - {nid n}"

text \<open>\<^verbatim>\<open>into_iter().map(..).collect()\<close> over a \<^verbatim>\<open>BTreeSet\<close>: ascending order, panicking if one
  element panics.\<close>

fun collect :: "('a \<Rightarrow> 'b option) \<Rightarrow> 'a list \<Rightarrow> 'b list option" where
  "collect f [] = Some []"
| "collect f (x # xs) = do { y \<leftarrow> f x; ys \<leftarrow> collect f xs; Some (y # ys) }"

definition broadcast_replication :: "node \<Rightarrow> effect list option" where
  "broadcast_replication n =
     collect (replicate_to n) (sorted_list_of_set (replication_targets n))"

section \<open>Leaving leadership\<close>

definition step_down :: "node \<Rightarrow> u64 \<Rightarrow> node" where
  "step_down n t =
     n\<lparr>role := Follower, current_term := t, voted_for := None, votes_granted := {},
       next_index := Map.empty, match_index := Map.empty\<rparr>"

definition retire_from_leadership :: "node \<Rightarrow> node" where
  "retire_from_leadership n =
     n\<lparr>role := Follower, votes_granted := {},
       next_index := Map.empty, match_index := Map.empty\<rparr>"

section \<open>Election quorum\<close>

definition quorum_size :: "node \<Rightarrow> nat" where
  "quorum_size n = length (voters (current_config n)) div 2 + 1"

definition has_quorum :: "node \<Rightarrow> bool" where
  "has_quorum n =
     (let new_majority = quorum_size n \<le> card (votes_granted n) in
      case old_voters (current_config n) of
        None \<Rightarrow> new_majority
      | Some vs \<Rightarrow> new_majority \<and> majority_reached vs (\<lambda>i. i \<in> votes_granted n))"

section \<open>What the accessors compute\<close>

text \<open>The log above the boundary and the boundary's own term, as partial functions of the
  absolute index. The accessors of the source never panic and agree with them.\<close>

lemma any_window_sorted: "any_window (\<lambda>a b. b \<le> a) xs \<longleftrightarrow> \<not> sorted_wrt (<) (xs :: 'a::linorder list)"
proof (induction "\<lambda>(a::'a) b. b \<le> a" xs rule: any_window.induct)
  case (1 x y zs)
  then show ?case by (auto simp: not_le dest: order_le_less_trans intro: less_trans)
qed auto

definition log_entry_at :: "node \<Rightarrow> u64 \<Rightarrow> log_entry option" where
  "log_entry_at n i =
     (if boundary n < i \<and> i \<le> boundary n + length (log n)
      then Some (log n ! (i - boundary n - 1)) else None)"

definition log_term_at :: "node \<Rightarrow> u64 \<Rightarrow> u64 option" where
  "log_term_at n i =
     (if 0 < i \<and> i = boundary n then Some (last_included_term (snapshot n))
      else map_option entry_term (log_entry_at n i))"

lemma vec_index_eq_Some [run_simps]:
  "vec_index n i = Some k \<longleftrightarrow> boundary n < i \<and> k = i - boundary n - 1"
  by (auto simp: vec_index_def run_simps)

lemma vec_index_above [simp]: "boundary n < i \<Longrightarrow> vec_index n i = Some (i - boundary n - 1)"
  by (simp add: run_simps)

lemma entry_at_eq [simp]: "entry_at n i = Some (log_entry_at n i)"
  by (auto simp: entry_at_def log_entry_at_def)

lemma term_at_eq [simp]: "term_at n i = Some (log_term_at n i)"
  by (auto simp: term_at_def log_term_at_def log_entry_at_def)

lemma entries_from_eq_Some [run_simps]:
  "entries_from n i = Some es \<longleftrightarrow>
     boundary n < i \<and> i \<le> boundary n + length (log n) + 1 \<and> es = drop (i - boundary n - 1) (log n)"
  by (auto simp: entries_from_def run_simps split: if_splits)

lemma last_log_index_eq_Some [run_simps]:
  "last_log_index n = Some i \<longleftrightarrow> fits64 (boundary n + length (log n)) \<and> i = boundary n + length (log n)"
  by (auto simp: last_log_index_def run_simps)

definition config_in_force :: "node \<Rightarrow> cluster_config \<times> u64" where
  "config_in_force n = replay_config (snapshot_config n, boundary n) (boundary n) (log n)"

lemma recompute_config_eq_Some:
  assumes "recompute_config n = Some n'"
  shows "n' = n\<lparr>current_config := fst (config_in_force n),
    current_config_index := snd (config_in_force n)\<rparr>"
proof -
  from assms obtain r where r: "latest_configuration_in (log n) (boundary n) = Some r"
    by (auto simp: recompute_config_def run_simps)
  from latest_configuration_in_replay [OF this, of "snapshot_config n"] assms r show ?thesis
    by (simp add: recompute_config_def config_in_force_def case_prod_beta)
qed

lemma recompute_config_total:
  "fits64 (boundary n + length (log n)) \<Longrightarrow> \<exists>n'. recompute_config n = Some n'"
  using latest_configuration_in_total [of "boundary n" "log n"]
  by (auto simp: recompute_config_def split: prod.split)

lemma collect_eq_Some: "collect f xs = Some ys \<longleftrightarrow> list_all2 (\<lambda>x y. f x = Some y) xs ys"
  by (induction xs arbitrary: ys) (auto simp: run_simps list_all2_Cons1)

lemma collect_total: "(\<And>x. x \<in> set xs \<Longrightarrow> \<exists>y. f x = Some y) \<Longrightarrow> \<exists>ys. collect f xs = Some ys"
  by (induction xs) (fastforce simp: run_simps)+

lemma collect_set: "collect f xs = Some ys \<Longrightarrow> y \<in> set ys \<Longrightarrow> \<exists>x \<in> set xs. f x = Some y"
  by (induction xs arbitrary: ys) (auto simp: run_simps)

lemma replicate_to_send: "replicate_to n p = Some e \<Longrightarrow> is_send e"
  by (auto simp: replicate_to_def run_simps split: if_splits)

lemma broadcast_sends: "broadcast_replication n = Some es \<Longrightarrow> \<forall>e \<in> set es. is_send e"
  by (auto simp: broadcast_replication_def dest!: collect_set replicate_to_send)

end
