(* ===== verification/Raft_Election.thy ===== *)
theory Raft_Election
  imports Raft_Node
begin

text \<open>
  Ticks, elections and votes: \<^verbatim>\<open>on_tick\<close>, \<^verbatim>\<open>on_leader_tick\<close>, \<^verbatim>\<open>become_leader\<close>,
  \<^verbatim>\<open>start_election\<close>, \<^verbatim>\<open>on_request_vote\<close> and \<^verbatim>\<open>on_request_vote_response\<close> of
  \<^verbatim>\<open>crates/kurogane-raft/src/lib.rs\<close>. A handler takes the node and returns the new node with
  the effects its owner has to carry out, in order; \<open>None\<close> is a panic.
\<close>

section \<open>Becoming leader\<close>

definition become_leader :: "node \<Rightarrow> (node \<times> effect list) option" where
  "become_leader n = do {
     last \<leftarrow> last_log_index n;
     next \<leftarrow> add64 last 1;
     let n' = n\<lparr>role := Leader, heartbeat_elapsed := 0,
       next_index := (\<lambda>p. if p \<in> replication_targets n then Some next else None),
       match_index := (\<lambda>p. if p \<in> replication_targets n then Some 0 else None)\<rparr>;
     effects \<leftarrow> broadcast_replication n';
     Some (n', effects)
   }"

definition become_candidate :: "node \<Rightarrow> u64 \<Rightarrow> u64 \<Rightarrow> node" where
  "become_candidate n t next_timeout =
     n\<lparr>role := Candidate, current_term := t, voted_for := Some (nid n),
       votes_granted := {nid n}, election_elapsed := 0, election_timeout := next_timeout\<rparr>"

definition start_election :: "node \<Rightarrow> u64 \<Rightarrow> (node \<times> effect list) option" where
  "start_election n next_timeout =
     (if \<not> is_voter (current_config n) (nid n) then Some (n, [])
      else do {
        t \<leftarrow> add64 (current_term n) 1;
        let n' = become_candidate n t next_timeout;
        let persist = PersistHardState (current_term n') (voted_for n');
        if has_quorum n' then do {
          (n'', effects) \<leftarrow> become_leader n';
          Some (n'', persist # effects)
        } else do {
          effects \<leftarrow> collect
            (\<lambda>peer. do {
               last \<leftarrow> last_log_index n';
               Some (Send peer (RequestVote \<lparr>rv_term = current_term n', candidate_id = nid n',
                 rv_last_log_index = last, rv_last_log_term = last_log_term n'\<rparr>))
             })
            (filter (\<lambda>peer. peer \<noteq> nid n') (voters (current_config n')));
          Some (n', persist # effects)
        }
      })"

lemma start_election_cases:
  assumes "start_election n next_timeout = Some (n', effects)"
  obtains (ineligible) "\<not> is_voter (current_config n) (nid n)" "n' = n" "effects = []"
  | (elected) m es where "is_voter (current_config n) (nid n)"
      "m = become_candidate n (current_term n + 1) next_timeout" "has_quorum m"
      "become_leader m = Some (n', es)"
      "effects = PersistHardState (current_term m) (voted_for m) # es"
  | (campaign) m es where "is_voter (current_config n) (nid n)"
      "m = become_candidate n (current_term n + 1) next_timeout" "\<not> has_quorum m" "n' = m"
      "\<And>e. e \<in> set es \<Longrightarrow> \<exists>p. p \<in> set (voters (current_config n)) \<and> p \<noteq> nid n \<and>
         e = Send p (RequestVote \<lparr>rv_term = current_term m, candidate_id = nid n,
           rv_last_log_index = boundary n + length (log n), rv_last_log_term = last_log_term n\<rparr>)"
      "effects = PersistHardState (current_term m) (voted_for m) # es"
proof (cases "is_voter (current_config n) (nid n)")
  case False
  with assms show thesis by (intro ineligible) (auto simp: start_election_def)
next
  case True
  define m where "m = become_candidate n (current_term n + 1) next_timeout"
  show thesis
  proof (cases "has_quorum m")
    case q: True
    with True assms show thesis
      by (auto simp: start_election_def run_simps m_def intro: elected)
  next
    case False
    let ?request = "\<lambda>peer. do {
        last \<leftarrow> last_log_index m;
        Some (Send peer (RequestVote \<lparr>rv_term = current_term m, candidate_id = nid m,
          rv_last_log_index = last, rv_last_log_term = last_log_term m\<rparr>))
      }"
    from False True assms obtain es where
      es: "collect ?request (filter (\<lambda>peer. peer \<noteq> nid m) (voters (current_config m))) = Some es"
      and n': "n' = m" and eff: "effects = PersistHardState (current_term m) (voted_for m) # es"
      by (auto simp: start_election_def run_simps m_def)
    have m: "nid m = nid n" "current_config m = current_config n" "boundary m = boundary n"
      "log m = log n" "last_log_term m = last_log_term n"
      by (simp_all add: m_def become_candidate_def last_log_term_def)
    show thesis
    proof (rule campaign [OF True m_def False n' _ eff])
      fix e assume "e \<in> set es"
      from collect_set [OF es this] show "\<exists>p. p \<in> set (voters (current_config n)) \<and> p \<noteq> nid n \<and>
         e = Send p (RequestVote \<lparr>rv_term = current_term m, candidate_id = nid n,
           rv_last_log_index = boundary n + length (log n), rv_last_log_term = last_log_term n\<rparr>)"
        by (auto simp: run_simps m)
    qed
  qed
qed

section \<open>Ticks\<close>

definition on_leader_tick :: "node \<Rightarrow> (node \<times> effect list) option" where
  "on_leader_tick n = do {
     hb \<leftarrow> add64 (heartbeat_elapsed n) 1;
     lc \<leftarrow> add64 (leader_contact_elapsed n) 1;
     let n' = n\<lparr>heartbeat_elapsed := hb, leader_contact_elapsed := lc\<rparr>;
     if heartbeat_elapsed n' < heartbeat_interval n' then Some (n', [])
     else do {
       let n'' = n'\<lparr>heartbeat_elapsed := 0\<rparr>;
       effects \<leftarrow> broadcast_replication n'';
       Some (n'', effects)
     }
   }"

definition on_tick :: "node \<Rightarrow> u64 \<Rightarrow> (node \<times> effect list) option" where
  "on_tick n next_timeout =
     (if role n = Leader then on_leader_tick n
      else do {
        el \<leftarrow> add64 (election_elapsed n) 1;
        lc \<leftarrow> add64 (leader_contact_elapsed n) 1;
        let n' = n\<lparr>election_elapsed := el, leader_contact_elapsed := lc\<rparr>;
        if election_elapsed n' < election_timeout n' then Some (n', [])
        else start_election n' next_timeout
      })"

section \<open>Votes\<close>

definition reject_vote :: "node \<Rightarrow> node_id \<Rightarrow> effect" where
  "reject_vote n from =
     Send from (RequestVoteResponse \<lparr>rvr_term = current_term n, granted = False\<rparr>)"

text \<open>\<^verbatim>\<open>(request.last_log_term, request.last_log_index) >= (last_log_term(), last_log_index())\<close>,
  Rust's lexicographic comparison of pairs.\<close>

definition log_is_up_to_date :: "request_vote \<Rightarrow> u64 \<Rightarrow> u64 \<Rightarrow> bool" where
  "log_is_up_to_date r own_term own_index \<longleftrightarrow>
     own_term < rv_last_log_term r \<or>
     (own_term = rv_last_log_term r \<and> own_index \<le> rv_last_log_index r)"

definition on_request_vote ::
    "node \<Rightarrow> node_id \<Rightarrow> request_vote \<Rightarrow> (node \<times> effect list) option" where
  "on_request_vote n from r =
     (if rv_term r < current_term n then Some (n, [reject_vote n from])
      else if role n = Leader then Some (n, [reject_vote n from])
      else if old_voters (current_config n) \<noteq> None \<and>
              leader_contact_elapsed n < heartbeat_interval n
        then Some (n, [reject_vote n from])
      else do {
        let stepped_down = current_term n < rv_term r;
        let n1 = (if stepped_down then step_down n (rv_term r) else n);
        own_index \<leftarrow> last_log_index n1;
        let up_to_date = log_is_up_to_date r (last_log_term n1) own_index;
        let already_voted = (voted_for n1 = Some (candidate_id r));
        let can_grant = (up_to_date \<and> (voted_for n1 = None \<or> already_voted));
        let n2 = (if can_grant
                  then n1\<lparr>voted_for := Some (candidate_id r), election_elapsed := 0\<rparr> else n1);
        Some (n2,
          (if stepped_down \<or> can_grant
           then [PersistHardState (current_term n2) (voted_for n2)] else []) @
          [Send from (RequestVoteResponse
             \<lparr>rvr_term = current_term n2, granted = can_grant\<rparr>)])
      })"

definition on_request_vote_response ::
    "node \<Rightarrow> node_id \<Rightarrow> request_vote_response \<Rightarrow> (node \<times> effect list) option" where
  "on_request_vote_response n from r =
     (if current_term n < rvr_term r then
        (let n' = step_down n (rvr_term r) in
         Some (n', [PersistHardState (current_term n') (voted_for n')]))
      else if rvr_term r < current_term n \<or> role n \<noteq> Candidate then Some (n, [])
      else if granted r then
        (let n' = n\<lparr>votes_granted := insert from (votes_granted n)\<rparr> in
         if has_quorum n' then become_leader n' else Some (n', []))
      else Some (n, []))"

text \<open>A vote request is refused without a change of state, or it is answered in the request's
  term.\<close>

lemma on_request_vote_cases:
  assumes "on_request_vote n from r = Some (n', effects)"
  obtains (refused) "rv_term r < current_term n \<or> role n = Leader \<or>
        is_joint (current_config n) \<and> leader_contact_elapsed n < heartbeat_interval n"
      "n' = n" "effects = [reject_vote n from]"
  | (answered) m grant where "current_term n \<le> rv_term r" "role n \<noteq> Leader"
      "\<not> (is_joint (current_config n) \<and> leader_contact_elapsed n < heartbeat_interval n)"
      "m = (if current_term n < rv_term r then step_down n (rv_term r) else n)"
      "grant \<longleftrightarrow> log_is_up_to_date r (last_log_term n) (boundary n + length (log n)) \<and>
        (voted_for m = None \<or> voted_for m = Some (candidate_id r))"
      "n' = (if grant then m\<lparr>voted_for := Some (candidate_id r), election_elapsed := 0\<rparr> else m)"
      "effects = (if current_term n < rv_term r \<or> grant
          then [PersistHardState (current_term n') (voted_for n')] else []) @
        [Send from (RequestVoteResponse \<lparr>rvr_term = rv_term r, granted = grant\<rparr>)]"
proof (cases "rv_term r < current_term n \<or> role n = Leader \<or>
    is_joint (current_config n) \<and> leader_contact_elapsed n < heartbeat_interval n")
  case True
  with assms show thesis
    by (intro refused) (auto simp: on_request_vote_def is_joint_def split: if_splits)
next
  case False
  define m where "m = (if current_term n < rv_term r then step_down n (rv_term r) else n)"
  define grant where "grant \<longleftrightarrow>
    log_is_up_to_date r (last_log_term n) (boundary n + length (log n)) \<and>
    (voted_for m = None \<or> voted_for m = Some (candidate_id r))"
  have m: "last_log_term m = last_log_term n" "boundary m = boundary n" "log m = log n"
    by (auto simp: m_def step_down_def last_log_term_def)
  have t: "current_term m = rv_term r" using False by (auto simp: m_def step_down_def)
  show thesis
  proof (rule answered [OF _ _ _ m_def grant_def])
    show "current_term n \<le> rv_term r" "role n \<noteq> Leader"
      "\<not> (is_joint (current_config n) \<and> leader_contact_elapsed n < heartbeat_interval n)"
      using False by auto
    from assms False obtain last where l: "last_log_index m = Some last"
      and n': "n' = (if grant then m\<lparr>voted_for := Some (candidate_id r), election_elapsed := 0\<rparr> else m)"
      and e: "effects = (if current_term n < rv_term r \<or> grant
          then [PersistHardState (current_term n') (voted_for n')] else []) @
        [Send from (RequestVoteResponse \<lparr>rvr_term = current_term n', granted = grant\<rparr>)]"
      unfolding on_request_vote_def is_joint_def Let_def m_def [symmetric]
      by (auto simp: run_simps grant_def m)
    show "n' = (if grant then m\<lparr>voted_for := Some (candidate_id r), election_elapsed := 0\<rparr> else m)"
      by (fact n')
    show "effects = (if current_term n < rv_term r \<or> grant
          then [PersistHardState (current_term n') (voted_for n')] else []) @
        [Send from (RequestVoteResponse \<lparr>rvr_term = rv_term r, granted = grant\<rparr>)]"
      using e n' t by (cases grant) simp_all
  qed
qed

end
