(* ===== verification/Raft_Replication.thy ===== *)
theory Raft_Replication
  imports Raft_Node
begin

text \<open>
  The follower side of replication: \<^verbatim>\<open>on_append_entries\<close> with its merge loop and
  \<^verbatim>\<open>on_install_snapshot\<close> of \<^verbatim>\<open>crates/kurogane-raft/src/lib.rs\<close>.
\<close>

section \<open>AppendEntries\<close>

definition reject_append_entries :: "node \<Rightarrow> node_id \<Rightarrow> effect" where
  "reject_append_entries n from =
     Send from (AppendEntriesResponse
       \<lparr>aer_term = current_term n, success = False, aer_match_index = 0\<rparr>)"

text \<open>The loop over \<^verbatim>\<open>request.entries.iter().enumerate()\<close>; \<open>changed\<close> is \<^verbatim>\<open>log_changed_from\<close>.\<close>

fun merge_entries ::
    "u64 \<Rightarrow> nat \<Rightarrow> log_entry list \<Rightarrow> node \<Rightarrow> u64 option \<Rightarrow> (node \<times> u64 option) option" where
  "merge_entries prev offset [] n changed = Some (n, changed)"
| "merge_entries prev offset (e # es) n changed = do {
     a \<leftarrow> add64 prev offset;
     index \<leftarrow> add64 a 1;
     if index \<le> boundary n then merge_entries prev (offset + 1) es n changed
     else do {
       existing \<leftarrow> term_at n index;
       case existing of
         Some existing_term \<Rightarrow>
           (if existing_term = entry_term e then merge_entries prev (offset + 1) es n changed
            else do {
              k \<leftarrow> vec_index n index;
              merge_entries prev (offset + 1) es (n\<lparr>log := take k (log n) @ [e]\<rparr>)
                (if changed = None then Some index else changed)
            })
       | None \<Rightarrow>
           merge_entries prev (offset + 1) es (n\<lparr>log := log n @ [e]\<rparr>)
             (if changed = None then Some index else changed)
     }
   }"

text \<open>A current or newer leader is heard from: a newer term steps the node down, a candidate of the
  same term gives up, and both contact clocks restart.\<close>

definition observe_leader :: "node \<Rightarrow> u64 \<Rightarrow> node" where
  "observe_leader n t =
     (let n1 = (if current_term n < t then step_down n t
                else if role n = Candidate then n\<lparr>role := Follower\<rparr> else n)
      in n1\<lparr>election_elapsed := 0, leader_contact_elapsed := 0\<rparr>)"

definition persist_hard_state :: "bool \<Rightarrow> node \<Rightarrow> effect list" where
  "persist_hard_state stepped_down n =
     (if stepped_down then [PersistHardState (current_term n) (voted_for n)] else [])"

definition prev_log_satisfied :: "node \<Rightarrow> append_entries \<Rightarrow> bool option" where
  "prev_log_satisfied n r =
     (if prev_log_index r \<le> boundary n then Some True
      else do { t \<leftarrow> term_at n (prev_log_index r); Some (t = Some (prev_log_term r)) })"

text \<open>Everything after the check on the previous entry; \<open>hard\<close> are the effects collected so far.\<close>

definition accept_entries ::
    "node \<Rightarrow> node_id \<Rightarrow> append_entries \<Rightarrow> effect list \<Rightarrow> (node \<times> effect list) option" where
  "accept_entries n from r hard = do {
     (n1, changed) \<leftarrow> merge_entries (prev_log_index r) 0 (entries r) n None;
     n2 \<leftarrow> (if changed \<noteq> None then recompute_config n1 else Some n1);
     n3 \<leftarrow> (if commit_index n2 < leader_commit r then do {
              last \<leftarrow> last_log_index n2;
              Some (n2\<lparr>commit_index := min (leader_commit r) last\<rparr>)
            } else Some n2);
     matched \<leftarrow> add64 (prev_log_index r) (length (entries r));
     persist \<leftarrow> (case changed of
         None \<Rightarrow> Some []
       | Some from_index \<Rightarrow> do {
           es \<leftarrow> entries_from n3 from_index;
           Some [PersistLog from_index es]
         });
     Some (n3, hard @ persist @
       [Send from (AppendEntriesResponse
          \<lparr>aer_term = current_term n3, success = True, aer_match_index = matched\<rparr>)])
   }"

definition on_append_entries ::
    "node \<Rightarrow> node_id \<Rightarrow> append_entries \<Rightarrow> (node \<times> effect list) option" where
  "on_append_entries n from r =
     (if ae_term r < current_term n then Some (n, [reject_append_entries n from])
      else do {
        let stepped_down = current_term n < ae_term r;
        let n' = observe_leader n (ae_term r);
        let hard = persist_hard_state stepped_down n';
        satisfied \<leftarrow> prev_log_satisfied n' r;
        if \<not> satisfied then Some (n', hard @ [reject_append_entries n' from])
        else accept_entries n' from r hard
      })"

section \<open>InstallSnapshot\<close>

definition install_snapshot_response :: "node \<Rightarrow> u64 \<Rightarrow> install_snapshot_response" where
  "install_snapshot_response n index =
     \<lparr>isr_term = current_term n, isr_last_included_index = index\<rparr>"

definition on_install_snapshot ::
    "node \<Rightarrow> node_id \<Rightarrow> install_snapshot \<Rightarrow> (node \<times> effect list) option" where
  "on_install_snapshot n from r =
     (if is_term r < current_term n then
        Some (n, [Send from (InstallSnapshotResponse
          (install_snapshot_response n (boundary n)))])
      else do {
        let stepped_down = current_term n < is_term r;
        let n2 = observe_leader n (is_term r);
        let hard = persist_hard_state stepped_down n2;
        t \<leftarrow> term_at n2 (is_last_included_index r);
        let already_covered = (t = Some (is_last_included_term r));
        if already_covered then
          Some (n2, hard @ [Send from (InstallSnapshotResponse
            (install_snapshot_response n2 (is_last_included_index r)))])
        else do {
          let n3 = n2\<lparr>log := [],
            snapshot := \<lparr>last_included_index = is_last_included_index r,
                         last_included_term = is_last_included_term r\<rparr>,
            snapshot_data := is_data r,
            snapshot_config := is_config r,
            commit_index := max (commit_index n2) (is_last_included_index r)\<rparr>;
          n4 \<leftarrow> recompute_config n3;
          from_index \<leftarrow> add64 (is_last_included_index r) 1;
          Some (n4, hard @
            [PersistSnapshot (is_last_included_index r) (is_last_included_term r)
               (is_data r) (is_config r),
             PersistLog from_index [],
             Send from (InstallSnapshotResponse
               (install_snapshot_response n4 (is_last_included_index r)))])
        }
      })"

section \<open>What the merge loop computes\<close>

text \<open>Number of leading entries whose terms agree with the log from position \<open>k\<close> on.\<close>

fun agree :: "log_entry list \<Rightarrow> nat \<Rightarrow> log_entry list \<Rightarrow> nat" where
  "agree L k [] = 0"
| "agree L k (e # es) =
     (if k < length L \<and> entry_term (L ! k) = entry_term e then Suc (agree L (Suc k) es) else 0)"

definition append_at :: "log_entry list \<Rightarrow> nat \<Rightarrow> log_entry list \<Rightarrow> log_entry list" where
  "append_at L k es =
     (let m = agree L k es in if m = length es then L else take (k + m) L @ drop m es)"

lemma agree_le: "agree L k es \<le> length es"
  by (induction es arbitrary: k) auto

lemma agree_bound: "k \<le> length L \<Longrightarrow> k + agree L k es \<le> length L"
proof (induction es arbitrary: k)
  case (Cons e es)
  then show ?case using Cons.IH [of "Suc k"] by auto
qed simp

lemma agree_end: "length L \<le> k \<Longrightarrow> agree L k es = 0"
  by (cases es) auto

lemma agree_nth: "i < agree L k es \<Longrightarrow> entry_term (L ! (k + i)) = entry_term (es ! i)"
proof (induction es arbitrary: k i)
  case (Cons e es)
  then show ?case using Cons.IH [of "i - 1" "Suc k"] by (cases i) (auto split: if_splits)
qed simp

lemma agree_stop:
  "agree L k es < length es \<Longrightarrow> k + agree L k es < length L \<Longrightarrow>
     entry_term (L ! (k + agree L k es)) \<noteq> entry_term (es ! agree L k es)"
proof (induction es arbitrary: k)
  case (Cons e es)
  then show ?case using Cons.IH [of "Suc k"] by (auto split: if_splits)
qed simp

lemma append_at_Nil [simp]: "append_at L k [] = L"
  by (simp add: append_at_def)

lemma append_at_end: "length L = k \<Longrightarrow> append_at L k es = L @ es"
  by (simp add: append_at_def agree_end)

lemma append_at_same:
  "k < length L \<Longrightarrow> entry_term (L ! k) = entry_term e \<Longrightarrow>
     append_at L k (e # es) = append_at L (Suc k) es"
  by (simp add: append_at_def Let_def)

lemma append_at_diff:
  "\<not> (k < length L \<and> entry_term (L ! k) = entry_term e) \<Longrightarrow>
     append_at L k (e # es) = take k L @ e # es"
  by (auto simp: append_at_def Let_def)

lemma take_append_at: "k \<le> length L \<Longrightarrow> take k (append_at L k es) = take k L"
  by (auto simp: append_at_def Let_def)

lemma length_append_at: "k \<le> length L \<Longrightarrow> k + length es \<le> length (append_at L k es)"
  using agree_bound [of k L es] agree_le [of L k es]
  by (auto simp: append_at_def Let_def)

lemma append_at_nth_term:
  assumes "k \<le> length L" and "i < length es"
  shows "entry_term (append_at L k es ! (k + i)) = entry_term (es ! i)"
  using assms agree_bound [of k L es] agree_le [of L k es] agree_nth [of i L k es]
  by (auto simp: append_at_def Let_def nth_append)

text \<open>The merge loop from a position above the boundary.\<close>

declare merge_entries.simps(2) [simp del]

lemma merge_entries_Cons_above:
  assumes "prev + off = boundary n + k" and "k \<le> length (log n)"
  shows "merge_entries prev off (e # es) n changed =
    (if \<not> fits64 (prev + off + 1) then None
     else if k < length (log n) \<and> entry_term (log n ! k) = entry_term e
     then merge_entries prev (Suc off) es n changed
     else merge_entries prev (Suc off) es (n\<lparr>log := take k (log n) @ [e]\<rparr>)
       (if changed = None then Some (prev + off + 1) else changed))"
proof -
  have "log_term_at n (prev + off + 1) =
      (if k < length (log n) then Some (entry_term (log n ! k)) else None)"
    using assms by (auto simp: log_term_at_def log_entry_at_def)
  then show ?thesis
    using assms fits64_mono [of "prev + off + 1" "prev + off"]
    by (auto simp: add64_def merge_entries.simps)
qed

lemma merge_entries_above:
  assumes "merge_entries prev off es n changed = Some (n', changed')"
    and "prev + off = boundary n + k" and "k \<le> length (log n)"
  shows "n' = n\<lparr>log := append_at (log n) k es\<rparr> \<and>
    changed' = (if changed \<noteq> None \<or> agree (log n) k es = length es then changed
                else Some (prev + off + agree (log n) k es + 1)) \<and>
    (es \<noteq> [] \<longrightarrow> fits64 (prev + off + length es))"
  using assms
proof (induction es arbitrary: off n changed k)
  case (Cons e es)
  show ?case
  proof (cases "k < length (log n) \<and> entry_term (log n ! k) = entry_term e")
    case True
    then have "merge_entries prev (Suc off) es n changed = Some (n', changed')"
      and "fits64 (prev + off + 1)"
      using Cons.prems by (auto simp: merge_entries_Cons_above split: if_splits)
    with Cons.IH [of "Suc off" n changed "Suc k"] True Cons.prems show ?thesis
      by (cases "es = []") (auto simp: append_at_same)
  next
    case False
    let ?n = "n\<lparr>log := take k (log n) @ [e]\<rparr>"
    from False have m: "merge_entries prev (Suc off) es ?n
        (if changed = None then Some (prev + off + 1) else changed) = Some (n', changed')"
      and "fits64 (prev + off + 1)"
      using Cons.prems by (auto simp: merge_entries_Cons_above split: if_splits)
    have len: "length (log ?n) = Suc k" using Cons.prems by simp
    have "n' = ?n\<lparr>log := append_at (log ?n) (Suc k) es\<rparr> \<and>
      changed' = (if (if changed = None then Some (prev + off + 1) else changed) \<noteq> None \<or>
          agree (log ?n) (Suc k) es = length es
        then (if changed = None then Some (prev + off + 1) else changed)
        else Some (prev + Suc off + agree (log ?n) (Suc k) es + 1)) \<and>
      (es \<noteq> [] \<longrightarrow> fits64 (prev + Suc off + length es))"
      using Cons.prems len by (intro Cons.IH [OF m]) auto
    moreover have "append_at (log ?n) (Suc k) es = append_at (log n) k (e # es)"
      using False append_at_end [OF len, of es] by (simp add: append_at_diff)
    moreover have "agree (log n) k (e # es) = 0" using False by auto
    ultimately show ?thesis
      using \<open>fits64 (prev + off + 1)\<close> by (cases "es = []") simp_all
  qed
qed simp

text \<open>The entries at or below the boundary are skipped; what is left is merged at the boundary or
  at \<open>prev\<close>, whichever is higher.\<close>

lemma merge_entries_skip:
  "prev + off < boundary n \<Longrightarrow> merge_entries prev off (e # es) n changed =
     (if fits64 (prev + off + 1) then merge_entries prev (Suc off) es n changed else None)"
  using fits64_mono [of "prev + off + 1" "prev + off"]
  by (auto simp: add64_def merge_entries.simps)

lemma merge_entries_eq:
  assumes "merge_entries prev off es n None = Some (n', changed')"
    and "prev + off \<le> boundary n + length (log n)"
  defines "skip \<equiv> boundary n - (prev + off)"
  defines "k \<equiv> prev + off - boundary n"
  shows "n' = n\<lparr>log := append_at (log n) k (drop skip es)\<rparr> \<and>
    changed' = (if agree (log n) k (drop skip es) = length (drop skip es) then None
      else Some (boundary n + k + agree (log n) k (drop skip es) + 1)) \<and>
    (es \<noteq> [] \<longrightarrow> fits64 (prev + off + length es))"
proof (cases "boundary n \<le> prev + off")
  case True
  then show ?thesis
    using merge_entries_above [OF assms(1), of k] assms(2) skip_def k_def by auto
next
  case False
  then have "k = 0" and "prev + off + skip = boundary n" using skip_def k_def by auto
  with assms(1) show ?thesis
  proof (induction skip arbitrary: off es)
    case 0
    then show ?case using merge_entries_above [OF 0(1), of 0] by auto
  next
    case (Suc skip)
    show ?case
    proof (cases es)
      case Nil
      with Suc show ?thesis by simp
    next
      case (Cons e es')
      with Suc.prems have "merge_entries prev (Suc off) es' n None = Some (n', changed')"
        and "fits64 (prev + off + 1)"
        by (auto simp: merge_entries_skip split: if_splits)
      with Suc.IH [of "Suc off" es'] Suc.prems Cons show ?thesis by (cases "es' = []") auto
    qed
  qed
qed

definition merged_log :: "node \<Rightarrow> u64 \<Rightarrow> log_entry list \<Rightarrow> log_entry list" where
  "merged_log n prev es = append_at (log n) (prev - boundary n) (drop (boundary n - prev) es)"

definition changed_from :: "node \<Rightarrow> u64 \<Rightarrow> log_entry list \<Rightarrow> u64 option" where
  "changed_from n prev es =
     (let k = prev - boundary n; es' = drop (boundary n - prev) es; m = agree (log n) k es' in
      if m = length es' then None else Some (boundary n + k + m + 1))"

lemma merge_entries_merged:
  assumes "merge_entries prev 0 es n None = Some (n', changed)"
    and "prev \<le> boundary n + length (log n)"
  shows "n' = n\<lparr>log := merged_log n prev es\<rparr>" and "changed = changed_from n prev es"
    and "es \<noteq> [] \<Longrightarrow> fits64 (prev + length es)"
  using merge_entries_eq [OF assms(1)] assms(2)
  by (auto simp: merged_log_def changed_from_def Let_def)

lemma merge_entries_total:
  "fits64 (prev + off + length es) \<Longrightarrow> \<exists>r. merge_entries prev off es n changed = Some r"
proof (induction es arbitrary: off n changed)
  case (Cons e es)
  have "fits64 (prev + off)" "fits64 (prev + off + 1)" "fits64 (prev + (off + 1) + length es)"
    using Cons.prems by (auto elim: fits64_mono)
  with Cons.IH [of "off + 1"] show ?case
    by (auto simp: merge_entries.simps add64_def split: option.split)
qed simp

lemma changed_from_None: "changed_from n prev es = None \<Longrightarrow> merged_log n prev es = log n"
  by (auto simp: changed_from_def merged_log_def append_at_def Let_def split: if_splits)

lemma changed_from_Some:
  assumes "changed_from n prev es = Some i" and "prev \<le> boundary n + length (log n)"
  shows "boundary n < i" and "i \<le> boundary n + length (log n) + 1"
    and "i \<le> boundary n + length (merged_log n prev es)"
    and "take (i - boundary n - 1) (merged_log n prev es) = take (i - boundary n - 1) (log n)"
    and "prev < i"
proof -
  let ?k = "prev - boundary n" and ?es = "drop (boundary n - prev) es"
  let ?m = "agree (log n) ?k ?es"
  have k: "?k \<le> length (log n)" using assms(2) by auto
  have i: "i = boundary n + ?k + ?m + 1" and m: "?m < length ?es"
    using assms(1) agree_le [of "log n" ?k ?es]
    by (auto simp: changed_from_def Let_def split: if_splits)
  have L: "merged_log n prev es = take (?k + ?m) (log n) @ drop ?m ?es"
    using m by (simp add: merged_log_def append_at_def Let_def)
  show "boundary n < i" "i \<le> boundary n + length (log n) + 1" "prev < i"
    using i agree_bound [OF k, of ?es] by auto
  show "i \<le> boundary n + length (merged_log n prev es)"
    using i m agree_bound [OF k, of ?es] by (simp add: L) linarith
  show "take (i - boundary n - 1) (merged_log n prev es) = take (i - boundary n - 1) (log n)"
    using i agree_bound [OF k, of ?es] by (simp add: L)
qed

end
