(* ===== verification/Raft_Commit.thy ===== *)
theory Raft_Commit
  imports Raft_Election Raft_Replication
begin

text \<open>
  The leader side of replication and every operation that can append to or shorten the log of
  \<^verbatim>\<open>crates/kurogane-raft/src/lib.rs\<close>: the response handlers, \<^verbatim>\<open>advance_commit_index\<close>,
  \<^verbatim>\<open>propose\<close>, \<^verbatim>\<open>propose_config_change\<close>, the learner operations, \<^verbatim>\<open>compact\<close>, and the
  dispatch function \<^verbatim>\<open>step\<close>.
\<close>

section \<open>Commit advancement\<close>

text \<open>The index that a majority of \<open>vs\<close> has reached: the match indices in ascending order, read
  at \<^verbatim>\<open>len - quorum\<close>. An empty set underflows, as the Rust subtraction does.\<close>

definition quorum_match :: "node \<Rightarrow> node_id list \<Rightarrow> u64 option" where
  "quorum_match n vs = do {
     ms \<leftarrow> collect
       (\<lambda>peer. if peer = nid n then last_log_index n
               else Some (case match_index n peer of Some m \<Rightarrow> m | None \<Rightarrow> 0)) vs;
     k \<leftarrow> sub64 (length vs) (length vs div 2 + 1);
     let sorted = sort ms;
     if k < length sorted then Some (sorted ! k) else None
   }"

definition commit_candidate :: "node \<Rightarrow> u64 option" where
  "commit_candidate n = do {
     new_candidate \<leftarrow> quorum_match n (voters (current_config n));
     case old_voters (current_config n) of
       None \<Rightarrow> Some new_candidate
     | Some vs \<Rightarrow> do {
         old_candidate \<leftarrow> quorum_match n vs;
         Some (min new_candidate old_candidate)
       }
   }"

definition advance_point :: "node \<Rightarrow> node option" where
  "advance_point n = do {
     candidate \<leftarrow> commit_candidate n;
     if commit_index n < candidate then do {
       t \<leftarrow> term_at n candidate;
       Some (if t = Some (current_term n) then n\<lparr>commit_index := candidate\<rparr> else n)
     } else Some n
   }"

definition joint_committed :: "node \<Rightarrow> bool" where
  "joint_committed n \<longleftrightarrow>
     old_voters (current_config n) \<noteq> None \<and> current_config_index n \<le> commit_index n"

definition follow_up :: "node \<Rightarrow> log_entry" where
  "follow_up n = \<lparr>entry_term = current_term n,
     payload = Configuration \<lparr>voters = voters (current_config n), old_voters = None\<rparr>\<rparr>"

definition push_follow_up :: "node \<Rightarrow> (node \<times> effect) option" where
  "push_follow_up n = do {
     n' \<leftarrow> recompute_config (n\<lparr>log := log n @ [follow_up n]\<rparr>);
     index \<leftarrow> last_log_index n';
     Some (n', PersistLog index [follow_up n])
   }"

definition retire_if_excluded :: "node \<Rightarrow> node" where
  "retire_if_excluded n =
     (if old_voters (current_config n) = None \<and> current_config_index n \<le> commit_index n \<and>
         nid n \<notin> set (voters (current_config n))
      then retire_from_leadership n else n)"

lemma recompute_config_push:
  "recompute_config (n\<lparr>log := log n @ [e]\<rparr>) = Some n' \<Longrightarrow> payload e = Configuration c \<Longrightarrow>
     n' = n\<lparr>log := log n @ [e], current_config := c,
            current_config_index := boundary n + length (log n) + 1\<rparr>"
  by (auto simp: recompute_config_def latest_configuration_in_snoc run_simps split: if_splits)

lemma advance_point_frame:
  "advance_point n = Some n1 \<Longrightarrow> \<exists>c. commit_index n \<le> c \<and> n1 = n\<lparr>commit_index := c\<rparr>"
  by (rule exI [of _ "commit_index n1"]) (auto simp: advance_point_def run_simps split: if_splits)

lemma push_follow_up_frame:
  "push_follow_up n = Some (n', persist) \<Longrightarrow>
     n' = n\<lparr>log := log n @ [follow_up n],
            current_config := \<lparr>voters = voters (current_config n), old_voters = None\<rparr>,
            current_config_index := boundary n + length (log n) + 1\<rparr> \<and>
     persist = PersistLog (boundary n + length (log n) + 1) [follow_up n]"
  by (auto simp: push_follow_up_def run_simps last_log_index_def follow_up_def
      dest!: recompute_config_push)

function advance_commit_index :: "node \<Rightarrow> (node \<times> effect list) option" where
  "advance_commit_index n = do {
     n1 \<leftarrow> advance_point n;
     (n2, effects) \<leftarrow>
       (if joint_committed n1 then do {
          (n', persist) \<leftarrow> push_follow_up n1;
          (n'', effects) \<leftarrow> advance_commit_index n';
          Some (n'', persist # effects)
        } else Some (n1, []));
     Some (retire_if_excluded n2, effects)
   }"
  by pat_completeness auto
termination
proof (relation "measure (\<lambda>n. if old_voters (current_config n) = None then 0 else 1)", goal_cases)
  case (2 n n1 p n' persist)
  then show ?case
    by (auto simp: joint_committed_def dest!: advance_point_frame push_follow_up_frame)
qed simp

declare advance_commit_index.simps [simp del]

lemma retire_if_excluded_idem [simp]:
  "retire_if_excluded (retire_if_excluded n) = retire_if_excluded n"
  by (simp add: retire_if_excluded_def retire_from_leadership_def)

lemma advance_commit_index_cases:
  assumes "advance_commit_index n = Some (n', effects)"
  obtains (plain) n1 where "advance_point n = Some n1" "\<not> joint_committed n1"
      "n' = retire_if_excluded n1" "effects = []"
  | (follow_up) n1 n2 persist n3 where "advance_point n = Some n1" "joint_committed n1"
      "push_follow_up n1 = Some (n2, persist)" "advance_point n2 = Some n3"
      "n' = retire_if_excluded n3" "effects = [persist]"
proof -
  from assms obtain n1 where n1: "advance_point n = Some n1"
    by (subst (asm) advance_commit_index.simps) (auto simp: run_simps)
  show thesis
  proof (cases "joint_committed n1")
    case False
    with assms n1 show thesis
      by (intro plain [OF n1]) (simp_all add: advance_commit_index.simps [of n])
  next
    case True
    with assms n1 obtain n2 persist n'' effs where p: "push_follow_up n1 = Some (n2, persist)"
      and rec: "advance_commit_index n2 = Some (n'', effs)"
      and r: "n' = retire_if_excluded n''" "effects = persist # effs"
      by (subst (asm) advance_commit_index.simps) (auto simp: run_simps)
    from rec obtain n3 where n3: "advance_point n2 = Some n3"
      by (subst (asm) advance_commit_index.simps) (auto simp: run_simps)
    have "\<not> joint_committed n3"
      using push_follow_up_frame [OF p] advance_point_frame [OF n3]
      by (auto simp: joint_committed_def)
    with rec n3 have "n'' = retire_if_excluded n3" "effs = []"
      by (simp_all add: advance_commit_index.simps [of n2])
    with r show thesis by (intro follow_up [OF n1 True p n3]) simp_all
  qed
qed

text \<open>A property kept by the three elementary changes is kept by the whole advancement.\<close>

lemma advance_commit_index_preserves:
  assumes "advance_commit_index n = Some (n', effects)" and "P n"
    and "\<And>m m'. advance_point m = Some m' \<Longrightarrow> P m \<Longrightarrow> P m'"
    and "\<And>m m' e. push_follow_up m = Some (m', e) \<Longrightarrow> P m \<Longrightarrow> P m'"
    and "\<And>m. P m \<Longrightarrow> P (retire_from_leadership m)"
  shows "P n'"
proof -
  have ret: "P m \<Longrightarrow> P (retire_if_excluded m)" for m
    using assms(5) by (simp add: retire_if_excluded_def)
  from assms(1) show ?thesis
    by (cases rule: advance_commit_index_cases) (blast intro: assms(2-4) ret)+
qed


section \<open>Responses to the leader\<close>

text \<open>What both response handlers end with: a node that is still leader sends the peer its next
  batch when the peer is behind.\<close>

definition continue_replication ::
    "node \<Rightarrow> node_id \<Rightarrow> effect list \<Rightarrow> (node \<times> effect list) option" where
  "continue_replication n from effects =
     (if role n = Leader then do {
        next \<leftarrow> next_index n from;
        last \<leftarrow> last_log_index n;
        if next \<le> last then do {
          e \<leftarrow> replicate_to n from;
          Some (n, effects @ [e])
        } else Some (n, effects)
      } else Some (n, effects))"

definition on_install_snapshot_response ::
    "node \<Rightarrow> node_id \<Rightarrow> install_snapshot_response \<Rightarrow> (node \<times> effect list) option" where
  "on_install_snapshot_response n from r =
     (if current_term n < isr_term r then
        (let n' = step_down n (isr_term r) in
         Some (n', [PersistHardState (current_term n') (voted_for n')]))
      else if isr_term r < current_term n \<or> role n \<noteq> Leader then Some (n, [])
      else do {
        m \<leftarrow> match_index n from;
        let m' = max m (isr_last_included_index r);
        next \<leftarrow> add64 m' 1;
        (n', effects) \<leftarrow> advance_commit_index
          (n\<lparr>match_index := (match_index n)(from \<mapsto> m'),
             next_index := (next_index n)(from \<mapsto> next)\<rparr>);
        continue_replication n' from effects
      })"

definition on_append_entries_response ::
    "node \<Rightarrow> node_id \<Rightarrow> append_entries_response \<Rightarrow> (node \<times> effect list) option" where
  "on_append_entries_response n from r =
     (if current_term n < aer_term r then
        (let n' = step_down n (aer_term r) in
         Some (n', [PersistHardState (current_term n') (voted_for n')]))
      else if aer_term r < current_term n \<or> role n \<noteq> Leader then Some (n, [])
      else if success r then do {
        m \<leftarrow> match_index n from;
        let m' = max m (aer_match_index r);
        next \<leftarrow> add64 m' 1;
        (n', effects) \<leftarrow> advance_commit_index
          (n\<lparr>match_index := (match_index n)(from \<mapsto> m'),
             next_index := (next_index n)(from \<mapsto> next)\<rparr>);
        continue_replication n' from effects
      } else do {
        next \<leftarrow> next_index n from;
        continue_replication
          (n\<lparr>next_index := (next_index n)(from \<mapsto> max (next - 1) 1)\<rparr>) from []
      })"

section \<open>Client and operator operations\<close>

definition propose ::
    "node \<Rightarrow> bytes \<Rightarrow> (node \<times> (u64 \<times> effect list) option) option" where
  "propose n command =
     (if role n \<noteq> Leader then Some (n, None)
      else do {
        let entry = \<lparr>entry_term = current_term n, payload = Command command\<rparr>;
        n1 \<leftarrow> recompute_config (n\<lparr>log := log n @ [entry]\<rparr>);
        index \<leftarrow> last_log_index n1;
        (n2, effects) \<leftarrow> advance_commit_index n1;
        Some (n2, Some (index, PersistLog index [entry] # effects))
      })"

definition propose_config_change ::
    "node \<Rightarrow> node_id list \<Rightarrow> (node \<times> (u64 \<times> effect list) option) option" where
  "propose_config_change n new_voters =
     (if role n \<noteq> Leader \<or> new_voters = [] then Some (n, None)
      else do {
        let remaining = {i \<in> learners n. i \<notin> set new_voters};
        let promoted =
          (if card remaining \<noteq> card (learners n)
           then [PersistLearners (sorted_list_of_set remaining)] else []);
        let entry = \<lparr>entry_term = current_term n,
          payload = Configuration \<lparr>voters = new_voters,
                                   old_voters = Some (voters (current_config n))\<rparr>\<rparr>;
        n1 \<leftarrow> recompute_config (n\<lparr>learners := remaining, log := log n @ [entry]\<rparr>);
        index \<leftarrow> last_log_index n1;
        (n2, effects) \<leftarrow> advance_commit_index n1;
        Some (n2, Some (index, promoted @ PersistLog index [entry] # effects))
      })"

definition add_learner :: "node \<Rightarrow> node_id \<Rightarrow> (node \<times> effect list) option" where
  "add_learner n i =
     (if role n \<noteq> Leader \<or> i \<in> learners n \<or> is_voter (current_config n) i then Some (n, [])
      else do {
        last \<leftarrow> last_log_index n;
        next \<leftarrow> add64 last 1;
        let n' = n\<lparr>learners := insert i (learners n),
          next_index := (case next_index n i of
            None \<Rightarrow> (next_index n)(i \<mapsto> next) | Some _ \<Rightarrow> next_index n),
          match_index := (case match_index n i of
            None \<Rightarrow> (match_index n)(i \<mapsto> 0) | Some _ \<Rightarrow> match_index n)\<rparr>;
        Some (n', [PersistLearners (sorted_list_of_set (learners n'))])
      })"

definition remove_learner :: "node \<Rightarrow> node_id \<Rightarrow> node \<times> effect list" where
  "remove_learner n i =
     (if role n \<noteq> Leader \<or> i \<notin> learners n then (n, [])
      else
        (let n' = n\<lparr>learners := learners n - {i}\<rparr> in
         (n', [PersistLearners (sorted_list_of_set (learners n'))])))"

definition compact ::
    "node \<Rightarrow> u64 \<Rightarrow> bytes \<Rightarrow> (node \<times> (compact_error + effect list)) option" where
  "compact n up_to_index data =
     (if up_to_index \<le> boundary n then Some (n, Inr [])
      else if commit_index n < up_to_index then Some (n, Inl IndexNotCommitted)
      else do {
        found \<leftarrow> term_at n up_to_index;
        t \<leftarrow> found;
        k \<leftarrow> vec_index n up_to_index;
        drained \<leftarrow> (if k < length (log n) then Some (take (k + 1) (log n)) else None);
        latest \<leftarrow> latest_configuration_in drained (boundary n);
        let n1 = n\<lparr>snapshot_config :=
            (case latest of Some (config, _) \<Rightarrow> config | None \<Rightarrow> snapshot_config n),
          log := drop (k + 1) (log n),
          snapshot := \<lparr>last_included_index = up_to_index, last_included_term = t\<rparr>,
          snapshot_data := data\<rparr>;
        n2 \<leftarrow> recompute_config n1;
        from_index \<leftarrow> add64 up_to_index 1;
        retained \<leftarrow> entries_from n2 from_index;
        Some (n2, Inr [PersistSnapshot up_to_index t data (snapshot_config n2),
                       PersistLog from_index retained])
      })"

lemma propose_rejected: "propose n c = Some (n', None) \<Longrightarrow> n' = n"
  by (auto simp: propose_def bind_eq_Some_conv Let_def split: if_splits)

lemma config_change_rejected: "propose_config_change n vs = Some (n', None) \<Longrightarrow> n' = n"
  by (auto simp: propose_config_change_def bind_eq_Some_conv Let_def split: if_splits)

section \<open>The dispatch function\<close>

fun step :: "node \<Rightarrow> event \<Rightarrow> (node \<times> effect list) option" where
  "step n (Tick next_timeout) = on_tick n next_timeout"
| "step n (Step from (AppendEntries r)) =
     (if ae_leader_id r \<noteq> from then Some (n, []) else on_append_entries n from r)"
| "step n (Step from (InstallSnapshot r)) =
     (if is_leader_id r \<noteq> from then Some (n, []) else on_install_snapshot n from r)"
| "step n (Step from (RequestVote r)) =
     (if \<not> is_member n from then Some (n, [])
      else if candidate_id r \<noteq> from then Some (n, [])
      else on_request_vote n from r)"
| "step n (Step from (RequestVoteResponse r)) =
     (if \<not> is_member n from then Some (n, []) else on_request_vote_response n from r)"
| "step n (Step from (AppendEntriesResponse r)) =
     (if \<not> is_member n from then Some (n, []) else on_append_entries_response n from r)"
| "step n (Step from (InstallSnapshotResponse r)) =
     (if \<not> is_member n from then Some (n, []) else on_install_snapshot_response n from r)"

end
