(* ===== verification/Raft_Invariant.thy ===== *)
theory Raft_Invariant
  imports Raft_Commit
begin

text \<open>
  The well-formedness invariant of a node and its preservation by every operation, with the case
  rules the later theories use: \<open>on_append_entries_cases\<close>, \<open>on_install_snapshot_cases\<close> and
  \<open>compact_cases\<close> state every outcome of the three handlers that rewrite the log as one explicit
  record update.
\<close>

section \<open>The invariant\<close>

definition progress_ok :: "role \<Rightarrow> (node_id \<rightharpoonup> u64) \<Rightarrow> (node_id \<rightharpoonup> u64) \<Rightarrow> bool" where
  "progress_ok rl nexts matches \<longleftrightarrow>
     (rl \<noteq> Leader \<longrightarrow> nexts = Map.empty) \<and>
     (\<forall>p. nexts p = None \<longleftrightarrow> matches p = None) \<and>
     (\<forall>p i. nexts p = Some i \<longrightarrow> 0 < i)"

definition node_inv :: "node \<Rightarrow> bool" where
  "node_inv n \<longleftrightarrow>
     config_in_force n = (current_config n, current_config_index n) \<and>
     boundary n \<le> commit_index n \<and>
     fits64 (boundary n + length (log n)) \<and>
     finite (votes_granted n) \<and> finite (learners n) \<and>
     progress_ok (role n) (next_index n) (match_index n)"

lemma progress_ok_empty [simp]: "progress_ok rl Map.empty Map.empty"
  by (simp add: progress_ok_def)

lemma progress_ok_update:
  "progress_ok rl nexts matches \<Longrightarrow> nexts p \<noteq> None \<Longrightarrow> 0 < i \<Longrightarrow>
     progress_ok rl (nexts(p \<mapsto> i)) (matches(p \<mapsto> m))"
  by (auto simp: progress_ok_def)

lemma progress_ok_update_next:
  "progress_ok rl nexts matches \<Longrightarrow> nexts p \<noteq> None \<Longrightarrow> 0 < i \<Longrightarrow>
     progress_ok rl (nexts(p \<mapsto> i)) matches"
  by (auto simp: progress_ok_def)

lemma progress_ok_seed:
  assumes "progress_ok Leader nexts matches" and "0 < i"
  shows "progress_ok Leader
    (case nexts p of None \<Rightarrow> nexts(p \<mapsto> i) | Some _ \<Rightarrow> nexts)
    (case matches p of None \<Rightarrow> matches(p \<mapsto> 0) | Some _ \<Rightarrow> matches)"
proof -
  have "nexts p = None \<longleftrightarrow> matches p = None" using assms(1) by (simp add: progress_ok_def)
  with assms show ?thesis by (auto simp: progress_ok_def split: option.split)
qed

lemma progress_ok_follower:
  "progress_ok rl nexts matches \<Longrightarrow> rl \<noteq> Leader \<Longrightarrow> progress_ok rl' nexts matches"
  by (auto simp: progress_ok_def)

lemma node_inv_commit: "node_inv n \<Longrightarrow> commit_index n \<le> c \<Longrightarrow> node_inv (n\<lparr>commit_index := c\<rparr>)"
  by (auto simp: node_inv_def config_in_force_def)

lemma node_inv_retire: "node_inv n \<Longrightarrow> node_inv (retire_from_leadership n)"
  and node_inv_step_down: "node_inv n \<Longrightarrow> node_inv (step_down n t)"
  by (auto simp: node_inv_def config_in_force_def retire_from_leadership_def step_down_def)

lemma node_inv_observe_leader: "node_inv n \<Longrightarrow> node_inv (observe_leader n t)"
  by (auto simp: node_inv_def config_in_force_def observe_leader_def step_down_def Let_def
      elim: progress_ok_follower)

lemma node_inv_recompute:
  assumes "recompute_config n = Some n'" and "boundary n \<le> commit_index n"
    and "fits64 (boundary n + length (log n))"
    and "finite (votes_granted n)" "finite (learners n)"
    and "progress_ok (role n) (next_index n) (match_index n)"
  shows "node_inv n'"
  using assms(2-) recompute_config_eq_Some [OF assms(1)]
  by (auto simp: node_inv_def config_in_force_def)

lemma push_follow_up_fits: "push_follow_up n = Some (n', e) \<Longrightarrow> fits64 (boundary n + length (log n) + 1)"
  by (auto simp: push_follow_up_def run_simps follow_up_def dest!: recompute_config_push)

lemma node_inv_push_follow_up: "push_follow_up n = Some (n', e) \<Longrightarrow> node_inv n \<Longrightarrow> node_inv n'"
  using push_follow_up_fits [of n n' e]
  by (auto dest!: push_follow_up_frame simp: node_inv_def config_in_force_def follow_up_def)

lemma node_inv_advance:
  "advance_commit_index n = Some (n', effects) \<Longrightarrow> node_inv n \<Longrightarrow> node_inv n'"
  by (erule advance_commit_index_preserves [where P = node_inv])
     (auto dest!: advance_point_frame intro: node_inv_commit node_inv_retire
       node_inv_push_follow_up)


section \<open>Every handler keeps the invariant\<close>

lemma node_inv_become_leader:
  "become_leader n = Some (n', effects) \<Longrightarrow> node_inv n \<Longrightarrow> node_inv n'"
  by (auto simp: become_leader_def run_simps node_inv_def config_in_force_def progress_ok_def
      split: if_splits)

lemma node_inv_start_election:
  assumes "start_election n t = Some (n', effects)" and "node_inv n" and "role n \<noteq> Leader"
  shows "node_inv n'"
proof -
  have "node_inv (become_candidate n u t)" for u
    using assms(2,3)
    by (auto simp: node_inv_def config_in_force_def become_candidate_def elim: progress_ok_follower)
  with assms show ?thesis
    by (cases rule: start_election_cases [OF assms(1)]) (auto intro: node_inv_become_leader)
qed

lemma node_inv_update [simp]:
  "node_inv (n\<lparr>election_elapsed := a\<rparr>) = node_inv n"
  "node_inv (n\<lparr>leader_contact_elapsed := a\<rparr>) = node_inv n"
  "node_inv (n\<lparr>heartbeat_elapsed := a\<rparr>) = node_inv n"
  "node_inv (n\<lparr>voted_for := v\<rparr>) = node_inv n"
  "node_inv (n\<lparr>votes_granted := insert w (votes_granted n)\<rparr>) = node_inv n"
  by (auto simp: node_inv_def config_in_force_def)

lemma node_inv_on_tick:
  "on_tick n t = Some (n', effects) \<Longrightarrow> node_inv n \<Longrightarrow> node_inv n'"
  by (auto simp: on_tick_def on_leader_tick_def run_simps split: if_splits
      intro: node_inv_start_election)

lemma node_inv_on_request_vote:
  "on_request_vote n from r = Some (n', effects) \<Longrightarrow> node_inv n \<Longrightarrow> node_inv n'"
  by (auto simp: on_request_vote_def run_simps split: if_splits
      intro: node_inv_step_down)

lemma node_inv_on_request_vote_response:
  "on_request_vote_response n from r = Some (n', effects) \<Longrightarrow> node_inv n \<Longrightarrow> node_inv n'"
  by (auto simp: on_request_vote_response_def run_simps split: if_splits
      intro: node_inv_step_down node_inv_become_leader)

lemma prev_log_satisfied_eq [simp]:
  "prev_log_satisfied n r = Some (prev_log_index r \<le> boundary n \<or>
     log_term_at n (prev_log_index r) = Some (prev_log_term r))"
  by (simp add: prev_log_satisfied_def)

lemma log_term_at_range: "log_term_at n i = Some t \<Longrightarrow> i \<le> boundary n + length (log n)"
  by (auto simp: log_term_at_def log_entry_at_def split: if_splits)

text \<open>What an accepted batch does to the node, for a node in lockstep with its configuration.\<close>

definition accepted :: "node \<Rightarrow> append_entries \<Rightarrow> node" where
  "accepted n r =
     (let n1 = n\<lparr>log := merged_log n (prev_log_index r) (entries r)\<rparr> in
      n1\<lparr>current_config := fst (config_in_force n1),
         current_config_index := snd (config_in_force n1),
         commit_index := (if commit_index n < leader_commit r
           then min (leader_commit r) (boundary n + length (log n1)) else commit_index n)\<rparr>)"

lemma accept_entries_eq:
  assumes "accept_entries n from r hard = Some (n', effects)"
    and "prev_log_index r \<le> boundary n + length (log n)"
    and "config_in_force n = (current_config n, current_config_index n)"
  shows "n' = accepted n r"
    and "effects = hard @
      (case changed_from n (prev_log_index r) (entries r) of None \<Rightarrow> []
       | Some i \<Rightarrow> [PersistLog i (drop (i - boundary n - 1) (log n'))]) @
      [Send from (AppendEntriesResponse \<lparr>aer_term = current_term n, success = True,
         aer_match_index = prev_log_index r + length (entries r)\<rparr>)]"
    and "fits64 (prev_log_index r + length (entries r))"
proof -
  let ?L = "merged_log n (prev_log_index r) (entries r)"
  let ?n1 = "n\<lparr>log := ?L\<rparr>" and ?ch = "changed_from n (prev_log_index r) (entries r)"
  from assms(1) obtain n1 changed n2 persist matched where m:
      "merge_entries (prev_log_index r) 0 (entries r) n None = Some (n1, changed)"
    and n2: "(if changed \<noteq> None then recompute_config n1 else Some n1) = Some n2"
    and c: "(if commit_index n2 < leader_commit r then do {
               last \<leftarrow> last_log_index n2;
               Some (n2\<lparr>commit_index := min (leader_commit r) last\<rparr>)
             } else Some n2) = Some n'"
    and f: "add64 (prev_log_index r) (length (entries r)) = Some matched"
    and p: "(case changed of None \<Rightarrow> Some []
             | Some i \<Rightarrow> do { es \<leftarrow> entries_from n' i; Some [PersistLog i es] }) = Some persist"
    and effects: "effects = hard @ persist @ [Send from (AppendEntriesResponse
        \<lparr>aer_term = current_term n', success = True, aer_match_index = matched\<rparr>)]"
    by (auto simp: accept_entries_def bind_eq_Some_conv)
  have n3: "n' = n2\<lparr>commit_index := (if commit_index n2 < leader_commit r
      then min (leader_commit r) (boundary n2 + length (log n2)) else commit_index n2)\<rparr>"
    using c by (auto simp: run_simps split: if_splits)
  have persist: "persist = (case changed of None \<Rightarrow> []
      | Some i \<Rightarrow> [PersistLog i (drop (i - boundary n' - 1) (log n'))])"
    using p by (auto simp: run_simps split: option.splits)
  have matched: "matched = prev_log_index r + length (entries r)"
    and fits: "fits64 (prev_log_index r + length (entries r))"
    using f by (simp_all add: run_simps)
  have n1: "n1 = ?n1" and ch: "changed = ?ch" using merge_entries_merged [OF m assms(2)] by auto
  have "n2 = ?n1\<lparr>current_config := fst (config_in_force ?n1),
      current_config_index := snd (config_in_force ?n1)\<rparr>"
  proof (cases changed)
    case None
    with n2 n1 ch changed_from_None have "n2 = n\<lparr>log := log n\<rparr>" and "?L = log n" by simp_all
    with assms(3) show ?thesis by simp
  next
    case (Some i)
    with n2 n1 show ?thesis by (auto dest: recompute_config_eq_Some)
  qed
  with n3 have acc: "n' = accepted n r" by (simp add: accepted_def Let_def)
  show "n' = accepted n r" by (fact acc)
  show "fits64 (prev_log_index r + length (entries r))" by (fact fits)
  have "current_term n' = current_term n" "boundary n' = boundary n"
    by (simp_all add: acc accepted_def Let_def)
  with persist ch effects matched
  show "effects = hard @ (case ?ch of None \<Rightarrow> []
       | Some i \<Rightarrow> [PersistLog i (drop (i - boundary n - 1) (log n'))]) @
      [Send from (AppendEntriesResponse \<lparr>aer_term = current_term n, success = True,
         aer_match_index = prev_log_index r + length (entries r)\<rparr>)]"
    by (simp split: option.split)
qed

lemma length_merged_log:
  assumes "prev \<le> boundary n + length (log n)"
  shows "boundary n + length (merged_log n prev es) =
    (if changed_from n prev es = None then boundary n + length (log n) else prev + length es)"
proof -
  let ?k = "prev - boundary n" and ?es = "drop (boundary n - prev) es"
  have "?k + agree (log n) ?k ?es \<le> length (log n)" and "agree (log n) ?k ?es \<le> length ?es"
    using assms by (auto intro: agree_bound simp del: length_drop simp: agree_le)
  then show ?thesis
    by (auto simp: merged_log_def changed_from_def append_at_def Let_def) arith
qed

lemma node_inv_accepted:
  assumes "node_inv n" and "prev_log_index r \<le> boundary n + length (log n)"
    and "fits64 (prev_log_index r + length (entries r))"
  shows "node_inv (accepted n r)"
proof -
  let ?L = "merged_log n (prev_log_index r) (entries r)"
  have "fits64 (boundary n + length ?L)"
    using assms length_merged_log [OF assms(2), of "entries r"] by (auto simp: node_inv_def)
  then show ?thesis
    using assms(1) by (auto simp: node_inv_def accepted_def config_in_force_def Let_def)
qed

text \<open>The three outcomes of \<open>on_append_entries\<close>.\<close>

lemma on_append_entries_cases:
  assumes "on_append_entries n from r = Some (n', effects)" and "node_inv n"
  obtains (stale) "ae_term r < current_term n" "n' = n" "effects = [reject_append_entries n from]"
  | (mismatch) m where "current_term n \<le> ae_term r" "m = observe_leader n (ae_term r)"
      "boundary m < prev_log_index r"
      "log_term_at m (prev_log_index r) \<noteq> Some (prev_log_term r)" "n' = m"
      "effects = persist_hard_state (current_term n < ae_term r) m @ [reject_append_entries m from]"
  | (accept) m where "current_term n \<le> ae_term r" "m = observe_leader n (ae_term r)" "node_inv m"
      "prev_log_index r \<le> boundary m + length (log m)"
      "prev_log_index r \<le> boundary m \<or>
        log_term_at m (prev_log_index r) = Some (prev_log_term r)"
      "n' = accepted m r" "fits64 (prev_log_index r + length (entries r))"
      "effects = persist_hard_state (current_term n < ae_term r) m @
        (case changed_from m (prev_log_index r) (entries r) of None \<Rightarrow> []
         | Some i \<Rightarrow> [PersistLog i (drop (i - boundary m - 1) (log n'))]) @
        [Send from (AppendEntriesResponse \<lparr>aer_term = current_term m, success = True,
           aer_match_index = prev_log_index r + length (entries r)\<rparr>)]"
proof (cases "ae_term r < current_term n")
  case True
  with assms(1) show thesis by (intro stale) (auto simp: on_append_entries_def)
next
  case False
  define m where "m = observe_leader n (ae_term r)"
  have inv: "node_inv m" using assms(2) by (simp add: m_def node_inv_observe_leader)
  let ?sat = "prev_log_index r \<le> boundary m \<or>
    log_term_at m (prev_log_index r) = Some (prev_log_term r)"
  show thesis
  proof (cases ?sat)
    case True
    with False assms(1) have acc: "accept_entries m from r
        (persist_hard_state (current_term n < ae_term r) m) = Some (n', effects)"
      by (auto simp: on_append_entries_def Let_def m_def [symmetric] split: if_splits)
    have prev: "prev_log_index r \<le> boundary m + length (log m)"
      using True by (auto dest: log_term_at_range)
    have cfg: "config_in_force m = (current_config m, current_config_index m)"
      using inv by (simp add: node_inv_def)
    show thesis
      using False inv prev True accept_entries_eq [OF acc prev cfg]
      by (intro accept [of m]) (simp_all add: m_def)
  next
    case unsat: False
    with False assms(1) show thesis
      by (intro mismatch [of m])
         (auto simp: on_append_entries_def Let_def m_def [symmetric])
  qed
qed

lemma node_inv_on_append_entries:
  assumes "on_append_entries n from r = Some (n', effects)" and "node_inv n"
  shows "node_inv n'"
  using assms(2)
  by (cases rule: on_append_entries_cases [OF assms])
     (auto intro: node_inv_observe_leader node_inv_accepted)

lemma on_install_snapshot_cases:
  assumes "on_install_snapshot n from r = Some (n', effects)"
  obtains (stale) "is_term r < current_term n" "n' = n"
      "effects = [Send from (InstallSnapshotResponse (install_snapshot_response n (boundary n)))]"
  | (covered) m where "current_term n \<le> is_term r" "m = observe_leader n (is_term r)"
      "log_term_at m (is_last_included_index r) = Some (is_last_included_term r)" "n' = m"
      "effects = persist_hard_state (current_term n < is_term r) m @
        [Send from (InstallSnapshotResponse
           (install_snapshot_response m (is_last_included_index r)))]"
  | (install) m where "current_term n \<le> is_term r" "m = observe_leader n (is_term r)"
      "log_term_at m (is_last_included_index r) \<noteq> Some (is_last_included_term r)"
      "n' = m\<lparr>log := [],
        snapshot := \<lparr>last_included_index = is_last_included_index r,
                     last_included_term = is_last_included_term r\<rparr>,
        snapshot_data := is_data r, snapshot_config := is_config r,
        commit_index := max (commit_index m) (is_last_included_index r),
        current_config := is_config r, current_config_index := is_last_included_index r\<rparr>"
      "fits64 (is_last_included_index r + 1)"
      "effects = persist_hard_state (current_term n < is_term r) m @
        [PersistSnapshot (is_last_included_index r) (is_last_included_term r)
           (is_data r) (is_config r),
         PersistLog (is_last_included_index r + 1) [],
         Send from (InstallSnapshotResponse
           (install_snapshot_response m (is_last_included_index r)))]"
proof (cases "is_term r < current_term n")
  case True
  with assms show thesis by (intro stale) (auto simp: on_install_snapshot_def)
next
  case False
  define m where "m = observe_leader n (is_term r)"
  show thesis
  proof (cases "log_term_at m (is_last_included_index r) = Some (is_last_included_term r)")
    case True
    with False assms show thesis
      by (intro covered [of m]) (auto simp: on_install_snapshot_def Let_def m_def [symmetric])
  next
    case new: False
    with False assms show thesis
      by (intro install [of m])
         (auto simp: on_install_snapshot_def Let_def m_def [symmetric] run_simps
           recompute_config_def install_snapshot_response_def)
  qed
qed

lemma node_inv_on_install_snapshot:
  assumes "on_install_snapshot n from r = Some (n', effects)" and "node_inv n"
  shows "node_inv n'"
  using assms(1)
proof (cases rule: on_install_snapshot_cases)
  case (install m)
  have "node_inv m" using assms(2) install(2) by (simp add: node_inv_observe_leader)
  with install(4,5) show ?thesis
    by (auto simp: node_inv_def config_in_force_def elim: fits64_mono)
qed (use assms(2) in \<open>auto intro: node_inv_observe_leader\<close>)

lemma continue_replication_frame:
  "continue_replication n from effects = Some (n', effects') \<Longrightarrow>
     n' = n \<and> (\<exists>es. effects' = effects @ es \<and> (\<forall>e \<in> set es. is_send e))"
  by (auto simp: continue_replication_def replicate_to_def run_simps split: if_splits)

lemma node_inv_seed:
  "node_inv n \<Longrightarrow> match_index n p = Some m \<Longrightarrow>
     node_inv (n\<lparr>match_index := (match_index n)(p \<mapsto> m'), next_index := (next_index n)(p \<mapsto> m' + 1)\<rparr>)"
  by (auto simp: node_inv_def config_in_force_def progress_ok_def)

lemma node_inv_next:
  "node_inv n \<Longrightarrow> next_index n p = Some i \<Longrightarrow> 0 < j \<Longrightarrow>
     node_inv (n\<lparr>next_index := (next_index n)(p \<mapsto> j)\<rparr>)"
  by (simp add: node_inv_def config_in_force_def progress_ok_update_next)

lemma node_inv_on_append_entries_response:
  assumes "on_append_entries_response n from r = Some (n', effects)" and "node_inv n"
  shows "node_inv n'"
  using assms node_inv_seed [OF assms(2)] node_inv_next [OF assms(2)]
  by (auto simp: on_append_entries_response_def run_simps split: if_splits
      dest!: continue_replication_frame node_inv_advance intro: node_inv_step_down)

lemma node_inv_on_install_snapshot_response:
  assumes "on_install_snapshot_response n from r = Some (n', effects)" and "node_inv n"
  shows "node_inv n'"
  using assms node_inv_seed [OF assms(2)]
  by (auto simp: on_install_snapshot_response_def run_simps split: if_splits
      dest!: continue_replication_frame node_inv_advance intro: node_inv_step_down)

lemma node_inv_step:
  "step n ev = Some (n', effects) \<Longrightarrow> node_inv n \<Longrightarrow> node_inv n'"
  by (cases "(n, ev)" rule: step.cases)
     (auto split: if_splits intro: node_inv_on_tick node_inv_on_append_entries
       node_inv_on_install_snapshot node_inv_on_request_vote node_inv_on_request_vote_response
       node_inv_on_append_entries_response node_inv_on_install_snapshot_response)

text \<open>Appending one entry, as \<open>propose\<close> and \<open>propose_config_change\<close> do.\<close>

lemma node_inv_push:
  assumes "recompute_config (n\<lparr>log := log n @ [e]\<rparr>) = Some n1" and "last_log_index n1 = Some i"
    and "node_inv n"
  shows "node_inv n1"
  using assms recompute_config_eq_Some [OF assms(1)]
  by (intro node_inv_recompute [OF assms(1)]) (auto simp: node_inv_def run_simps)

lemma node_inv_learners:
  "node_inv n \<Longrightarrow> finite ls \<Longrightarrow> node_inv (n\<lparr>learners := ls\<rparr>)"
  by (simp add: node_inv_def config_in_force_def)

lemma node_inv_propose: "propose n command = Some (n', res) \<Longrightarrow> node_inv n \<Longrightarrow> node_inv n'"
  by (auto simp: propose_def run_simps split: if_splits
      dest!: node_inv_advance node_inv_push)

lemma node_inv_propose_config_change:
  assumes "propose_config_change n vs = Some (n', res)" and "node_inv n"
  shows "node_inv n'"
proof -
  let ?n = "n\<lparr>learners := {i \<in> learners n. i \<notin> set vs}\<rparr>"
  have "node_inv ?n"
    using assms(2) by (intro node_inv_learners) (simp_all add: node_inv_def)
  note push = node_inv_push [of ?n, OF _ _ this]
  from assms show ?thesis
    by (auto simp: propose_config_change_def run_simps split: if_splits
        dest!: node_inv_advance intro: push)
qed

lemma node_inv_add_learner: "add_learner n i = Some (n', effects) \<Longrightarrow> node_inv n \<Longrightarrow> node_inv n'"
  by (auto simp: add_learner_def run_simps node_inv_def config_in_force_def progress_ok_seed
      split: if_splits)

lemma node_inv_remove_learner: "remove_learner n i = (n', effects) \<Longrightarrow> node_inv n \<Longrightarrow> node_inv n'"
  by (auto split: if_splits simp: remove_learner_def node_inv_def config_in_force_def Let_def)

text \<open>Compaction drops a committed prefix and keeps the configuration in force.\<close>

lemma replay_config_fst:
  "fst (replay_config (c, i) i xs) = fst (replay_config (c, j) j' xs)"
  by (induction xs rule: rev_induct) (auto split: log_payload.split)

definition compacted :: "node \<Rightarrow> u64 \<Rightarrow> bytes \<Rightarrow> node" where
  "compacted n i data =
     (let k = i - boundary n;
          c = fst (replay_config (snapshot_config n, boundary n) (boundary n) (take k (log n)));
          n1 = n\<lparr>snapshot_config := c, log := drop k (log n),
            snapshot := \<lparr>last_included_index = i, last_included_term = the (log_term_at n i)\<rparr>,
            snapshot_data := data\<rparr>
      in n1\<lparr>current_config := fst (config_in_force n1),
            current_config_index := snd (config_in_force n1)\<rparr>)"

lemma compact_cases:
  assumes "compact n i data = Some (n', res)"
  obtains (noop) "i \<le> boundary n" "n' = n" "res = Inr []"
  | (uncommitted) "boundary n < i" "commit_index n < i" "n' = n" "res = Inl IndexNotCommitted"
  | (drop) "boundary n < i" "i \<le> commit_index n" "i \<le> boundary n + length (log n)"
      "n' = compacted n i data" "fits64 (i + 1)"
      "res = Inr [PersistSnapshot i (the (log_term_at n i)) data (snapshot_config n'),
                  PersistLog (i + 1) (log n')]"
proof -
  consider "i \<le> boundary n" | "boundary n < i" "commit_index n < i"
    | "boundary n < i" "i \<le> commit_index n" by linarith
  then show thesis
  proof cases
    case 1
    with assms show thesis by (intro noop) (auto simp: compact_def)
  next
    case 2
    with assms show thesis by (intro uncommitted) (auto simp: compact_def)
  next
    case 3
    then have k: "Suc (i - Suc (boundary n)) = i - boundary n" by simp
    from assms 3 obtain t latest n2 where t: "log_term_at n i = Some t"
      and len: "i - boundary n - 1 < length (log n)"
      and latest: "latest_configuration_in (take (i - boundary n) (log n)) (boundary n) = Some latest"
      and n2: "recompute_config (n\<lparr>snapshot_config :=
            (case latest of Some (config, _) \<Rightarrow> config | None \<Rightarrow> snapshot_config n),
          log := List.drop (i - boundary n) (log n),
          snapshot := \<lparr>last_included_index = i, last_included_term = t\<rparr>,
          snapshot_data := data\<rparr>) = Some n'"
      and fits: "fits64 (i + 1)"
      and res: "res = Inr [PersistSnapshot i t data (snapshot_config n'),
        PersistLog (i + 1) (List.drop (i - boundary n') (log n'))]"
      by (auto simp: compact_def run_simps k split: if_splits)
    have "(case latest of Some (config, _) \<Rightarrow> config | None \<Rightarrow> snapshot_config n) =
        fst (replay_config (snapshot_config n, boundary n) (boundary n) (take (i - boundary n) (log n)))"
      using latest_configuration_in_replay [OF latest, of "snapshot_config n"]
      by (auto split: option.splits)
    with recompute_config_eq_Some [OF n2] t have "n' = compacted n i data"
      by (simp add: compacted_def Let_def)
    with 3 len fits res t show thesis by (intro drop) (auto simp: compacted_def Let_def)
  qed
qed

lemma replay_config_index:
  "x \<le> i \<Longrightarrow> y \<le> i \<Longrightarrow>
     replay_config (c, max x y) i xs =
       (fst (replay_config (c, x) i xs), max (snd (replay_config (c, x) i xs)) y)"
proof (induction xs rule: rev_induct)
  case (snoc e xs)
  then show ?case by (auto split: log_payload.split)
qed simp

lemma config_in_force_compacted:
  assumes "boundary n \<le> i" and "i \<le> boundary n + length (log n)"
  defines "k \<equiv> i - boundary n"
  shows "replay_config (fst (replay_config (c, boundary n) (boundary n) (take k (log n))), i) i
      (drop k (log n)) =
    (fst (replay_config (c, boundary n) (boundary n) (log n)),
     max i (snd (replay_config (c, boundary n) (boundary n) (log n))))"
proof -
  obtain d x where dx: "replay_config (c, boundary n) (boundary n) (take k (log n)) = (d, x)"
    by fastforce
  have len: "boundary n + length (take k (log n)) = i" using assms by auto
  have x: "x \<le> i"
    using replay_config_bounds [of "(c, boundary n)" "boundary n" "take k (log n)"] dx len by simp
  have "replay_config (c, boundary n) (boundary n) (log n) = replay_config (d, x) i (drop k (log n))"
    using replay_config_append [of "(c, boundary n)" "boundary n" "take k (log n)" "drop k (log n)"]
      dx len by simp
  with dx x replay_config_index [of x i i d "drop k (log n)"] show ?thesis
    by (simp add: max.commute max_absorb1)
qed

lemma compacted_eq:
  assumes "node_inv n" and "boundary n < i" and "i \<le> boundary n + length (log n)"
  shows "compacted n i data = n\<lparr>
     snapshot_config := fst (replay_config (snapshot_config n, boundary n) (boundary n)
       (take (i - boundary n) (log n))),
     log := drop (i - boundary n) (log n),
     snapshot := \<lparr>last_included_index = i, last_included_term = the (log_term_at n i)\<rparr>,
     snapshot_data := data,
     current_config_index := max i (current_config_index n)\<rparr>"
  using assms config_in_force_compacted [of n i "snapshot_config n"]
  by (simp add: compacted_def Let_def config_in_force_def node_inv_def)

lemma node_inv_compact:
  assumes "compact n i data = Some (n', res)" and "node_inv n"
  shows "node_inv n'"
  using assms(1)
proof (cases rule: compact_cases)
  case drop
  then have "node_inv (compacted n i data) = node_inv n"
    using assms(2) config_in_force_compacted [of n i "snapshot_config n"]
    by (auto simp: compacted_def Let_def config_in_force_def node_inv_def add.commute)
  with drop(4) assms(2) show ?thesis by simp
qed (use assms(2) in auto)

lemma compacted_entry_at:
  assumes "boundary n < i" and "i \<le> boundary n + length (log n)" and "i < j"
  shows "log_entry_at (compacted n i data) j = log_entry_at n j"
  using assms by (auto simp: log_entry_at_def compacted_def Let_def)

lemma compacted_term_at:
  assumes "boundary n < i" and "i \<le> boundary n + length (log n)" and "i \<le> j"
  shows "log_term_at (compacted n i data) j = log_term_at n j"
proof (cases "j = i")
  case True
  have "snapshot (compacted n i data) =
      \<lparr>last_included_index = i, last_included_term = the (log_term_at n i)\<rparr>"
    by (simp add: compacted_def Let_def)
  with True assms show ?thesis by (simp add: log_term_at_def) (auto simp: log_entry_at_def)
next
  case False
  with assms compacted_entry_at [of n i j data] show ?thesis
    by (simp add: log_term_at_def) (simp add: compacted_def Let_def)
qed

section \<open>Construction establishes the invariant\<close>

definition recovered ::
    "node_id \<Rightarrow> node_id list \<Rightarrow> u64 \<Rightarrow> u64 \<Rightarrow> hard_state \<Rightarrow> log_entry list \<Rightarrow>
     snapshot \<Rightarrow> node_id list \<Rightarrow> node" where
  "recovered i peers timeout heartbeat hs lg snap lrn =
     (let b = last_included_index (metadata snap); c = bootstrap_config snap peers in
      \<lparr>nid = i, role = Follower, current_term = hs_current_term hs,
       voted_for = hs_voted_for hs, election_elapsed = 0, election_timeout = timeout,
       votes_granted = {}, heartbeat_elapsed = 0, heartbeat_interval = heartbeat,
       leader_contact_elapsed = heartbeat, log = lg, commit_index = b,
       next_index = Map.empty, match_index = Map.empty, snapshot = metadata snap,
       snapshot_data = snap_data snap, snapshot_config = c,
       current_config = fst (replay_config (c, b) b lg),
       current_config_index = snd (replay_config (c, b) b lg), learners = set lrn\<rparr>)"

lemma recover_Inr:
  assumes "recover i peers timeout heartbeat hs lg snap lrn = Some (Inr n)"
  shows "n = recovered i peers timeout heartbeat hs lg snap lrn"
    and "peers \<noteq> []" "sorted_wrt (<) peers" "i \<in> set peers"
    and "0 < heartbeat" "heartbeat \<le> timeout"
proof -
  let ?b = "last_included_index (metadata snap)"
  show "peers \<noteq> []" "sorted_wrt (<) peers" "i \<in> set peers" "0 < heartbeat" "heartbeat \<le> timeout"
    using assms by (auto simp: recover_def any_window_sorted split: if_splits)
  from assms obtain found where f: "latest_configuration_in lg ?b = Some found"
    by (auto simp: recover_def bind_eq_Some_conv Let_def split: if_splits)
  from latest_configuration_in_replay [OF f, of "bootstrap_config snap peers"] assms f
  show "n = recovered i peers timeout heartbeat hs lg snap lrn"
    by (simp add: recover_def recovered_def case_prod_beta Let_def split: if_splits)
qed

lemma recover_total:
  assumes "fits64 (last_included_index (metadata snap) + length lg)"
    and "peers \<noteq> []" "sorted_wrt (<) peers" "i \<in> set peers" "0 < heartbeat" "heartbeat \<le> timeout"
  shows "recover i peers timeout heartbeat hs lg snap lrn =
    Some (Inr (recovered i peers timeout heartbeat hs lg snap lrn))"
proof -
  from latest_configuration_in_total [OF assms(1)] obtain found where
    f: "latest_configuration_in lg (last_included_index (metadata snap)) = Some found" by blast
  from latest_configuration_in_replay [OF this, of "bootstrap_config snap peers"] f assms(2-)
  show ?thesis
    by (simp add: recover_def recovered_def case_prod_beta Let_def any_window_sorted)
qed

lemma node_inv_recovered:
  "fits64 (last_included_index (metadata snap) + length lg) \<Longrightarrow>
     node_inv (recovered i peers timeout heartbeat hs lg snap lrn)"
  by (simp add: node_inv_def recovered_def config_in_force_def Let_def)

lemma node_inv_new_learner: "new_learner i timeout heartbeat = Inr n \<Longrightarrow> node_inv n"
  by (auto simp: new_learner_def node_inv_def config_in_force_def Let_def default_metadata_def
      split: if_splits)

section \<open>The operations of a node and its reachable states\<close>

text \<open>Every public operation that changes a node, with the effects its owner receives.\<close>

datatype operation =
    Op_Event event
  | Op_Propose bytes
  | Op_Config_Change "node_id list"
  | Op_Add_Learner node_id
  | Op_Remove_Learner node_id
  | Op_Compact u64 bytes

definition effects_of :: "(u64 \<times> effect list) option \<Rightarrow> effect list" where
  "effects_of res = (case res of None \<Rightarrow> [] | Some (_, effects) \<Rightarrow> effects)"

fun run_op :: "node \<Rightarrow> operation \<Rightarrow> (node \<times> effect list) option" where
  "run_op n (Op_Event ev) = step n ev"
| "run_op n (Op_Propose c) = do { (n', res) \<leftarrow> propose n c; Some (n', effects_of res) }"
| "run_op n (Op_Config_Change vs) =
     do { (n', res) \<leftarrow> propose_config_change n vs; Some (n', effects_of res) }"
| "run_op n (Op_Add_Learner i) = add_learner n i"
| "run_op n (Op_Remove_Learner i) = Some (remove_learner n i)"
| "run_op n (Op_Compact i data) =
     do { (n', res) \<leftarrow> compact n i data; Some (n', case res of Inl _ \<Rightarrow> [] | Inr effects \<Rightarrow> effects) }"

lemma node_inv_run_op: "run_op n op = Some (n', effects) \<Longrightarrow> node_inv n \<Longrightarrow> node_inv n'"
  by (cases op) (auto simp: run_simps dest: node_inv_step node_inv_propose
      node_inv_propose_config_change node_inv_add_learner node_inv_remove_learner node_inv_compact)

inductive node_reachable :: "node \<Rightarrow> bool" where
  recovers: "recover i peers timeout heartbeat hs lg snap lrn = Some (Inr n) \<Longrightarrow>
     fits64 (last_included_index (metadata snap) + length lg) \<Longrightarrow> node_reachable n"
| joins: "new_learner i timeout heartbeat = Inr n \<Longrightarrow> node_reachable n"
| operates: "node_reachable n \<Longrightarrow> run_op n op = Some (n', effects) \<Longrightarrow> node_reachable n'"

lemma node_reachable_inv: "node_reachable n \<Longrightarrow> node_inv n"
  by (induction rule: node_reachable.induct)
     (auto dest!: recover_Inr(1) intro: node_inv_recovered node_inv_new_learner node_inv_run_op)

end
