(* ===== verification/Raft_Durable.thy ===== *)
theory Raft_Durable
  imports Raft_Invariant
begin

text \<open>
  What survives a crash. \<open>durable_state\<close> is \<^verbatim>\<open>DurableState\<close> of
  \<^verbatim>\<open>crates/kurogane-sim/src/lib.rs\<close>, the image a restart reads; \<open>persisted\<close> relates it to a
  live node. Every operation emits exactly the writes that keep the two in step
  (\<open>persists_run_op\<close>), no batch sends before it has written (\<open>writes_first_run_op\<close>), and a
  restart from the image gives the durable part back (\<open>recover_from_restores\<close>).
\<close>

section \<open>The durable image\<close>

record durable_state =
  ds_hard_state :: hard_state
  ds_log :: "log_entry list"
  ds_snapshot :: snapshot_metadata
  ds_snapshot_data :: bytes
  ds_snapshot_config :: cluster_config
  ds_learners :: "node_id list"

definition default_durable_state :: durable_state where
  "default_durable_state = \<lparr>ds_hard_state = default_hard_state, ds_log = [],
     ds_snapshot = default_metadata, ds_snapshot_data = [],
     ds_snapshot_config = default_config, ds_learners = []\<rparr>"

fun durable_apply :: "durable_state \<Rightarrow> effect \<Rightarrow> durable_state option" where
  "durable_apply d (PersistHardState t v) =
     Some (d\<lparr>ds_hard_state := \<lparr>hs_current_term = t, hs_voted_for = v\<rparr>\<rparr>)"
| "durable_apply d (PersistLog from_index es) = do {
     a \<leftarrow> sub64 from_index (last_included_index (ds_snapshot d));
     k \<leftarrow> sub64 a 1;
     Some (d\<lparr>ds_log := take k (ds_log d) @ es\<rparr>)
   }"
| "durable_apply d (PersistSnapshot i t data config) =
     Some (d\<lparr>ds_snapshot := \<lparr>last_included_index = i, last_included_term = t\<rparr>,
             ds_snapshot_data := data, ds_snapshot_config := config\<rparr>)"
| "durable_apply d (Send to m) = Some d"
| "durable_apply d (PersistLearners ls) = Some (d\<lparr>ds_learners := ls\<rparr>)"

fun durable_apply_all :: "durable_state \<Rightarrow> effect list \<Rightarrow> durable_state option" where
  "durable_apply_all d [] = Some d"
| "durable_apply_all d (e # es) = do { d' \<leftarrow> durable_apply d e; durable_apply_all d' es }"

lemma durable_apply_all_append:
  "durable_apply_all d (xs @ ys) = do { d' \<leftarrow> durable_apply_all d xs; durable_apply_all d' ys }"
  by (induction xs arbitrary: d) (auto simp: Option.bind_assoc)

lemma durable_apply_all_sends:
  "(\<forall>e \<in> set es. is_send e) \<Longrightarrow> durable_apply_all d es = Some d"
proof (induction es)
  case (Cons e es)
  then show ?case by (cases e) auto
qed simp

text \<open>The durable image of a node: what a restart would see if every effect so far was written.
  The configuration of the boundary is only recorded with a snapshot.\<close>

definition persisted :: "durable_state \<Rightarrow> node \<Rightarrow> bool" where
  "persisted d n \<longleftrightarrow>
     ds_hard_state d = \<lparr>hs_current_term = current_term n, hs_voted_for = voted_for n\<rparr> \<and>
     ds_log d = log n \<and> ds_snapshot d = snapshot n \<and> ds_snapshot_data d = snapshot_data n \<and>
     (0 < boundary n \<longrightarrow> ds_snapshot_config d = snapshot_config n) \<and>
     set (ds_learners d) = learners n"

definition persists :: "node \<Rightarrow> effect list \<Rightarrow> node \<Rightarrow> bool" where
  "persists n effects n' \<longleftrightarrow>
     (\<forall>d. persisted d n \<longrightarrow> (\<exists>d'. durable_apply_all d effects = Some d' \<and> persisted d' n'))"

lemma persists_trans [trans]: "persists a xs b \<Longrightarrow> persists b ys c \<Longrightarrow> persists a (xs @ ys) c"
  by (fastforce simp: persists_def durable_apply_all_append)

lemma persistsD: "persists n effects n' \<Longrightarrow> persisted d n \<Longrightarrow>
    \<exists>d'. durable_apply_all d effects = Some d' \<and> persisted d' n'"
  by (simp add: persists_def)

text \<open>The durable part of a node: a change outside it needs no effect.\<close>

definition durable_part :: "node \<Rightarrow> u64 \<times> node_id option \<times> log_entry list \<times> snapshot_metadata
    \<times> bytes \<times> cluster_config \<times> node_id set" where
  "durable_part n = (current_term n, voted_for n, log n, snapshot n, snapshot_data n,
     snapshot_config n, learners n)"

lemma persisted_cong: "durable_part n = durable_part n' \<Longrightarrow> persisted d n = persisted d n'"
  by (simp add: durable_part_def persisted_def)

lemma persists_sends:
  "durable_part n = durable_part n' \<Longrightarrow> (\<forall>e \<in> set es. is_send e) \<Longrightarrow> persists n es n'"
  by (auto simp: persists_def durable_apply_all_sends dest: persisted_cong)

lemma persists_hard_state:
  "log n' = log n \<Longrightarrow> snapshot n' = snapshot n \<Longrightarrow> snapshot_data n' = snapshot_data n \<Longrightarrow>
   snapshot_config n' = snapshot_config n \<Longrightarrow> learners n' = learners n \<Longrightarrow>
     persists n [PersistHardState (current_term n') (voted_for n')] n'"
  by (auto simp: persists_def persisted_def)

lemma persists_hard_if:
  "log n' = log n \<Longrightarrow> snapshot n' = snapshot n \<Longrightarrow> snapshot_data n' = snapshot_data n \<Longrightarrow>
   snapshot_config n' = snapshot_config n \<Longrightarrow> learners n' = learners n \<Longrightarrow>
   (\<not> b \<Longrightarrow> current_term n' = current_term n \<and> voted_for n' = voted_for n) \<Longrightarrow>
     persists n (if b then [PersistHardState (current_term n') (voted_for n')] else []) n'"
  by (cases b) (auto simp: persists_def persisted_def)

lemma persists_push:
  "durable_part n' = durable_part (n\<lparr>log := log n @ [e]\<rparr>) \<Longrightarrow>
     persists n [PersistLog (boundary n + length (log n) + 1) [e]] n'"
  by (auto simp: persists_def persisted_def durable_part_def)

lemma become_leader_sends: "become_leader n = Some (n', es) \<Longrightarrow> \<forall>e \<in> set es. is_send e"
  by (auto simp: become_leader_def run_simps dest: broadcast_sends)

lemma persists_become_leader:
  "become_leader n = Some (n', effects) \<Longrightarrow> persists n effects n'"
  by (auto simp: become_leader_def run_simps durable_part_def
      intro!: persists_sends dest: broadcast_sends)

lemma persists_refl: "persists n [] n"
  by (simp add: persists_def)

lemma persists_Cons: "persists n [e] m \<Longrightarrow> persists m es n' \<Longrightarrow> persists n (e # es) n'"
  using persists_trans [of n "[e]" m es n'] by simp

lemma persists_start_election:
  assumes "start_election n t = Some (n', effects)"
  shows "persists n effects n'"
proof -
  have hard: "persists n [PersistHardState (current_term m) (voted_for m)] m"
    if "m = become_candidate n u t" for m u
    using that by (intro persists_hard_state) (simp_all add: become_candidate_def)
  from assms show ?thesis
  proof (cases rule: start_election_cases)
    case (elected m es)
    show ?thesis
      unfolding elected(5)
      using hard [OF elected(2)] persists_become_leader [OF elected(4)] by (rule persists_Cons)
  next
    case (campaign m es)
    then have "\<forall>e \<in> set es. is_send e" by fastforce
    then have "persists m es n'" using campaign(4) by (intro persists_sends) simp_all
    with hard [OF campaign(2)] show ?thesis unfolding campaign(6) by (rule persists_Cons)
  qed (simp add: persists_refl)
qed

lemma persists_on_tick:
  assumes "on_tick n t = Some (n', effects)"
  shows "persists n effects n'"
proof -
  have clock: "persists n [] m" if "durable_part m = durable_part n" for m
    using that by (intro persists_sends) simp_all
  from assms show ?thesis
    by (auto simp: on_tick_def on_leader_tick_def run_simps durable_part_def split: if_splits
        intro!: clock persists_sends dest: broadcast_sends
        dest!: persists_start_election elim!: persists_trans [of n "[]", simplified, rotated])
qed

lemma persists_on_request_vote:
  assumes "on_request_vote n from r = Some (n', effects)"
  shows "persists n effects n'"
  using assms
proof (cases rule: on_request_vote_cases)
  case refused
  then show ?thesis by (auto simp: reject_vote_def intro: persists_sends)
next
  case (answered m grant)
  have "persists n' [Send from x] n'" for x by (rule persists_sends) simp_all
  moreover have "persists n (if current_term n < rv_term r \<or> grant
      then [PersistHardState (current_term n') (voted_for n')] else []) n'"
    using answered(4,6) by (intro persists_hard_if) (auto simp: step_down_def)
  ultimately show ?thesis unfolding answered(7) by (rule persists_trans [rotated])
qed

lemma persists_step_down:
  "persists n [PersistHardState t None] (step_down n t)"
  using persists_hard_state [of "step_down n t" n] by (simp add: step_down_def)

lemma persists_on_request_vote_response:
  assumes "on_request_vote_response n from r = Some (n', effects)"
  shows "persists n effects n'"
proof -
  have "persists n es n'" if "become_leader (n\<lparr>votes_granted := vs\<rparr>) = Some (n', es)" for vs es
    using persists_trans [of n "[]" "n\<lparr>votes_granted := vs\<rparr>" es n'] persists_become_leader [OF that]
    by (simp add: persists_sends durable_part_def)
  with assms persists_step_down [of n "rvr_term r"] show ?thesis
    by (auto simp: on_request_vote_response_def run_simps step_down_def durable_part_def
        persists_refl split: if_splits intro!: persists_sends)
qed

lemma persists_observe_leader:
  "persists n (persist_hard_state (current_term n < t) (observe_leader n t)) (observe_leader n t)"
  unfolding persist_hard_state_def
  by (rule persists_hard_if) (auto simp: observe_leader_def Let_def step_down_def)

lemma persists_on_append_entries:
  assumes "on_append_entries n from r = Some (n', effects)" and "node_inv n"
  shows "persists n effects n'"
  using assms
proof (cases rule: on_append_entries_cases)
  case stale
  then show ?thesis by (auto simp: reject_append_entries_def intro: persists_sends)
next
  case (mismatch m)
  have "persists m [reject_append_entries m from] m"
    by (rule persists_sends) (simp_all add: reject_append_entries_def)
  with mismatch show ?thesis by (auto intro: persists_trans persists_observe_leader)
next
  case (accept m)
  let ?ch = "changed_from m (prev_log_index r) (entries r)"
  let ?persist = "case ?ch of None \<Rightarrow> []
      | Some i \<Rightarrow> [PersistLog i (drop (i - boundary m - 1) (log n'))]"
  have acc: "current_term n' = current_term m" "voted_for n' = voted_for m"
    "log n' = merged_log m (prev_log_index r) (entries r)" "snapshot n' = snapshot m"
    "snapshot_data n' = snapshot_data m" "snapshot_config n' = snapshot_config m"
    "learners n' = learners m"
    by (simp_all add: accept(6) accepted_def Let_def)
  have "persists m ?persist n'"
  proof (cases ?ch)
    case None
    with changed_from_None [OF this] acc show ?thesis
      by (auto intro!: persists_sends simp: durable_part_def)
  next
    case (Some i)
    note ch = changed_from_Some [OF Some accept(4)]
    have "take (i - boundary m - 1) (log m) @ drop (i - boundary m - 1) (log n') = log n'"
      unfolding acc(3) ch(4) [symmetric] by (rule append_take_drop_id)
    with Some ch(1) acc show ?thesis
      by (auto simp: persists_def persisted_def)
  qed
  moreover have "persists n' [Send from x] n'" for x by (rule persists_sends) simp_all
  ultimately show ?thesis
    using persists_observe_leader [of n "ae_term r"] accept(2,8)
    by (auto intro: persists_trans)
qed


lemma persists_on_install_snapshot:
  assumes "on_install_snapshot n from r = Some (n', effects)"
  shows "persists n effects n'"
  using assms
proof (cases rule: on_install_snapshot_cases)
  case stale
  then show ?thesis by (auto intro: persists_sends)
next
  case (covered m)
  have "persists m [Send from x] m" for x by (rule persists_sends) simp_all
  with covered show ?thesis by (auto intro: persists_trans persists_observe_leader)
next
  case (install m)
  have "persists m [PersistSnapshot (is_last_included_index r) (is_last_included_term r)
           (is_data r) (is_config r), PersistLog (is_last_included_index r + 1) [], Send from x] n'" for x
    by (auto simp: persists_def persisted_def install(4))
  with install(2,6) show ?thesis by (auto intro: persists_trans persists_observe_leader)
qed

lemma persists_advance_point: "advance_point n = Some n' \<Longrightarrow> persists n [] n'"
  by (auto dest!: advance_point_frame intro!: persists_sends simp: durable_part_def)

lemma persists_retire: "persists n [] (retire_if_excluded n)"
  by (auto intro!: persists_sends
      simp: durable_part_def retire_if_excluded_def retire_from_leadership_def)

lemma persists_push_follow_up: "push_follow_up n = Some (n', e) \<Longrightarrow> persists n [e] n'"
  by (auto dest!: push_follow_up_frame intro!: persists_push simp: durable_part_def)

lemma persists_advance:
  assumes "advance_commit_index n = Some (n', effects)"
  shows "persists n effects n'"
  using assms
proof (cases rule: advance_commit_index_cases)
  case (plain n1)
  then show ?thesis
    using persists_trans [OF persists_advance_point persists_retire] by fastforce
next
  case (follow_up n1 n2 persist n3)
  have "persists n [] n1" by (rule persists_advance_point) (fact follow_up(1))
  also have "persists n1 [persist] n2" by (rule persists_push_follow_up) (fact follow_up(3))
  also have "persists n2 [] n3" by (rule persists_advance_point) (fact follow_up(4))
  also have "persists n3 [] n'" unfolding follow_up(5) by (rule persists_retire)
  finally have "persists n [persist] n'" by simp
  with follow_up(6) show ?thesis by simp
qed

lemma persists_continue:
  assumes "continue_replication n from effects = Some (n', effects')" and "persists m effects n"
  shows "persists m effects' n'"
  using continue_replication_frame [OF assms(1)] assms(2)
  by (auto intro: persists_trans persists_sends)

lemma persists_progress:
  "persists (n\<lparr>match_index := ms, next_index := ns\<rparr>) effects n' \<Longrightarrow> persists n effects n'"
  using persists_trans [of n "[]" "n\<lparr>match_index := ms, next_index := ns\<rparr>" effects n']
  by (simp add: persists_sends durable_part_def)

lemma persists_on_append_entries_response:
  assumes "on_append_entries_response n from r = Some (n', effects)"
  shows "persists n effects n'"
proof -
  have "persists n [] (n\<lparr>next_index := ns\<rparr>)" for ns
    by (simp add: persists_sends durable_part_def)
  with assms persists_step_down [of n "aer_term r"] show ?thesis
    by (auto simp: on_append_entries_response_def run_simps step_down_def persists_refl
        split: if_splits intro: persists_continue persists_progress dest!: persists_advance)
qed

lemma persists_on_install_snapshot_response:
  assumes "on_install_snapshot_response n from r = Some (n', effects)"
  shows "persists n effects n'"
  using assms persists_step_down [of n "isr_term r"]
  by (auto simp: on_install_snapshot_response_def run_simps step_down_def persists_refl
      split: if_splits intro: persists_continue persists_progress dest!: persists_advance)

lemma persists_step:
  "step n ev = Some (n', effects) \<Longrightarrow> node_inv n \<Longrightarrow> persists n effects n'"
  by (cases "(n, ev)" rule: step.cases)
     (auto split: if_splits intro: persists_refl persists_on_tick persists_on_append_entries
       persists_on_install_snapshot persists_on_request_vote persists_on_request_vote_response
       persists_on_append_entries_response persists_on_install_snapshot_response)

lemma persists_propose:
  assumes "propose n c = Some (n', res)"
  shows "persists n (effects_of res) n'"
proof (cases "role n = Leader")
  case True
  with assms obtain n1 i es where push: "recompute_config (n\<lparr>log := log n @
        [\<lparr>entry_term = current_term n, payload = Command c\<rparr>]\<rparr>) = Some n1"
    and i: "last_log_index n1 = Some i" and adv: "advance_commit_index n1 = Some (n', es)"
    and res: "res = Some (i, PersistLog i [\<lparr>entry_term = current_term n, payload = Command c\<rparr>] # es)"
    by (auto simp: propose_def bind_eq_Some_conv Let_def)
  have "persists n [PersistLog i [\<lparr>entry_term = current_term n, payload = Command c\<rparr>]] n1"
    using recompute_config_eq_Some [OF push] i
      persists_push [of n1 n "\<lparr>entry_term = current_term n, payload = Command c\<rparr>"]
    by (auto simp: run_simps durable_part_def)
  with persists_advance [OF adv] res show ?thesis
    by (auto simp: effects_of_def intro: persists_Cons)
qed (use assms in \<open>auto simp: propose_def effects_of_def persists_refl\<close>)


lemma persists_learners:
  "finite ls \<Longrightarrow> persists n [PersistLearners (sorted_list_of_set ls)]
     (n\<lparr>learners := ls, next_index := ns, match_index := ms\<rparr>)"
  by (auto simp: persists_def persisted_def)

lemma persists_propose_config_change:
  assumes "propose_config_change n vs = Some (n', res)" and "node_inv n"
  shows "persists n (effects_of res) n'"
proof (cases "role n = Leader \<and> vs \<noteq> []")
  case True
  let ?entry = "\<lparr>entry_term = current_term n, payload = Configuration
    \<lparr>voters = vs, old_voters = Some (voters (current_config n))\<rparr>\<rparr>"
  define remaining where "remaining = {i \<in> learners n. i \<notin> set vs}"
  let ?m = "n\<lparr>learners := remaining\<rparr>"
  let ?promoted = "if card remaining \<noteq> card (learners n)
    then [PersistLearners (sorted_list_of_set remaining)] else []"
  from True assms(1) obtain n1 i es where
    push: "recompute_config (?m\<lparr>log := log n @ [?entry]\<rparr>) = Some n1"
    and i: "last_log_index n1 = Some i" and adv: "advance_commit_index n1 = Some (n', es)"
    and res: "res = Some (i, ?promoted @ PersistLog i [?entry] # es)"
    by (auto simp: propose_config_change_def bind_eq_Some_conv Let_def remaining_def)
  have fin: "finite (learners n)" using assms(2) by (simp add: node_inv_def)
  have sub: "remaining \<subseteq> learners n" by (auto simp: remaining_def)
  have "persists n ?promoted ?m"
  proof (cases "card remaining = card (learners n)")
    case True
    then have "remaining = learners n" by (intro card_subset_eq fin sub)
    then show ?thesis by (simp add: persists_refl)
  next
    case False
    then show ?thesis
      using persists_learners [of remaining n "match_index n" "next_index n"] fin sub
      by (auto dest: finite_subset)
  qed
  also have "persists ?m [PersistLog i [?entry]] n1"
    using recompute_config_eq_Some [OF push] i persists_push [of n1 ?m ?entry]
    by (auto simp: run_simps durable_part_def)
  also have "persists n1 es n'" by (rule persists_advance) (fact adv)
  finally show ?thesis using res by (simp add: effects_of_def)
qed (use assms in \<open>auto simp: propose_config_change_def effects_of_def persists_refl\<close>)

lemma persists_add_learner:
  assumes "add_learner n i = Some (n', effects)" and "node_inv n"
  shows "persists n effects n'"
proof -
  have "finite (insert i (learners n))" using assms(2) by (simp add: node_inv_def)
  note pl = persists_learners [OF this, of n]
  from assms(1) show ?thesis
    by (auto simp: add_learner_def run_simps persists_refl intro!: pl split: if_splits)
qed

lemma persists_remove_learner:
  assumes "remove_learner n i = (n', effects)" and "node_inv n"
  shows "persists n effects n'"
proof -
  have "finite (learners n - {i})" using assms(2) by (simp add: node_inv_def)
  note pl = persists_learners [OF this, of n "match_index n" "next_index n"]
  from assms(1) pl show ?thesis
    by (auto simp: remove_learner_def Let_def persists_refl split: if_splits)
qed

lemma persists_compact:
  assumes "compact n i data = Some (n', res)"
  shows "persists n (case res of Inl _ \<Rightarrow> [] | Inr effects \<Rightarrow> effects) n'"
  using assms
proof (cases rule: compact_cases)
  case drop
  have "current_term n' = current_term n" "voted_for n' = voted_for n" "learners n' = learners n"
    "snapshot n' = \<lparr>last_included_index = i, last_included_term = the (log_term_at n i)\<rparr>"
    "snapshot_data n' = data"
    unfolding drop(4) by (simp_all add: compacted_def Let_def)
  then show ?thesis unfolding drop(6) persists_def persisted_def by simp
qed (simp_all add: persists_refl)

text \<open>The durable image follows the node through every operation.\<close>

lemma persists_run_op:
  assumes "run_op n op = Some (n', effects)" and "node_inv n"
  shows "persists n effects n'"
  using assms
  by (cases op) (auto simp: run_simps dest: persists_step persists_propose
      persists_propose_config_change persists_add_learner persists_remove_learner persists_compact)

section \<open>Writes come before sends\<close>

text \<open>The owner carries out effects in order, so a batch is safe against a crash in the middle
  when nothing is sent before everything is written.\<close>

definition writes_first :: "effect list \<Rightarrow> bool" where
  "writes_first effects \<longleftrightarrow> sorted_wrt (\<lambda>a b. is_send a \<longrightarrow> is_send b) effects"

lemma writes_first_append:
  "writes_first (xs @ ys) \<longleftrightarrow> writes_first xs \<and> writes_first ys \<and>
     ((\<forall>e \<in> set xs. \<not> is_send e) \<or> (\<forall>e \<in> set ys. is_send e))"
  by (auto simp: writes_first_def sorted_wrt_append)

lemma writes_first_Nil [simp]: "writes_first []"
  by (simp add: writes_first_def)

lemma writes_first_Cons [simp]:
  "writes_first (e # es) \<longleftrightarrow> writes_first es \<and> (is_send e \<longrightarrow> (\<forall>e \<in> set es. is_send e))"
  by (auto simp: writes_first_def)

lemma writes_first_sends: "\<forall>e \<in> set es. is_send e \<Longrightarrow> writes_first es"
  by (induction es) auto

lemma writes_first_hard [simp]:
  "writes_first (persist_hard_state b n @ es) \<longleftrightarrow> writes_first es"
  by (auto simp: persist_hard_state_def)

lemma advance_writes:
  "advance_commit_index n = Some (n', es) \<Longrightarrow> \<forall>e \<in> set es. \<not> is_send e"
  by (erule advance_commit_index_cases) (auto dest!: push_follow_up_frame)

lemma advance_writes_first: "advance_commit_index n = Some (n', es) \<Longrightarrow> writes_first es"
  by (erule advance_commit_index_cases) (auto dest!: push_follow_up_frame)

lemma writes_first_continue:
  "continue_replication n from es = Some (n', es') \<Longrightarrow> writes_first es \<Longrightarrow> writes_first es'"
  by (auto dest!: continue_replication_frame simp: writes_first_append writes_first_sends)

lemma writes_first_start_election:
  assumes "start_election n t = Some (n', es)"
  shows "writes_first es"
  using assms
proof (cases rule: start_election_cases)
  case (elected m es')
  then show ?thesis using become_leader_sends [of m n' es'] by (simp add: writes_first_sends)
next
  case (campaign m es')
  then have "\<forall>e \<in> set es'. is_send e" by fastforce
  with campaign(6) show ?thesis by (simp add: writes_first_sends)
qed simp

lemma writes_first_step:
  assumes "step n ev = Some (n', es)" and "node_inv n"
  shows "writes_first es"
proof (cases "(n, ev)" rule: step.cases)
  case (1 n t)
  with assms show ?thesis
    by (auto simp: on_tick_def on_leader_tick_def run_simps split: if_splits
        intro: writes_first_start_election writes_first_sends dest!: broadcast_sends)
next
  case (2 n sender r)
  with assms show ?thesis
    by (auto split: if_splits option.splits elim!: on_append_entries_cases
        simp: reject_append_entries_def)
next
  case (3 n sender r)
  with assms show ?thesis
    by (auto split: if_splits elim!: on_install_snapshot_cases)
next
  case (4 n sender r)
  with assms show ?thesis
    by (auto split: if_splits elim!: on_request_vote_cases simp: reject_vote_def)
next
  case (5 n sender r)
  with assms show ?thesis
    by (auto simp: on_request_vote_response_def Let_def split: if_splits
        intro: writes_first_sends dest!: become_leader_sends)
next
  case (6 n sender r)
  with assms show ?thesis
    by (auto simp: on_append_entries_response_def run_simps split: if_splits
        intro: writes_first_continue advance_writes_first)
next
  case (7 n sender r)
  with assms show ?thesis
    by (auto simp: on_install_snapshot_response_def run_simps split: if_splits
        intro: writes_first_continue advance_writes_first)
qed

lemma writes_first_run_op:
  assumes "run_op n op = Some (n', es)" and "node_inv n"
  shows "writes_first es"
proof (cases op)
  case (Op_Compact i data)
  with assms show ?thesis by (auto simp: run_simps elim!: compact_cases)
next
  case (Op_Event ev)
  with assms show ?thesis by (simp add: writes_first_step)
qed (use assms in \<open>auto simp: run_simps propose_def propose_config_change_def add_learner_def
      remove_learner_def effects_of_def split: if_splits dest: advance_writes_first\<close>)

section \<open>Peer requests end in exactly one reply\<close>

fun is_request :: "message \<Rightarrow> bool" where
  "is_request (RequestVote _) = True"
| "is_request (AppendEntries _) = True"
| "is_request (InstallSnapshot _) = True"
| "is_request _ = False"

fun replies_to :: "message \<Rightarrow> message \<Rightarrow> bool" where
  "replies_to (RequestVote _) (RequestVoteResponse _) = True"
| "replies_to (AppendEntries _) (AppendEntriesResponse _) = True"
| "replies_to (InstallSnapshot _) (InstallSnapshotResponse _) = True"
| "replies_to _ _ = False"

fun is_write :: "effect \<Rightarrow> bool" where
  "is_write (PersistHardState _ _) = True"
| "is_write (PersistLog _ _) = True"
| "is_write (PersistSnapshot _ _ _ _) = True"
| "is_write _ = False"

definition request_batch :: "node_id \<Rightarrow> message \<Rightarrow> effect list \<Rightarrow> bool" where
  "request_batch sender m es \<longleftrightarrow>
     (\<exists>ws reply. es = ws @ [Send sender reply] \<and> list_all is_write ws \<and> replies_to m reply)"

lemma request_batchI:
  "list_all is_write ws \<Longrightarrow> replies_to m reply \<Longrightarrow> request_batch sender m (ws @ [Send sender reply])"
  by (auto simp: request_batch_def)

lemma hard_is_write [simp]: "list_all is_write (persist_hard_state b n)"
  by (simp add: persist_hard_state_def)

lemma request_batch_step:
  assumes "step n (Step sender m) = Some (n', es)" and "is_request m" and "node_inv n"
  shows "es = [] \<and> n' = n \<or> request_batch sender m es"
proof (cases m)
  case (RequestVote r)
  show ?thesis
  proof (cases "is_member n sender \<and> candidate_id r = sender")
    case True
    with assms(1) RequestVote have "on_request_vote n sender r = Some (n', es)" by simp
    then show ?thesis
    proof (cases rule: on_request_vote_cases)
      case refused
      then show ?thesis
        using request_batchI [of "[]" m _ sender] by (simp add: RequestVote reject_vote_def)
    next
      case (answered m' grant)
      have "list_all is_write (if current_term n < rv_term r \<or> grant
          then [PersistHardState (current_term n') (voted_for n')] else [])" by simp
      from request_batchI [OF this, of m _ sender] show ?thesis
        unfolding answered(7) RequestVote by simp
    qed
  qed (use assms(1) RequestVote in \<open>auto split: if_splits\<close>)
next
  case (AppendEntries r)
  show ?thesis
  proof (cases "ae_leader_id r = sender")
    case True
    with assms(1) AppendEntries have "on_append_entries n sender r = Some (n', es)" by simp
    from this assms(3) show ?thesis
    proof (cases rule: on_append_entries_cases)
      case stale
      then show ?thesis
        using request_batchI [of "[]" m _ sender] by (simp add: AppendEntries reject_append_entries_def)
    next
      case (mismatch m')
      then show ?thesis
        unfolding mismatch(6) reject_append_entries_def AppendEntries by (simp add: request_batchI)
    next
      case (accept m')
      have "list_all is_write (persist_hard_state (current_term n < ae_term r) m' @
        (case changed_from m' (prev_log_index r) (entries r) of None \<Rightarrow> []
         | Some i \<Rightarrow> [PersistLog i (drop (i - boundary m' - 1) (log n'))]))"
        by (simp split: option.split)
      from request_batchI [OF this, of m _ sender] show ?thesis
        unfolding accept(8) AppendEntries by simp
    qed
  qed (use assms(1) AppendEntries in auto)
next
  case (InstallSnapshot r)
  show ?thesis
  proof (cases "is_leader_id r = sender")
    case True
    with assms(1) InstallSnapshot have "on_install_snapshot n sender r = Some (n', es)" by simp
    then show ?thesis
    proof (cases rule: on_install_snapshot_cases)
      case stale
      then show ?thesis using request_batchI [of "[]" m _ sender] by (simp add: InstallSnapshot)
    next
      case (covered m')
      then show ?thesis unfolding covered(5) InstallSnapshot by (simp add: request_batchI)
    next
      case (install m')
      have "list_all is_write (persist_hard_state (current_term n < is_term r) m' @
          [PersistSnapshot (is_last_included_index r) (is_last_included_term r) (is_data r) (is_config r),
           PersistLog (is_last_included_index r + 1) []])"
        by simp
      from request_batchI [OF this, of m _ sender] show ?thesis
        unfolding install(6) InstallSnapshot by simp
    qed
  qed (use assms(1) InstallSnapshot in auto)
qed (use assms(2) in auto)

section \<open>Restart\<close>

definition durable_snapshot :: "durable_state \<Rightarrow> snapshot" where
  "durable_snapshot d = \<lparr>metadata = ds_snapshot d, snap_data = ds_snapshot_data d,
     snap_config = ds_snapshot_config d\<rparr>"

definition recover_from ::
    "durable_state \<Rightarrow> node_id \<Rightarrow> node_id list \<Rightarrow> u64 \<Rightarrow> u64 \<Rightarrow> (config_error + node) option" where
  "recover_from d i peers timeout heartbeat =
     recover i peers timeout heartbeat (ds_hard_state d) (ds_log d) (durable_snapshot d)
       (ds_learners d)"

text \<open>A node read back from an image is in step with that image, whatever the image holds.\<close>

lemma persisted_recover_from:
  "recover_from d i peers timeout heartbeat = Some (Inr m) \<Longrightarrow> persisted d m"
  unfolding recover_from_def
  by (drule recover_Inr(1))
     (simp add: recovered_def persisted_def durable_snapshot_def bootstrap_config_def Let_def)

lemma recover_from_restores:
  assumes "persisted d n" and "node_inv n"
    and "recover_from d i peers timeout heartbeat = Some (Inr m)"
    and "0 < boundary n \<or> snapshot_config n = \<lparr>voters = peers, old_voters = None\<rparr>"
  shows "durable_part m = durable_part n"
    and "current_config m = current_config n" "current_config_index m = current_config_index n"
    and "commit_index m \<le> commit_index n"
proof -
  let ?m = "recovered i peers timeout heartbeat (ds_hard_state d) (ds_log d) (durable_snapshot d)
    (ds_learners d)"
  have m: "m = ?m" using assms(3) unfolding recover_from_def by (rule recover_Inr(1))
  have "bootstrap_config (durable_snapshot d) peers = snapshot_config n"
    using assms(1,4) by (auto simp: bootstrap_config_def durable_snapshot_def persisted_def)
  with assms(1) show "durable_part m = durable_part n"
    by (simp add: m recovered_def durable_part_def persisted_def durable_snapshot_def Let_def)
  then have "config_in_force m = config_in_force n"
    by (simp add: durable_part_def config_in_force_def)
  moreover have "config_in_force m = (current_config m, current_config_index m)"
    by (simp add: m recovered_def config_in_force_def Let_def)
  ultimately show "current_config m = current_config n"
    "current_config_index m = current_config_index n"
    using assms(2) by (simp_all add: node_inv_def)
  show "commit_index m \<le> commit_index n"
    using assms(1,2)
    by (simp add: m recovered_def Let_def durable_snapshot_def persisted_def node_inv_def)
qed

text \<open>The index bound of an image, as a node keeps it.\<close>

definition image_ok :: "durable_state \<Rightarrow> bool" where
  "image_ok d \<longleftrightarrow> fits64 (last_included_index (ds_snapshot d) + length (ds_log d))"

lemma persisted_image_ok: "persisted d n \<Longrightarrow> node_inv n \<Longrightarrow> image_ok d"
  by (simp add: persisted_def node_inv_def image_ok_def)

lemma recover_from_total:
  assumes "image_ok d" and "sorted_wrt (<) peers" and "i \<in> set peers"
    and "0 < heartbeat" and "heartbeat \<le> timeout"
  shows "\<exists>m. recover_from d i peers timeout heartbeat = Some (Inr m) \<and> nid m = i \<and> role m = Follower"
proof -
  have "peers \<noteq> []" using assms(3) by auto
  with assms recover_total [of "durable_snapshot d" "ds_log d" peers i heartbeat timeout] show ?thesis
    by (auto simp: recover_from_def image_ok_def durable_snapshot_def recovered_def Let_def)
qed

end
