(* ===== verification/Raft_Votes.thy ===== *)
theory Raft_Votes
  imports Raft_Durable
begin

text \<open>
  Votes across the life of one node, crashes included. \<open>vote_discipline\<close> is what every
  operation obeys; \<open>lifecycle\<close> is the set of histories of one node whose owner carries out
  effects in order and may crash in the middle of a batch, restarting from the durable image.
\<close>

section \<open>Terms and votes only move forward\<close>

definition vote_order :: "node \<Rightarrow> node \<Rightarrow> bool" where
  "vote_order n n' \<longleftrightarrow> current_term n < current_term n' \<or>
     current_term n = current_term n' \<and> (voted_for n = None \<or> voted_for n = voted_for n')"

lemma vote_order_refl [simp]: "vote_order n n"
  by (simp add: vote_order_def)

lemma vote_order_trans: "vote_order a b \<Longrightarrow> vote_order b c \<Longrightarrow> vote_order a c"
  by (auto simp: vote_order_def)

lemma vote_order_same:
  "current_term n' = current_term n \<Longrightarrow> voted_for n' = voted_for n \<Longrightarrow> vote_order n n'"
  by (simp add: vote_order_def)

lemma vote_order_step_down: "current_term n < t \<Longrightarrow> vote_order n (step_down n t)"
  by (simp add: vote_order_def step_down_def)

lemma observe_leader_vote:
  "current_term n \<le> t \<Longrightarrow> current_term (observe_leader n t) = t"
  "voted_for (observe_leader n t) = (if current_term n < t then None else voted_for n)"
  by (auto simp: observe_leader_def step_down_def Let_def)

lemma become_leader_vote:
  "become_leader n = Some (n', es) \<Longrightarrow> current_term n' = current_term n \<and> voted_for n' = voted_for n"
  by (auto simp: become_leader_def run_simps)

lemma advance_vote:
  assumes "advance_commit_index n = Some (n', es)"
  shows "current_term n' = current_term n \<and> voted_for n' = voted_for n"
  by (rule advance_commit_index_preserves
      [OF assms, where P = "\<lambda>m. current_term m = current_term n \<and> voted_for m = voted_for n"])
     (auto dest!: advance_point_frame push_follow_up_frame simp: retire_from_leadership_def)

lemma recompute_vote:
  "recompute_config n = Some n' \<Longrightarrow> current_term n' = current_term n \<and> voted_for n' = voted_for n"
  by (drule recompute_config_eq_Some) simp

text \<open>The vote an effect makes known to a peer: a granted response, or an own candidacy.\<close>

fun vote_of :: "effect \<Rightarrow> (u64 \<times> node_id) option" where
  "vote_of (Send to (RequestVoteResponse r)) = (if granted r then Some (rvr_term r, to) else None)"
| "vote_of (Send to (RequestVote r)) = Some (rv_term r, candidate_id r)"
| "vote_of _ = None"

text \<open>What one operation may do to the vote: it writes the new hard state and nothing else, it moves
  forward, and a vote it makes known is the new vote, written earlier in the same batch or
  durable before it.\<close>

definition vote_discipline :: "node \<Rightarrow> effect list \<Rightarrow> node \<Rightarrow> bool" where
  "vote_discipline n es n' \<longleftrightarrow> vote_order n n' \<and>
     (\<forall>t v. PersistHardState t v \<in> set es \<longrightarrow> t = current_term n' \<and> v = voted_for n') \<and>
     (\<forall>e \<in> set es. \<forall>t c. vote_of e = Some (t, c) \<longrightarrow>
        t = current_term n' \<and> voted_for n' = Some c \<and>
        (\<exists>rest. es = PersistHardState (current_term n') (voted_for n') # rest))"

lemma vote_disciplineI:
  assumes "current_term n' = current_term n" "voted_for n' = voted_for n"
    and "\<And>e. e \<in> set es \<Longrightarrow> vote_of e = None \<and> (\<forall>t v. e \<noteq> PersistHardState t v)"
  shows "vote_discipline n es n'"
  using assms by (fastforce simp: vote_discipline_def vote_order_same)

lemma replicate_to_no_vote: "replicate_to n p = Some e \<Longrightarrow> vote_of e = None"
  by (auto simp: replicate_to_def run_simps split: if_splits)

lemma broadcast_no_vote: "broadcast_replication n = Some es \<Longrightarrow> e \<in> set es \<Longrightarrow> vote_of e = None"
  by (auto simp: broadcast_replication_def dest!: collect_set replicate_to_no_vote)

lemma become_leader_no_vote: "become_leader n = Some (n', es) \<Longrightarrow> e \<in> set es \<Longrightarrow> vote_of e = None"
  by (auto simp: become_leader_def run_simps dest: broadcast_no_vote)

lemma send_no_hard: "is_send e \<Longrightarrow> e \<noteq> PersistHardState t v"
  by auto

lemma vote_discipline_start_election:
  assumes "start_election n t = Some (n', es)"
  shows "vote_discipline n es n'"
  using assms
proof (cases rule: start_election_cases)
  case (elected m es')
  have "current_term m = current_term n + 1" by (simp add: elected(2) become_candidate_def)
  with elected(4,5) become_leader_vote [OF elected(4)] become_leader_no_vote [OF elected(4)]
    become_leader_sends [OF elected(4)]
  show ?thesis by (fastforce simp: vote_discipline_def vote_order_def)
next
  case (campaign m es')
  have m: "current_term m = current_term n + 1" "voted_for m = Some (nid n)"
    by (simp_all add: campaign(2) become_candidate_def)
  have "PersistHardState t v \<notin> set es'" for t v using campaign(5) by fastforce
  moreover have "vote_of e = Some (current_term m, nid n)" if "e \<in> set es'" for e
    using campaign(5) [OF that] by auto
  ultimately show ?thesis
    unfolding campaign(4,6) by (fastforce simp: vote_discipline_def vote_order_def m)
qed (simp add: vote_discipline_def)

lemma on_tick_follower:
  assumes "on_tick n t = Some (n', es)" and "role n \<noteq> Leader"
  obtains m where "m = n\<lparr>election_elapsed := election_elapsed n + 1,
      leader_contact_elapsed := leader_contact_elapsed n + 1\<rparr>"
    and "n' = m \<and> es = [] \<or> start_election m t = Some (n', es)"
  using assms by (auto simp: on_tick_def run_simps split: if_splits)

lemma vote_discipline_on_tick:
  assumes "on_tick n t = Some (n', es)"
  shows "vote_discipline n es n'"
proof (cases "role n = Leader")
  case True
  with assms show ?thesis
    by (auto simp: on_tick_def on_leader_tick_def run_simps split: if_splits
        intro!: vote_disciplineI dest: broadcast_no_vote broadcast_sends [THEN bspec])
next
  case False
  from on_tick_follower [OF assms this] obtain m where m: "m = n\<lparr>election_elapsed := election_elapsed n + 1,
      leader_contact_elapsed := leader_contact_elapsed n + 1\<rparr>"
    and "n' = m \<and> es = [] \<or> start_election m t = Some (n', es)" .
  then have "vote_discipline m es n'"
    by (auto intro: vote_disciplineI vote_discipline_start_election)
  moreover have "vote_order n n'" if "vote_order m n'" using that m by (simp add: vote_order_def)
  ultimately show ?thesis unfolding vote_discipline_def by blast
qed

lemma vote_discipline_on_request_vote:
  assumes "on_request_vote n sender r = Some (n', es)" and "candidate_id r = sender"
  shows "vote_discipline n es n'"
  using assms(1)
proof (cases rule: on_request_vote_cases)
  case refused
  then show ?thesis by (auto intro!: vote_disciplineI simp: reject_vote_def)
next
  case (answered m grant)
  have t: "current_term n' = rv_term r" using answered(1,4,6) by (auto simp: step_down_def)
  have "vote_order n n'"
  proof (cases "current_term n < rv_term r")
    case False
    with answered(1,4,5,6) show ?thesis by (auto simp: vote_order_def)
  qed (simp add: vote_order_def t)
  moreover have "voted_for n' = Some sender" if grant using that answered(6) assms(2) by simp
  ultimately show ?thesis
    unfolding answered(7) by (auto simp: vote_discipline_def t split: if_splits)
qed

lemma vote_discipline_hard:
  "vote_order n n' \<Longrightarrow> vote_discipline n [PersistHardState (current_term n') (voted_for n')] n'"
  by (auto simp: vote_discipline_def)

lemma vote_discipline_step_down:
  "current_term n < t \<Longrightarrow> vote_discipline n [PersistHardState t None] (step_down n t)"
  using vote_discipline_hard [OF vote_order_step_down, of n t] by (simp add: step_down_def)

lemma vote_discipline_on_request_vote_response:
  assumes "on_request_vote_response n sender r = Some (n', es)"
  shows "vote_discipline n es n'"
proof -
  have "vote_discipline n es n'" if "become_leader (n\<lparr>votes_granted := vs\<rparr>) = Some (n', es)" for vs
    using become_leader_vote [OF that] become_leader_no_vote [OF that]
      become_leader_sends [OF that] by (intro vote_disciplineI) (auto dest: send_no_hard)
  with assms vote_discipline_step_down [of n "rvr_term r"] show ?thesis
    by (auto simp: on_request_vote_response_def Let_def step_down_def split: if_splits
        intro: vote_disciplineI)
qed

lemma vote_discipline_observe:
  assumes "current_term n \<le> t" and "current_term n' = t"
    and "voted_for n' = voted_for (observe_leader n t)"
    and "\<And>e. e \<in> set es \<Longrightarrow> vote_of e = None \<and> (\<forall>t v. e \<noteq> PersistHardState t v)"
  shows "vote_discipline n (persist_hard_state (current_term n < t) (observe_leader n t) @ es) n'"
proof -
  have "vote_order n n'" using assms(1-3) by (auto simp: vote_order_def observe_leader_vote)
  with assms show ?thesis
    by (fastforce simp: vote_discipline_def persist_hard_state_def observe_leader_vote)
qed

lemma vote_discipline_on_append_entries:
  assumes "on_append_entries n sender r = Some (n', es)" and "node_inv n"
  shows "vote_discipline n es n'"
  using assms
proof (cases rule: on_append_entries_cases)
  case stale
  then show ?thesis by (auto intro!: vote_disciplineI simp: reject_append_entries_def)
next
  case (mismatch m)
  show ?thesis
    unfolding mismatch(6) using mismatch(1,5) unfolding mismatch(2)
    by (intro vote_discipline_observe) (auto simp: observe_leader_vote reject_append_entries_def)
next
  case (accept m)
  show ?thesis
    unfolding accept(8) using accept(1,6) unfolding accept(2)
    by (intro vote_discipline_observe)
       (auto simp: observe_leader_vote accepted_def Let_def split: option.splits)
qed

lemma vote_discipline_on_install_snapshot:
  assumes "on_install_snapshot n sender r = Some (n', es)"
  shows "vote_discipline n es n'"
  using assms
proof (cases rule: on_install_snapshot_cases)
  case stale
  then show ?thesis by (auto intro!: vote_disciplineI)
next
  case (covered m)
  show ?thesis
    unfolding covered(5) using covered(1,4) unfolding covered(2)
    by (intro vote_discipline_observe) (auto simp: observe_leader_vote)
next
  case (install m)
  show ?thesis
    unfolding install(6) using install(1,4) unfolding install(2)
    by (intro vote_discipline_observe) (auto simp: observe_leader_vote)
qed

lemma advance_effects:
  "advance_commit_index n = Some (n', es) \<Longrightarrow> e \<in> set es \<Longrightarrow>
     \<exists>i x. e = PersistLog i x"
  by (erule advance_commit_index_cases) (auto dest!: push_follow_up_frame)

lemma advance_no_vote:
  "advance_commit_index n = Some (n', es) \<Longrightarrow> e \<in> set es \<Longrightarrow> vote_of e = None"
  by (auto dest: advance_effects)

lemma continue_effects:
  assumes "continue_replication n sender es = Some (n', es')" and "e \<in> set es'"
  shows "e \<in> set es \<or> is_send e \<and> vote_of e = None"
  using assms replicate_to_no_vote replicate_to_send
  by (auto simp: continue_replication_def run_simps split: if_splits)

lemma vote_discipline_progress:
  assumes "advance_commit_index (n\<lparr>match_index := ms, next_index := ns\<rparr>) = Some (n1, es1)"
    and "continue_replication n1 sender es1 = Some (n', es)"
  shows "vote_discipline n es n'"
  using advance_vote [OF assms(1)] continue_replication_frame [OF assms(2)]
  by (intro vote_disciplineI)
     (auto dest!: continue_effects [OF assms(2)] advance_effects [OF assms(1)])

lemma vote_discipline_back_off:
  assumes "continue_replication (n\<lparr>next_index := ns\<rparr>) sender [] = Some (n', es)"
  shows "vote_discipline n es n'"
  using continue_replication_frame [OF assms]
  by (intro vote_disciplineI) (auto dest!: continue_effects [OF assms])

lemma vote_discipline_on_append_entries_response:
  assumes "on_append_entries_response n sender r = Some (n', es)"
  shows "vote_discipline n es n'"
  using assms vote_discipline_step_down [of n "aer_term r"]
  by (auto simp: on_append_entries_response_def run_simps step_down_def split: if_splits
      intro: vote_disciplineI vote_discipline_progress vote_discipline_back_off)

lemma vote_discipline_on_install_snapshot_response:
  assumes "on_install_snapshot_response n sender r = Some (n', es)"
  shows "vote_discipline n es n'"
  using assms vote_discipline_step_down [of n "isr_term r"]
  by (auto simp: on_install_snapshot_response_def run_simps step_down_def split: if_splits
      intro: vote_disciplineI vote_discipline_progress)

lemma vote_discipline_step:
  "step n ev = Some (n', es) \<Longrightarrow> node_inv n \<Longrightarrow> vote_discipline n es n'"
  by (cases "(n, ev)" rule: step.cases)
     (auto split: if_splits intro: vote_disciplineI vote_discipline_on_tick
       vote_discipline_on_append_entries vote_discipline_on_install_snapshot
       vote_discipline_on_request_vote vote_discipline_on_request_vote_response
       vote_discipline_on_append_entries_response vote_discipline_on_install_snapshot_response)

lemma vote_discipline_propose:
  "propose n c = Some (n', res) \<Longrightarrow> vote_discipline n (effects_of res) n'"
  by (auto simp: propose_def run_simps effects_of_def split: if_splits intro!: vote_disciplineI
      dest!: recompute_vote dest: advance_vote advance_no_vote advance_effects)

lemma vote_discipline_propose_config_change:
  "propose_config_change n vs = Some (n', res) \<Longrightarrow> vote_discipline n (effects_of res) n'"
  by (auto simp: propose_config_change_def run_simps effects_of_def split: if_splits
      intro!: vote_disciplineI dest!: recompute_vote dest: advance_vote advance_no_vote advance_effects)

lemma vote_discipline_run_op:
  assumes "run_op n op = Some (n', es)" and "node_inv n"
  shows "vote_discipline n es n'"
proof (cases op)
  case (Op_Compact i data)
  with assms(1) show ?thesis
    by (auto simp: run_simps elim!: compact_cases intro!: vote_disciplineI)
       (simp_all add: compacted_def Let_def)
qed (use assms in \<open>auto simp: run_simps add_learner_def remove_learner_def Let_def split: if_splits
      intro: vote_disciplineI vote_discipline_step vote_discipline_propose
        vote_discipline_propose_config_change\<close>)

section \<open>Histories of one node\<close>

text \<open>\<open>lifecycle i n d sent\<close>: node \<open>i\<close> is in state \<open>n\<close>, its image on disk is \<open>d\<close> and it
  has sent \<open>sent\<close>. A crash may strike after any number \<open>k\<close> of the effects of a batch; the
  operator may restart with other bootstrap peers and timeouts. (A crash between two operations
  is the case \<open>k = 0\<close> of an operation that changes nothing.)\<close>

inductive lifecycle :: "node_id \<Rightarrow> node \<Rightarrow> durable_state \<Rightarrow> effect list \<Rightarrow> bool" for i where
  boot: "new_node i peers timeout heartbeat = Some (Inr n) \<Longrightarrow>
     lifecycle i n default_durable_state []"
| join: "new_learner i timeout heartbeat = Inr n \<Longrightarrow> lifecycle i n default_durable_state []"
| operate: "lifecycle i n d sent \<Longrightarrow> run_op n op = Some (n', es) \<Longrightarrow>
     durable_apply_all d es = Some d' \<Longrightarrow> lifecycle i n' d' (sent @ filter is_send es)"
| crash: "lifecycle i n d sent \<Longrightarrow> run_op n op = Some (n', es) \<Longrightarrow>
     durable_apply_all d (take k es) = Some d' \<Longrightarrow>
     recover_from d' i peers timeout heartbeat = Some (Inr m) \<Longrightarrow>
     fits64 (last_included_index (ds_snapshot d') + length (ds_log d')) \<Longrightarrow>
     lifecycle i m d' (sent @ filter is_send (take k es))"

lemma new_node_recover_from:
  "new_node i peers timeout heartbeat = recover_from default_durable_state i peers timeout heartbeat"
  by (simp add: new_node_def recover_from_def default_durable_state_def durable_snapshot_def
      default_snapshot_def)

lemma recover_from_inv:
  "recover_from d i peers timeout heartbeat = Some (Inr m) \<Longrightarrow>
     fits64 (last_included_index (ds_snapshot d) + length (ds_log d)) \<Longrightarrow> node_inv m"
  unfolding recover_from_def
  by (drule recover_Inr(1)) (simp add: node_inv_recovered durable_snapshot_def)

lemma lifecycle_persisted: "lifecycle i n d sent \<Longrightarrow> persisted d n \<and> node_inv n"
proof (induction rule: lifecycle.induct)
  case (boot peers timeout heartbeat n)
  then have "recover_from default_durable_state i peers timeout heartbeat = Some (Inr n)"
    by (simp add: new_node_recover_from)
  then show ?case
    by (auto intro!: recover_from_inv dest: persisted_recover_from
        simp: default_durable_state_def default_metadata_def)
next
  case (join timeout heartbeat n)
  then have "persisted default_durable_state n"
    by (auto simp: new_learner_def persisted_def default_durable_state_def Let_def
        default_hard_state_def default_metadata_def split: if_splits)
  with join show ?case by (simp add: node_inv_new_learner)
next
  case (operate n d sent op n' es d')
  then show ?case using persistsD [OF persists_run_op] node_inv_run_op by fastforce
next
  case (crash n d sent op n' es k d' peers timeout heartbeat m)
  then show ?case by (auto intro: persisted_recover_from recover_from_inv)
qed

text \<open>The hard state on disk after a part of a batch is the old or the new one.\<close>

lemma durable_hard_state:
  "durable_apply_all d es = Some d' \<Longrightarrow>
     (\<And>t v. PersistHardState t v \<in> set es \<Longrightarrow> \<lparr>hs_current_term = t, hs_voted_for = v\<rparr> = h) \<Longrightarrow>
     ds_hard_state d' = ds_hard_state d \<or> ds_hard_state d' = h"
proof (induction es arbitrary: d)
  case (Cons e es)
  from Cons.prems(1) obtain x where x: "durable_apply d e = Some x" "durable_apply_all x es = Some d'"
    by (auto simp: bind_eq_Some_conv)
  have "ds_hard_state x = ds_hard_state d \<or> ds_hard_state x = h"
    using x(1) Cons.prems(2) by (cases e) (auto simp: bind_eq_Some_conv)
  with Cons.IH [OF x(2)] Cons.prems(2) show ?case by auto
qed simp

definition vote_recorded :: "durable_state \<Rightarrow> effect \<Rightarrow> bool" where
  "vote_recorded d e \<longleftrightarrow> (\<forall>t c. vote_of e = Some (t, c) \<longrightarrow>
     t < hs_current_term (ds_hard_state d) \<or>
     t = hs_current_term (ds_hard_state d) \<and> hs_voted_for (ds_hard_state d) = Some c)"

lemma vote_recordedD:
  "vote_recorded d e \<Longrightarrow> vote_of e = Some (t, c) \<Longrightarrow>
     t < hs_current_term (ds_hard_state d) \<or>
     t = hs_current_term (ds_hard_state d) \<and> hs_voted_for (ds_hard_state d) = Some c"
  by (simp add: vote_recorded_def)

lemma vote_recorded_mono:
  assumes "vote_recorded d e"
    and d: "ds_hard_state d = \<lparr>hs_current_term = current_term n, hs_voted_for = voted_for n\<rparr>"
    and d': "ds_hard_state d' = ds_hard_state d \<or>
      ds_hard_state d' = \<lparr>hs_current_term = current_term n', hs_voted_for = voted_for n'\<rparr>"
    and "vote_order n n'"
  shows "vote_recorded d' e"
proof -
  have "t < hs_current_term (ds_hard_state d') \<or>
      t = hs_current_term (ds_hard_state d') \<and> hs_voted_for (ds_hard_state d') = Some c"
    if "vote_of e = Some (t, c)" for t c
    using vote_recordedD [OF assms(1) that] d d' assms(4) by (elim disjE) (auto simp: vote_order_def)
  then show ?thesis by (simp add: vote_recorded_def)
qed

lemma vote_of_write: "\<not> is_send e \<Longrightarrow> vote_of e = None"
  by (cases e) auto

text \<open>A batch that makes a vote known starts with the write of that vote: however much of it was
  carried out, the vote is on disk.\<close>

lemma vote_written:
  assumes "vote_discipline n es n'" and "durable_apply_all d (take k es) = Some d'"
    and "e \<in> set (take k es)" and "vote_of e = Some (t, c)"
  shows "ds_hard_state d' = \<lparr>hs_current_term = t, hs_voted_for = Some c\<rparr>"
proof -
  let ?h = "\<lparr>hs_current_term = current_term n', hs_voted_for = voted_for n'\<rparr>"
  from assms(1) in_set_takeD [OF assms(3)] assms(4) obtain rest where
    t: "t = current_term n'" "voted_for n' = Some c"
    and es: "es = PersistHardState (current_term n') (voted_for n') # rest"
    unfolding vote_discipline_def by blast
  from assms(3) es obtain k' where k: "k = Suc k'" by (cases k) auto
  have "durable_apply_all (d\<lparr>ds_hard_state := ?h\<rparr>) (take k' rest) = Some d'"
    using assms(2) by (simp add: es k)
  moreover have "\<lparr>hs_current_term = t, hs_voted_for = v\<rparr> = ?h"
    if "PersistHardState t v \<in> set (take k' rest)" for t v
    using assms(1) in_set_takeD [OF that] by (auto simp: vote_discipline_def es)
  ultimately have "ds_hard_state d' = ds_hard_state (d\<lparr>ds_hard_state := ?h\<rparr>) \<or>
      ds_hard_state d' = ?h"
    by (rule durable_hard_state)
  with t show ?thesis by auto
qed

text \<open>One batch, cut anywhere: the votes made known so far stay recorded on disk.\<close>

lemma vote_recorded_batch:
  assumes "vote_discipline n es n'" and "persisted d n"
    and "durable_apply_all d (take k es) = Some d'"
    and "\<And>e. e \<in> set sent \<Longrightarrow> vote_recorded d e"
    and "e \<in> set sent \<union> set (take k es)"
  shows "vote_recorded d' e"
proof -
  let ?h = "\<lparr>hs_current_term = current_term n', hs_voted_for = voted_for n'\<rparr>"
  have hard: "\<lparr>hs_current_term = t, hs_voted_for = v\<rparr> = ?h" if "PersistHardState t v \<in> set (take k es)" for t v
    using assms(1) in_set_takeD [OF that] by (auto simp: vote_discipline_def)
  have d': "ds_hard_state d' = ds_hard_state d \<or> ds_hard_state d' = ?h"
    by (rule durable_hard_state [OF assms(3) hard])
  have d: "ds_hard_state d = \<lparr>hs_current_term = current_term n, hs_voted_for = voted_for n\<rparr>"
    using assms(2) by (simp add: persisted_def)
  have vote_order: "vote_order n n'" using assms(1) by (simp add: vote_discipline_def)
  show ?thesis
  proof (cases "e \<in> set sent")
    case True
    then have "vote_recorded d e" by (rule assms(4))
    then show ?thesis
      using d d' vote_order by (rule vote_recorded_mono)
  next
    case False
    with assms(5) have e: "e \<in> set (take k es)" by simp
    show ?thesis
    proof (cases "vote_of e")
      case (Some tc)
      then obtain t c where tc: "vote_of e = Some (t, c)" by (cases tc) auto
      from vote_written [OF assms(1,3) e tc] tc show ?thesis by (simp add: vote_recorded_def)
    qed (simp add: vote_recorded_def)
  qed
qed

lemma lifecycle_vote_recorded: "lifecycle i n d sent \<Longrightarrow> e \<in> set sent \<Longrightarrow> vote_recorded d e"
proof (induction arbitrary: e rule: lifecycle.induct)
  case (operate n d sent op n' es d')
  from lifecycle_persisted [OF operate.hyps(1)] operate.hyps(2)
  have "vote_discipline n es n'" "persisted d n" by (auto intro: vote_discipline_run_op)
  from vote_recorded_batch [OF this, of "length es" d' sent e] operate show ?case by auto
next
  case (crash n d sent op n' es k d' peers timeout heartbeat m)
  from lifecycle_persisted [OF crash.hyps(1)] crash.hyps(2)
  have "vote_discipline n es n'" "persisted d n" by (auto intro: vote_discipline_run_op)
  from vote_recorded_batch [OF this, of k d' sent e] crash show ?case by auto
qed simp_all

definition votes_agree :: "effect list \<Rightarrow> bool" where
  "votes_agree sent \<longleftrightarrow> (\<forall>e1 \<in> set sent. \<forall>e2 \<in> set sent. \<forall>t c1 c2.
     vote_of e1 = Some (t, c1) \<longrightarrow> vote_of e2 = Some (t, c2) \<longrightarrow> c1 = c2)"

lemma vote_discipline_vote:
  assumes "vote_discipline n es n'" and "e \<in> set es" and "vote_of e = Some (t, c)"
  shows "t = current_term n'" and "voted_for n' = Some c"
  using assms unfolding vote_discipline_def by blast+

lemma votes_agree_batch:
  assumes "vote_discipline n es n'" and "persisted d n" and "votes_agree sent"
    and rec: "\<And>e. e \<in> set sent \<Longrightarrow> vote_recorded d e"
  shows "votes_agree (sent @ filter is_send (take k es))"
proof -
  have old_new: "c1 = c2" if "e1 \<in> set sent" "vote_of e1 = Some (t, c1)"
      "e2 \<in> set (take k es)" "vote_of e2 = Some (t, c2)" for e1 e2 t c1 c2
  proof -
    note new = vote_discipline_vote [OF assms(1) in_set_takeD [OF that(3)] that(4)]
    have "vote_order n n'" using assms(1) by (simp add: vote_discipline_def)
    moreover have "t < current_term n \<or> t = current_term n \<and> voted_for n = Some c1"
      using vote_recordedD [OF rec [OF that(1)] that(2)] assms(2) by (simp add: persisted_def)
    ultimately show ?thesis
      using new by (elim disjE) (simp_all add: vote_order_def)
  qed
  have new_new: "c1 = c2" if "e1 \<in> set (take k es)" "vote_of e1 = Some (t, c1)"
      "e2 \<in> set (take k es)" "vote_of e2 = Some (t, c2)" for e1 e2 t c1 c2
    using vote_discipline_vote(2) [OF assms(1) in_set_takeD [OF that(1)] that(2)]
      vote_discipline_vote(2) [OF assms(1) in_set_takeD [OF that(3)] that(4)] by simp
  show ?thesis
    unfolding votes_agree_def
  proof (intro ballI allI impI)
    fix e1 e2 t c1 c2
    assume e: "e1 \<in> set (sent @ filter is_send (take k es))"
        "e2 \<in> set (sent @ filter is_send (take k es))"
      and v: "vote_of e1 = Some (t, c1)" "vote_of e2 = Some (t, c2)"
    from e have "(e1 \<in> set sent \<or> e1 \<in> set (take k es)) \<and> (e2 \<in> set sent \<or> e2 \<in> set (take k es))"
      by auto
    then show "c1 = c2"
      using v assms(3) old_new [OF _ v(1) _ v(2)] old_new [OF _ v(2) _ v(1)]
        new_new [OF _ v(1) _ v(2)]
      unfolding votes_agree_def by blast
  qed
qed

lemma lifecycle_votes_agree: "lifecycle i n d sent \<Longrightarrow> votes_agree sent"
proof (induction rule: lifecycle.induct)
  case (operate n d sent op n' es d')
  from lifecycle_persisted [OF operate.hyps(1)] operate.hyps(2)
  have "vote_discipline n es n'" "persisted d n" by (auto intro: vote_discipline_run_op)
  from votes_agree_batch [OF this operate.IH lifecycle_vote_recorded [OF operate.hyps(1)],
      of "length es"] show ?case by simp
next
  case (crash n d sent op n' es k d' peers timeout heartbeat m)
  from lifecycle_persisted [OF crash.hyps(1)] crash.hyps(2)
  have "vote_discipline n es n'" "persisted d n" by (auto intro: vote_discipline_run_op)
  from votes_agree_batch [OF this crash.IH lifecycle_vote_recorded [OF crash.hyps(1)], of k]
  show ?case by simp
qed (simp_all add: votes_agree_def)

section \<open>A node keeps its identity\<close>

lemma nid_become_leader: "become_leader n = Some (n', es) \<Longrightarrow> nid n' = nid n"
  by (auto simp: become_leader_def run_simps)

lemma nid_start_election: "start_election n t = Some (n', es) \<Longrightarrow> nid n' = nid n"
  by (erule start_election_cases) (auto simp: become_candidate_def dest: nid_become_leader)

lemma nid_advance:
  assumes "advance_commit_index n = Some (n', es)"
  shows "nid n' = nid n"
  by (rule advance_commit_index_preserves [OF assms, where P = "\<lambda>m. nid m = nid n"])
     (auto dest!: advance_point_frame push_follow_up_frame simp: retire_from_leadership_def)

lemma nid_observe_leader [simp]: "nid (observe_leader n t) = nid n"
  by (simp add: observe_leader_def step_down_def Let_def)

lemma nid_recompute: "recompute_config n = Some n' \<Longrightarrow> nid n' = nid n"
  by (drule recompute_config_eq_Some) simp

lemma nid_step: "step n ev = Some (n', es) \<Longrightarrow> node_inv n \<Longrightarrow> nid n' = nid n"
proof (cases "(n, ev)" rule: step.cases)
  case (1 m t)
  assume "step n ev = Some (n', es)"
  with 1 show ?thesis
    by (cases "role n = Leader")
       (auto simp: on_tick_def on_leader_tick_def run_simps split: if_splits dest!: nid_start_election)
next
  case (2 m sender r)
  assume "step n ev = Some (n', es)" "node_inv n"
  with 2 show ?thesis
    by (auto split: if_splits elim!: on_append_entries_cases simp: accepted_def Let_def)
next
  case (3 m sender r)
  assume "step n ev = Some (n', es)"
  with 3 show ?thesis by (auto split: if_splits elim!: on_install_snapshot_cases)
next
  case (4 m sender r)
  assume "step n ev = Some (n', es)"
  with 4 show ?thesis by (auto split: if_splits elim!: on_request_vote_cases simp: step_down_def)
next
  case (5 m sender r)
  assume "step n ev = Some (n', es)"
  with 5 show ?thesis
    by (auto simp: on_request_vote_response_def Let_def step_down_def split: if_splits
        dest!: nid_become_leader)
next
  case (6 m sender r)
  assume "step n ev = Some (n', es)"
  with 6 show ?thesis
    by (auto simp: on_append_entries_response_def run_simps step_down_def split: if_splits
        dest!: continue_replication_frame nid_advance)
next
  case (7 m sender r)
  assume "step n ev = Some (n', es)"
  with 7 show ?thesis
    by (auto simp: on_install_snapshot_response_def run_simps step_down_def split: if_splits
        dest!: continue_replication_frame nid_advance)
qed

lemma nid_run_op: "run_op n op = Some (n', es) \<Longrightarrow> node_inv n \<Longrightarrow> nid n' = nid n"
  by (cases op)
     (auto simp: run_simps propose_def propose_config_change_def add_learner_def remove_learner_def
       compacted_def split: if_splits dest: nid_step dest!: nid_advance nid_recompute elim!: compact_cases)

end
