(* ===== verification/Raft_Cluster.thy ===== *)
theory Raft_Cluster
  imports Raft_Votes
begin

text \<open>
  A cluster of nodes of \<^verbatim>\<open>crates/kurogane-raft/src/lib.rs\<close> under a fixed membership: what a node
  says and stores, how it comes to stand and to lead, and the reachable worlds of any number of
  nodes with their disks and an unreliable network, crashes in the middle of a batch of effects
  included. The result is election safety: two leaders of one term are the same node.
\<close>

section \<open>Quorums\<close>

text \<open>What elections rely on: two quorums share a member. A vote that is cast once per term then
  gives one winner per term.\<close>

locale quorum_system =
  fixes quorum :: "'v set \<Rightarrow> bool"
  assumes intersect: "quorum A \<Longrightarrow> quorum B \<Longrightarrow> A \<inter> B \<noteq> {}"
begin

lemma one_winner:
  assumes "quorum A" and "quorum B"
    and "\<And>v. v \<in> A \<Longrightarrow> cast v a" and "\<And>v. v \<in> B \<Longrightarrow> cast v b"
    and "\<And>v x y. cast v x \<Longrightarrow> cast v y \<Longrightarrow> x = y"
  shows "a = b"
proof -
  from intersect [OF assms(1,2)] obtain v where "v \<in> A" "v \<in> B" by blast
  with assms(3-5) show ?thesis by blast
qed

end

definition majority :: "node_id list \<Rightarrow> node_id set \<Rightarrow> bool" where
  "majority vs A \<longleftrightarrow> A \<subseteq> set vs \<and> length vs div 2 + 1 \<le> card A"

interpretation majority_quorum: quorum_system "majority vs" for vs
proof
  fix A B assume A: "majority vs A" and B: "majority vs B"
  show "A \<inter> B \<noteq> {}"
  proof
    assume disj: "A \<inter> B = {}"
    have fin: "finite A" "finite B" using A B by (auto simp: majority_def intro: finite_subset)
    have "card A + card B = card (A \<union> B)" using disj fin by (simp add: card_Un_disjoint)
    also have "\<dots> \<le> card (set vs)" using A B by (intro card_mono) (auto simp: majority_def)
    also have "\<dots> \<le> length vs" by (rule card_length)
    finally show False using A B by (auto simp: majority_def)
  qed
qed

section \<open>Nodes under a fixed membership\<close>

definition is_command :: "log_entry \<Rightarrow> bool" where
  "is_command e = (case payload e of Command _ \<Rightarrow> True | Configuration _ \<Rightarrow> False)"

definition steady :: "node \<Rightarrow> bool" where
  "steady n \<longleftrightarrow> node_inv n \<and> list_all is_command (log n) \<and> old_voters (snapshot_config n) = None"

lemma replay_commands: "list_all is_command es \<Longrightarrow> replay_config ci i es = ci"
  by (induction es arbitrary: i) (auto simp: is_command_def split: log_payload.splits)

lemma steady_config: "steady n \<Longrightarrow> current_config n = snapshot_config n"
  by (auto simp: steady_def node_inv_def config_in_force_def replay_commands)

lemma steady_not_joint: "steady n \<Longrightarrow> old_voters (current_config n) = None"
  by (simp add: steady_config) (simp add: steady_def)

fun steady_message :: "cluster_config \<Rightarrow> message \<Rightarrow> bool" where
  "steady_message c (AppendEntries r) = list_all is_command (entries r)"
| "steady_message c (InstallSnapshot r) = (is_config r = c)"
| "steady_message c _ = True"

fun steady_op :: "cluster_config \<Rightarrow> operation \<Rightarrow> bool" where
  "steady_op c (Op_Event (Step _ m)) = steady_message c m"
| "steady_op c (Op_Config_Change _) = False"
| "steady_op c _ = True"

text \<open>The part of a node that fixes its configuration.\<close>

definition same_config :: "node \<Rightarrow> node \<Rightarrow> bool" where
  "same_config n n' \<longleftrightarrow> log n' = log n \<and> snapshot_config n' = snapshot_config n"

lemma same_config_refl [simp]: "same_config n n"
  by (simp add: same_config_def)

lemma same_config_become_leader: "become_leader n = Some (n', es) \<Longrightarrow> same_config n n'"
  by (auto simp: become_leader_def run_simps same_config_def)

lemma same_config_start_election: "start_election n t = Some (n', es) \<Longrightarrow> same_config n n'"
  by (erule start_election_cases)
     (auto simp: become_candidate_def same_config_def dest!: same_config_become_leader)

lemma same_config_on_tick: "on_tick n t = Some (n', es) \<Longrightarrow> same_config n n'"
  by (cases "role n = Leader")
     (auto simp: on_tick_def on_leader_tick_def run_simps same_config_def split: if_splits
       dest!: same_config_start_election)

lemma same_config_observe [simp]: "log (observe_leader n t) = log n"
  "snapshot_config (observe_leader n t) = snapshot_config n"
  by (simp_all add: observe_leader_def step_down_def Let_def)

lemma same_config_on_request_vote: "on_request_vote n sender r = Some (n', es) \<Longrightarrow> same_config n n'"
  by (erule on_request_vote_cases) (auto simp: same_config_def step_down_def)

lemma same_config_on_request_vote_response:
  "on_request_vote_response n sender r = Some (n', es) \<Longrightarrow> same_config n n'"
  by (auto simp: on_request_vote_response_def Let_def step_down_def same_config_def split: if_splits
      dest!: same_config_become_leader)

lemma advance_not_joint:
  assumes "advance_commit_index n = Some (n', es)" and "old_voters (current_config n) = None"
  shows "same_config n n' \<and> es = []"
  using assms(1)
proof (cases rule: advance_commit_index_cases)
  case (plain n1)
  then show ?thesis
    by (auto dest!: advance_point_frame simp: same_config_def retire_if_excluded_def
        retire_from_leadership_def)
next
  case (follow_up n1 n2 persist n3)
  with assms(2) show ?thesis
    by (auto dest!: advance_point_frame simp: joint_committed_def)
qed

lemma same_config_append_response:
  "on_append_entries_response n sender r = Some (n', es) \<Longrightarrow> old_voters (current_config n) = None \<Longrightarrow>
     same_config n n'"
  by (auto simp: on_append_entries_response_def run_simps step_down_def same_config_def
      split: if_splits dest!: continue_replication_frame advance_not_joint)

lemma same_config_snapshot_response:
  "on_install_snapshot_response n sender r = Some (n', es) \<Longrightarrow> old_voters (current_config n) = None \<Longrightarrow>
     same_config n n'"
  by (auto simp: on_install_snapshot_response_def run_simps step_down_def same_config_def
      split: if_splits dest!: continue_replication_frame advance_not_joint)

lemmas same_config_responses = same_config_append_response same_config_snapshot_response

lemma list_all_take_drop: "list_all P xs \<Longrightarrow> list_all P (take k xs) \<and> list_all P (drop k xs)"
  by (auto simp: list_all_iff dest: in_set_takeD in_set_dropD)

lemma merged_commands:
  "list_all is_command (log n) \<Longrightarrow> list_all is_command es \<Longrightarrow> list_all is_command (merged_log n prev es)"
  by (simp add: merged_log_def append_at_def Let_def list_all_take_drop)

lemma steady_step:
  assumes "step n ev = Some (n', es)" and "steady n" and "steady_op c (Op_Event ev)"
  shows "steady n' \<and> (snapshot_config n' = snapshot_config n \<or> snapshot_config n' = c) \<or> old_voters c \<noteq> None"
proof -
  have inv: "node_inv n'" using assms(1,2) by (auto simp: steady_def intro: node_inv_step)
  have keep: "?thesis" if "same_config n n'"
    using that inv assms(2) by (auto simp: same_config_def steady_def)
  note nj = steady_not_joint [OF assms(2)]
  show ?thesis
  proof (cases "(n, ev)" rule: step.cases)
    case (1 m t)
    with assms(1) show ?thesis by (intro keep) (auto intro: same_config_on_tick)
  next
    case (2 m sender r)
    show ?thesis
    proof (cases "ae_leader_id r = sender")
      case True
      with assms(1) 2 have "on_append_entries n sender r = Some (n', es)" by simp
      moreover have "node_inv n" using assms(2) by (simp add: steady_def)
      ultimately show ?thesis
      proof (cases rule: on_append_entries_cases)
        case stale
        then show ?thesis by (intro keep) simp
      next
        case (mismatch m')
        then show ?thesis by (intro keep) (simp add: same_config_def)
      next
        case (accept m')
        have "list_all is_command (log n')" "snapshot_config n' = snapshot_config n"
          using assms(2,3) 2 merged_commands [of m' "entries r" "prev_log_index r"] accept(2)
          by (auto simp: accept(6) accepted_def Let_def steady_def)
        with inv assms(2) show ?thesis by (auto simp: steady_def)
      qed
    qed (use assms 2 in auto)
  next
    case (3 m sender r)
    show ?thesis
    proof (cases "is_leader_id r = sender")
      case True
      with assms(1) 3 have "on_install_snapshot n sender r = Some (n', es)" by simp
      then show ?thesis
      proof (cases rule: on_install_snapshot_cases)
        case stale
        then show ?thesis by (intro keep) simp
      next
        case (covered m')
        then show ?thesis by (intro keep) (simp add: same_config_def)
      next
        case (install m')
        with inv assms(3) 3 show ?thesis by (auto simp: steady_def)
      qed
    qed (use assms 3 in auto)
  next
    case (4 m sender r)
    with assms(1) show ?thesis
      by (intro keep) (auto split: if_splits intro: same_config_on_request_vote)
  next
    case (5 m sender r)
    with assms(1) show ?thesis
      by (intro keep) (auto split: if_splits intro: same_config_on_request_vote_response)
  next
    case (6 m sender r)
    with assms(1) nj show ?thesis
      by (intro keep) (auto split: if_splits intro: same_config_responses)
  next
    case (7 m sender r)
    with assms(1) nj show ?thesis
      by (intro keep) (auto split: if_splits intro: same_config_responses)
  qed
qed

lemma steady_propose:
  assumes "propose n cmd = Some (n', res)" and "steady n"
  shows "steady n' \<and> snapshot_config n' = snapshot_config n"
proof (cases "role n = Leader")
  case True
  let ?e = "\<lparr>entry_term = current_term n, payload = Command cmd\<rparr>"
  have inv: "node_inv n'" using assms by (auto simp: steady_def intro: node_inv_propose)
  from True assms(1) obtain n1 es where n1: "recompute_config (n\<lparr>log := log n @ [?e]\<rparr>) = Some n1"
    and adv: "advance_commit_index n1 = Some (n', es)"
    by (auto simp: propose_def bind_eq_Some_conv Let_def)
  note eq = recompute_config_eq_Some [OF n1]
  have cmds: "list_all is_command (log n @ [?e])"
    using assms(2) by (simp add: steady_def is_command_def)
  have "current_config n1 = snapshot_config n"
    using eq cmds replay_commands [OF cmds] by (simp add: config_in_force_def)
  then have "same_config n1 n'"
    using advance_not_joint [OF adv] assms(2) by (simp add: steady_def)
  with eq cmds inv assms(2) show ?thesis by (auto simp: same_config_def steady_def)
qed (use assms in \<open>auto simp: propose_def\<close>)

lemma steady_compact:
  assumes "compact n i data = Some (n', res)" and "steady n"
  shows "steady n' \<and> snapshot_config n' = snapshot_config n"
  using assms(1)
proof (cases rule: compact_cases)
  case drop
  have inv: "node_inv n'" using assms by (auto simp: steady_def intro: node_inv_compact)
  have "list_all is_command (take (i - boundary n) (log n))" "list_all is_command (log n')"
    using assms(2) by (simp_all add: steady_def drop(4) compacted_def Let_def list_all_take_drop)
  with inv assms(2) show ?thesis
    by (auto simp: steady_def drop(4) compacted_def Let_def replay_commands)
qed (use assms(2) in auto)

lemma steady_run_op:
  assumes "run_op n op = Some (n', es)" and "steady n" and "steady_op c op" and "old_voters c = None"
  shows "steady n' \<and> (snapshot_config n' = snapshot_config n \<or> snapshot_config n' = c)"
proof (cases op)
  case (Op_Event ev)
  with assms steady_step [of n ev n' es c] show ?thesis by simp
next
  case (Op_Propose cmd)
  with assms(1,2) show ?thesis by (auto simp: bind_eq_Some_conv dest: steady_propose)
next
  case (Op_Compact i data)
  with assms(1,2) show ?thesis by (auto simp: bind_eq_Some_conv dest: steady_compact)
next
  case (Op_Add_Learner i)
  with assms(1,2) node_inv_add_learner [of n i n' es] show ?thesis
    by (auto simp: add_learner_def run_simps steady_def split: if_splits)
next
  case (Op_Remove_Learner i)
  with assms(1,2) node_inv_remove_learner [of n i n' es] show ?thesis
    by (auto simp: remove_learner_def Let_def steady_def split: if_splits)
qed (use assms(3) in simp)

section \<open>What a node says\<close>

fun speaks :: "node \<Rightarrow> effect \<Rightarrow> bool" where
  "speaks n (Send to (AppendEntries r)) \<longleftrightarrow> role n = Leader \<and> set (entries r) \<subseteq> set (log n)"
| "speaks n (Send to (InstallSnapshot r)) \<longleftrightarrow> role n = Leader \<and> is_config r = snapshot_config n"
| "speaks n (Send to (RequestVote r)) \<longleftrightarrow> role n = Candidate \<and> to \<in> set (voters (current_config n))"
| "speaks n _ \<longleftrightarrow> True"

lemma speaks_write: "\<not> is_send e \<Longrightarrow> speaks n e"
  by (cases e) auto

lemma speaks_replicate: "replicate_to n p = Some e \<Longrightarrow> role n = Leader \<Longrightarrow> speaks n e"
  by (auto simp: replicate_to_def run_simps dest: in_set_dropD split: if_splits)

lemma speaks_broadcast:
  "broadcast_replication n = Some es \<Longrightarrow> role n = Leader \<Longrightarrow> e \<in> set es \<Longrightarrow> speaks n e"
  by (auto simp: broadcast_replication_def dest!: collect_set speaks_replicate)

lemma speaks_become_leader: "become_leader n = Some (n', es) \<Longrightarrow> e \<in> set es \<Longrightarrow> speaks n' e"
  by (auto simp: become_leader_def run_simps intro: speaks_broadcast)

lemma speaks_start_election:
  assumes "start_election n t = Some (n', es)" and "e \<in> set es"
  shows "speaks n' e"
  using assms(1)
proof (cases rule: start_election_cases)
  case (elected m es')
  with assms(2) show ?thesis by (auto intro: speaks_become_leader)
next
  case (campaign m es')
  with assms(2) show ?thesis by (fastforce simp: become_candidate_def)
qed (use assms(2) in simp)

lemma speaks_continue:
  assumes "continue_replication n sender es = Some (n', es')" and "e \<in> set es'"
    and "\<And>e. e \<in> set es \<Longrightarrow> \<not> is_send e"
  shows "speaks n' e"
proof -
  have "n' = n" using continue_replication_frame [OF assms(1)] by simp
  moreover have "e \<in> set es \<or> role n = Leader \<and> replicate_to n sender = Some e"
    using assms(1,2) by (auto simp: continue_replication_def run_simps split: if_splits)
  ultimately show ?thesis using assms(3) speaks_write speaks_replicate by blast
qed

lemma speaks_request_batch: "request_batch sender m es \<Longrightarrow> e \<in> set es \<Longrightarrow> speaks n e"
  by (cases m) (auto simp: request_batch_def list_all_iff elim!: replies_to.elims is_write.elims
      intro: speaks_write dest!: bspec)

lemma on_tick_campaign:
  assumes "on_tick n t = Some (n', es)" and "role n \<noteq> Leader" and "e \<in> set es"
  shows "\<exists>m. start_election m t = Some (n', es)"
  using assms by (auto simp: on_tick_def run_simps split: if_splits)

lemma speaks_step:
  assumes "step n ev = Some (n', es)" and "node_inv n" and "e \<in> set es"
  shows "speaks n' e"
proof (cases "(n, ev)" rule: step.cases)
  case (1 m t)
  show ?thesis
  proof (cases "role n = Leader")
    case True
    with 1 assms show ?thesis
      by (auto simp: on_tick_def on_leader_tick_def run_simps split: if_splits intro: speaks_broadcast)
  next
    case False
    with 1 assms(1) have "on_tick n t = Some (n', es)" by simp
    from on_tick_campaign [OF this False assms(3)] show ?thesis
      using assms(3) by (auto intro: speaks_start_election)
  qed
next
  case (2 m sender r)
  with assms request_batch_step [of n sender "AppendEntries r" n' es] show ?thesis
    by (auto intro: speaks_request_batch)
next
  case (3 m sender r)
  with assms request_batch_step [of n sender "InstallSnapshot r" n' es] show ?thesis
    by (auto intro: speaks_request_batch)
next
  case (4 m sender r)
  with assms request_batch_step [of n sender "RequestVote r" n' es] show ?thesis
    by (auto intro: speaks_request_batch)
next
  case (5 m sender r)
  with assms show ?thesis
    by (auto simp: on_request_vote_response_def Let_def split: if_splits intro: speaks_become_leader)
next
  case (6 m sender r)
  with assms show ?thesis
    by (auto simp: on_append_entries_response_def run_simps split: if_splits
        intro: speaks_continue dest: advance_writes)
next
  case (7 m sender r)
  with assms show ?thesis
    by (auto simp: on_install_snapshot_response_def run_simps split: if_splits
        intro: speaks_continue dest: advance_writes)
qed

lemma speaks_run_op:
  assumes "run_op n op = Some (n', es)" and "node_inv n" and "e \<in> set es"
  shows "speaks n' e"
proof (cases op)
  case (Op_Event ev)
  with assms show ?thesis by (auto intro: speaks_step)
next
  case (Op_Compact i data)
  with assms show ?thesis by (auto simp: run_simps elim!: compact_cases)
next
  case (Op_Config_Change vs)
  with assms(1,3) have "\<not> is_send e"
    by (auto simp: run_simps propose_config_change_def effects_of_def split: if_splits
        dest: advance_writes [THEN bspec])
  then show ?thesis by (rule speaks_write)
qed (use assms in \<open>auto simp: run_simps propose_def add_learner_def
      remove_learner_def effects_of_def split: if_splits intro: speaks_write dest!: advance_writes\<close>)

text \<open>What a node writes is what it holds.\<close>

fun stores :: "node \<Rightarrow> effect \<Rightarrow> bool" where
  "stores n (PersistLog i es) \<longleftrightarrow> set es \<subseteq> set (log n)"
| "stores n (PersistSnapshot i t data c) \<longleftrightarrow> c = snapshot_config n"
| "stores n _ \<longleftrightarrow> True"

lemma stores_send: "is_send e \<Longrightarrow> stores n e"
  by (cases e) auto

lemma stores_advance:
  "advance_commit_index n = Some (n', es) \<Longrightarrow> (\<forall>e \<in> set es. stores n' e) \<and> set (log n) \<subseteq> set (log n')"
  by (erule advance_commit_index_cases)
     (auto dest!: advance_point_frame push_follow_up_frame
       simp: retire_if_excluded_def retire_from_leadership_def)

lemma stores_continue:
  assumes "continue_replication n sender es = Some (n', es')" and "e \<in> set es'"
    and "\<And>e. e \<in> set es \<Longrightarrow> stores n e"
  shows "stores n' e"
  using continue_effects [OF assms(1,2)] continue_replication_frame [OF assms(1)] assms(3)
  by (auto intro: stores_send)

lemma stores_start_election:
  "start_election n t = Some (n', es) \<Longrightarrow> e \<in> set es \<Longrightarrow> stores n' e"
  by (erule start_election_cases)
     (fastforce dest: become_leader_sends [THEN bspec] intro: stores_send)+

lemma stores_step:
  assumes "step n ev = Some (n', es)" and "node_inv n" and "e \<in> set es"
  shows "stores n' e"
proof (cases "(n, ev)" rule: step.cases)
  case (1 m t)
  show ?thesis
  proof (cases "role n = Leader")
    case True
    with 1 assms show ?thesis
      by (auto simp: on_tick_def on_leader_tick_def run_simps split: if_splits
          dest: broadcast_sends [THEN bspec] intro: stores_send)
  next
    case False
    with 1 assms(1) have "on_tick n t = Some (n', es)" by simp
    from on_tick_campaign [OF this False assms(3)] show ?thesis
      using assms(3) by (auto intro: stores_start_election)
  qed
next
  case (2 m sender r)
  with assms show ?thesis
    by (auto split: if_splits option.splits elim!: on_append_entries_cases
        simp: persist_hard_state_def reject_append_entries_def set_drop_subset)
next
  case (3 m sender r)
  with assms show ?thesis
    by (auto split: if_splits elim!: on_install_snapshot_cases simp: persist_hard_state_def)
next
  case (4 m sender r)
  with assms show ?thesis
    by (auto split: if_splits elim!: on_request_vote_cases simp: reject_vote_def)
next
  case (5 m sender r)
  with assms show ?thesis
    by (auto simp: on_request_vote_response_def Let_def split: if_splits
        dest: become_leader_sends [THEN bspec] intro: stores_send)
next
  case (6 m sender r)
  with assms show ?thesis
    by (auto simp: on_append_entries_response_def run_simps split: if_splits
        intro: stores_continue dest: stores_advance)
next
  case (7 m sender r)
  with assms show ?thesis
    by (auto simp: on_install_snapshot_response_def run_simps split: if_splits
        intro: stores_continue dest: stores_advance)
qed

lemma stores_compact:
  "compact n i data = Some (n', Inr es) \<Longrightarrow> e \<in> set es \<Longrightarrow> stores n' e"
  by (erule compact_cases) (auto simp: compacted_def Let_def)

lemma stores_run_op:
  assumes "run_op n op = Some (n', es)" and "node_inv n" and "e \<in> set es"
  shows "stores n' e"
proof (cases op)
  case (Op_Event ev)
  with assms show ?thesis by (auto intro: stores_step)
next
  case (Op_Compact i data)
  with assms obtain res where res: "compact n i data = Some (n', res)"
    "es = (case res of Inl _ \<Rightarrow> [] | Inr effects \<Rightarrow> effects)" by (auto simp: bind_eq_Some_conv)
  with assms(3) show ?thesis by (cases res) (auto dest: stores_compact)
next
  case (Op_Config_Change vs)
  with assms show ?thesis
    by (auto simp: run_simps propose_config_change_def effects_of_def split: if_splits
        dest!: recompute_config_eq_Some stores_advance)
next
  case (Op_Propose c)
  with assms show ?thesis
    by (auto simp: run_simps propose_def effects_of_def split: if_splits
        dest!: recompute_config_eq_Some stores_advance)
qed (use assms in \<open>auto simp: run_simps add_learner_def remove_learner_def Let_def split: if_splits\<close>)

section \<open>Campaigns\<close>

text \<open>How an operation may leave a node standing: it was standing in the same term with the same
  votes, it opened a new campaign with its own vote, or a granted vote for its term arrived. Only
  a quorum of votes makes a leader.\<close>

definition stays :: "node \<Rightarrow> node \<Rightarrow> bool" where
  "stays n n' \<longleftrightarrow> role n \<noteq> Follower \<and> current_term n' = current_term n \<and>
     votes_granted n' = votes_granted n \<and> role n' = role n"

definition opens :: "node \<Rightarrow> node \<Rightarrow> bool" where
  "opens n n' \<longleftrightarrow> is_voter (current_config n) (nid n) \<and> votes_granted n' = {nid n} \<and>
     voted_for n' = Some (nid n) \<and> (role n' = Leader \<longrightarrow> has_quorum n')"

definition gains :: "node \<Rightarrow> operation \<Rightarrow> node \<Rightarrow> bool" where
  "gains n op n' \<longleftrightarrow>
     (\<exists>v. op = Op_Event (Step v (RequestVoteResponse \<lparr>rvr_term = current_term n, granted = True\<rparr>)) \<and>
        role n \<noteq> Follower \<and> current_term n' = current_term n \<and>
        votes_granted n' = insert v (votes_granted n) \<and> (role n' = Leader \<longrightarrow> has_quorum n'))"

definition campaign :: "node \<Rightarrow> operation \<Rightarrow> node \<Rightarrow> bool" where
  "campaign n op n' \<longleftrightarrow> role n' = Follower \<or> stays n n' \<or> opens n n' \<or> gains n op n'"

lemma has_quorum_same: "votes_granted n' = votes_granted n \<Longrightarrow> current_config n' = current_config n \<Longrightarrow>
    has_quorum n' = has_quorum n"
  by (simp add: has_quorum_def quorum_size_def cong: option.case_cong)

lemma become_leader_frame:
  "become_leader n = Some (n', es) \<Longrightarrow> votes_granted n' = votes_granted n \<and>
     current_config n' = current_config n \<and> has_quorum n' = has_quorum n \<and>
     current_term n' = current_term n \<and> voted_for n' = voted_for n"
  by (auto simp: become_leader_def run_simps intro!: has_quorum_same
      elim: has_quorum_same [THEN iffD1, rotated 2])

lemma opens_start_election:
  "start_election n t = Some (n', es) \<Longrightarrow> n' = n \<or> opens n n'"
proof (erule start_election_cases)
  fix m es' assume "is_voter (current_config n) (nid n)" "has_quorum m"
    "m = become_candidate n (current_term n + 1) t" "become_leader m = Some (n', es')"
  with become_leader_frame [of m n' es'] show ?thesis by (simp add: opens_def become_candidate_def)
qed (simp_all add: opens_def become_candidate_def)

lemma campaign_same: "role n' = role n \<Longrightarrow> current_term n' = current_term n \<Longrightarrow>
    votes_granted n' = votes_granted n \<Longrightarrow> campaign n op n'"
  by (auto simp: campaign_def stays_def)

lemma campaign_follower: "role n' = Follower \<Longrightarrow> campaign n op n'"
  by (simp add: campaign_def)

lemma campaign_advance:
  assumes "advance_commit_index n = Some (n', es)"
  shows "role n' = Follower \<or>
    role n' = role n \<and> current_term n' = current_term n \<and> votes_granted n' = votes_granted n"
proof -
  let ?P = "\<lambda>m. role m = Follower \<or>
      role m = role n \<and> current_term m = current_term n \<and> votes_granted m = votes_granted n"
  show "?P n'"
  proof (rule advance_commit_index_preserves [OF assms, where P = ?P])
    show "?P y" if "advance_point x = Some y" "?P x" for x y
      using advance_point_frame [OF that(1)] that(2) by (elim exE conjE) simp
    show "?P y" if "push_follow_up x = Some (y, e)" "?P x" for x y e
      using push_follow_up_frame [OF that(1)] that(2) by simp
  qed (simp_all add: retire_from_leadership_def)
qed

lemma campaign_on_tick:
  assumes "on_tick n t = Some (n', es)"
  shows "campaign n op n'"
proof (cases "role n = Leader")
  case True
  with assms show ?thesis
    by (auto simp: on_tick_def on_leader_tick_def run_simps split: if_splits intro!: campaign_same)
next
  case False
  from on_tick_follower [OF assms this] obtain m where m: "m = n\<lparr>election_elapsed := election_elapsed n + 1,
      leader_contact_elapsed := leader_contact_elapsed n + 1\<rparr>"
    and "n' = m \<and> es = [] \<or> start_election m t = Some (n', es)" .
  then have "n' = m \<or> opens m n'" by (auto dest: opens_start_election)
  then show ?thesis
  proof
    assume "n' = m"
    with m show ?thesis by (intro campaign_same) simp_all
  next
    assume "opens m n'"
    with m have "opens n n'" by (simp add: opens_def)
    then show ?thesis by (simp add: campaign_def)
  qed
qed

lemma role_observe_leader: "role (observe_leader n t) = Follower \<or>
    role (observe_leader n t) = role n \<and> votes_granted (observe_leader n t) = votes_granted n \<and>
    (current_term n \<le> t \<longrightarrow> t = current_term n)"
  by (auto simp: observe_leader_def step_down_def Let_def)

lemma campaign_observed:
  assumes "current_term n \<le> t" and "role n' = role (observe_leader n t)"
    and "votes_granted n' = votes_granted (observe_leader n t)"
    and "current_term n' = t"
  shows "campaign n op n'"
  using role_observe_leader [of n t] assms by (auto simp: campaign_def stays_def)

lemma campaign_on_request_vote:
  assumes "on_request_vote n sender r = Some (n', es)"
  shows "campaign n op n'"
  using assms
proof (cases rule: on_request_vote_cases)
  case refused
  then show ?thesis by (intro campaign_same) simp_all
next
  case (answered m grant)
  show ?thesis
  proof (cases "current_term n < rv_term r")
    case True
    with answered(4,6) show ?thesis by (intro campaign_follower) (simp add: step_down_def)
  next
    case False
    with answered(4,6) show ?thesis by (intro campaign_same) simp_all
  qed
qed

lemma campaign_step:
  assumes "step n ev = Some (n', es)" and "node_inv n"
  shows "campaign n (Op_Event ev) n'"
proof (cases "(n, ev)" rule: step.cases)
  case (1 m t)
  with assms show ?thesis by (auto intro: campaign_on_tick)
next
  case (2 m sender r)
  with assms show ?thesis
    by (auto split: if_splits elim!: on_append_entries_cases intro: campaign_same campaign_observed
        simp: accepted_def Let_def observe_leader_vote)
next
  case (3 m sender r)
  with assms show ?thesis
    by (auto split: if_splits elim!: on_install_snapshot_cases intro: campaign_same campaign_observed
        simp: observe_leader_vote)
next
  case (4 m sender r)
  with assms(1) have "on_request_vote n sender r = Some (n', es) \<or> n' = n"
    by (auto split: if_splits)
  then show ?thesis by (auto intro: campaign_on_request_vote campaign_same)
next
  case (5 m sender r)
  have "r = \<lparr>rvr_term = current_term n, granted = True\<rparr>"
    if "rvr_term r = current_term n" "granted r" using that by simp
  with 5 assms show ?thesis
    by (auto simp: on_request_vote_response_def Let_def step_down_def split: if_splits
        intro: campaign_same campaign_follower dest!: become_leader_frame)
       (auto simp: campaign_def gains_def)
next
  case (6 m sender r)
  with assms show ?thesis
    by (auto simp: on_append_entries_response_def run_simps step_down_def split: if_splits
        intro: campaign_same campaign_follower dest!: continue_replication_frame campaign_advance)
next
  case (7 m sender r)
  with assms show ?thesis
    by (auto simp: on_install_snapshot_response_def run_simps step_down_def split: if_splits
        intro: campaign_same campaign_follower dest!: continue_replication_frame campaign_advance)
qed

lemma campaign_run_op:
  assumes "run_op n op = Some (n', es)" and "node_inv n"
  shows "campaign n op n'"
proof (cases op)
  case (Op_Event ev)
  with assms show ?thesis by (auto intro: campaign_step)
next
  case (Op_Compact i data)
  with assms(1) show ?thesis
    by (auto simp: run_simps elim!: compact_cases intro!: campaign_same)
       (simp_all add: compacted_def Let_def)
qed (use assms in \<open>auto simp: run_simps propose_def propose_config_change_def add_learner_def
      remove_learner_def Let_def split: if_splits intro: campaign_same campaign_follower
      dest!: recompute_config_eq_Some campaign_advance\<close>)

section \<open>The cluster\<close>

text \<open>Every node with its disk, and what each has sent. Two history variables remember what the
  states forget: \<open>cast\<close> the votes that were ever on a disk, as voter, term and candidate, and
  \<open>won\<close> the terms in which a node was ever leader.\<close>

record world =
  nodes :: "node_id \<Rightarrow> node"
  disks :: "node_id \<Rightarrow> durable_state"
  sent :: "node_id \<Rightarrow> effect set"
  cast :: "(node_id \<times> u64 \<times> node_id) set"
  won :: "(u64 \<times> node_id) set"

definition disk_vote :: "node_id \<Rightarrow> durable_state \<Rightarrow> (node_id \<times> u64 \<times> node_id) set" where
  "disk_vote i d = (case hs_voted_for (ds_hard_state d) of None \<Rightarrow> {}
     | Some c \<Rightarrow> {(i, hs_current_term (ds_hard_state d), c)})"

definition leads :: "node \<Rightarrow> (u64 \<times> node_id) set" where
  "leads n = (if role n = Leader then {(current_term n, nid n)} else {})"

definition carry_out :: "node_id \<Rightarrow> node \<Rightarrow> durable_state \<Rightarrow> effect list \<Rightarrow> world \<Rightarrow> world" where
  "carry_out i n d es w = w\<lparr>nodes := (nodes w)(i := n), disks := (disks w)(i := d),
     sent := (sent w)(i := sent w i \<union> set (filter is_send es)),
     cast := cast w \<union> disk_vote i d, won := won w \<union> leads n\<rparr>"

text \<open>A message is handled only if its sender sent it to this node; the network may drop, delay,
  reorder and duplicate. The membership is the bootstrap one: no change is proposed.\<close>

fun authentic :: "world \<Rightarrow> node_id \<Rightarrow> operation \<Rightarrow> bool" where
  "authentic w i (Op_Event (Step j m)) \<longleftrightarrow> Send i m \<in> sent w j"
| "authentic w i (Op_Config_Change _) \<longleftrightarrow> False"
| "authentic w i _ \<longleftrightarrow> True"

inductive cluster :: "node_id list \<Rightarrow> world \<Rightarrow> bool" for V where
  boot: "(\<And>i. i \<in> set V \<Longrightarrow> \<exists>timeout heartbeat. new_node i V timeout heartbeat = Some (Inr (N i))) \<Longrightarrow>
     (\<And>i. i \<notin> set V \<Longrightarrow> \<exists>timeout heartbeat. new_learner i timeout heartbeat = Inr (N i)) \<Longrightarrow>
     cluster V \<lparr>nodes = N, disks = (\<lambda>_. default_durable_state), sent = (\<lambda>_. {}), cast = {}, won = {}\<rparr>"
| operate: "cluster V w \<Longrightarrow> authentic w i op \<Longrightarrow> run_op (nodes w i) op = Some (n', es) \<Longrightarrow>
     durable_apply_all (disks w i) es = Some d' \<Longrightarrow> cluster V (carry_out i n' d' es w)"
| crash: "cluster V w \<Longrightarrow> authentic w i op \<Longrightarrow> run_op (nodes w i) op = Some (n', es) \<Longrightarrow>
     durable_apply_all (disks w i) (take k es) = Some d' \<Longrightarrow> image_ok d' \<Longrightarrow>
     recover_from d' i V timeout heartbeat = Some (Inr m) \<Longrightarrow>
     cluster V (carry_out i m d' (take k es) w)"

abbreviation config_of :: "node_id list \<Rightarrow> cluster_config" where
  "config_of V \<equiv> \<lparr>voters = V, old_voters = None\<rparr>"

text \<open>The invariant, one node at a time: what it holds, how its votes stand to the history, how
  its campaign stands to it, and what its messages carry.\<close>

definition node_sound :: "node_id list \<Rightarrow> node_id \<Rightarrow> node \<Rightarrow> bool" where
  "node_sound V i n \<longleftrightarrow> nid n = i \<and> steady n \<and>
     (snapshot_config n = config_of V \<or> snapshot_config n = config_of [] \<and> i \<notin> set V)"

definition votes_sound :: "(node_id \<times> u64 \<times> node_id) set \<Rightarrow> node_id \<Rightarrow> node \<Rightarrow> bool" where
  "votes_sound C i n \<longleftrightarrow> (\<forall>t c. (i, t, c) \<in> C \<longrightarrow>
     (t < current_term n \<or> t = current_term n \<and> voted_for n = Some c) \<and>
     (\<forall>c'. (i, t, c') \<in> C \<longrightarrow> c' = c))"

definition campaign_sound ::
    "node_id list \<Rightarrow> (node_id \<times> u64 \<times> node_id) set \<Rightarrow> node_id \<Rightarrow> node \<Rightarrow> bool" where
  "campaign_sound V C i n \<longleftrightarrow>
     (role n \<noteq> Follower \<longrightarrow> i \<in> set V \<and> votes_granted n \<subseteq> set V \<and>
        (\<forall>v \<in> votes_granted n. (v, current_term n, i) \<in> C)) \<and>
     (role n = Leader \<longrightarrow> majority V (votes_granted n))"

fun message_sound ::
    "node_id list \<Rightarrow> (node_id \<times> u64 \<times> node_id) set \<Rightarrow> node_id \<Rightarrow> effect \<Rightarrow> bool" where
  "message_sound V C i (Send to (RequestVote r)) \<longleftrightarrow> to \<in> set V"
| "message_sound V C i (Send to (RequestVoteResponse r)) \<longleftrightarrow>
     (granted r \<longrightarrow> i \<in> set V \<and> (i, rvr_term r, to) \<in> C)"
| "message_sound V C i (Send to m) \<longleftrightarrow> steady_message (config_of V) m"
| "message_sound V C i e \<longleftrightarrow> True"

definition won_sound ::
    "node_id list \<Rightarrow> (node_id \<times> u64 \<times> node_id) set \<Rightarrow> (u64 \<times> node_id) set \<Rightarrow> bool" where
  "won_sound V C W \<longleftrightarrow> (\<forall>(t, i) \<in> W. \<exists>Q. majority V Q \<and> (\<forall>v \<in> Q. (v, t, i) \<in> C))"

definition cluster_inv :: "node_id list \<Rightarrow> world \<Rightarrow> bool" where
  "cluster_inv V w \<longleftrightarrow>
     (\<forall>i. persisted (disks w i) (nodes w i) \<and> node_sound V i (nodes w i) \<and>
        votes_sound (cast w) i (nodes w i) \<and> campaign_sound V (cast w) i (nodes w i) \<and>
        leads (nodes w i) \<subseteq> won w \<and>
        (\<forall>e \<in> sent w i. message_sound V (cast w) i e)) \<and>
     won_sound V (cast w) (won w)"

lemma message_sound_mono: "message_sound V C i e \<Longrightarrow> C \<subseteq> C' \<Longrightarrow> message_sound V C' i e"
  by (cases "(V, C, i, e)" rule: message_sound.cases) auto

lemma campaign_sound_mono: "campaign_sound V C i n \<Longrightarrow> C \<subseteq> C' \<Longrightarrow> campaign_sound V C' i n"
  by (auto simp: campaign_sound_def)

lemma won_sound_mono: "won_sound V C W \<Longrightarrow> C \<subseteq> C' \<Longrightarrow> won_sound V C' W"
  unfolding won_sound_def by (fastforce split: prod.splits)

lemma votes_sound_other: "votes_sound C j n \<Longrightarrow> i \<noteq> j \<Longrightarrow> votes_sound (C \<union> disk_vote i d) j n"
  by (auto simp: votes_sound_def disk_vote_def split: option.splits)

text \<open>A node whose image holds the old or the new hard state keeps its votes sound.\<close>

lemma votes_sound_own:
  assumes "votes_sound C i n" and "persisted d n" and "vote_order n n'"
    and "ds_hard_state d' = ds_hard_state d \<or>
      ds_hard_state d' = \<lparr>hs_current_term = current_term n', hs_voted_for = voted_for n'\<rparr>"
    and "persisted d' m"
  shows "votes_sound (C \<union> disk_vote i d') i m"
proof -
  have m: "current_term m = hs_current_term (ds_hard_state d')" "voted_for m = hs_voted_for (ds_hard_state d')"
    using assms(5) by (simp_all add: persisted_def)
  have "vote_order n m"
    using assms(2,3,4) m by (auto simp: persisted_def vote_order_def)
  then have old: "t < current_term m \<or> t = current_term m \<and> voted_for m = Some c" if "(i, t, c) \<in> C" for t c
    using that assms(1) by (fastforce simp: votes_sound_def vote_order_def)
  have new: "(i, t, c) \<in> disk_vote i d' \<longleftrightarrow> t = current_term m \<and> voted_for m = Some c" for t c
    by (auto simp: disk_vote_def m split: option.splits)
  have same: "c' = c" if "(i, t, c) \<in> C" "(i, t, c') \<in> C" for t c c'
    using that assms(1) by (simp add: votes_sound_def)
  show ?thesis
    unfolding votes_sound_def Un_iff new using old same by (metis less_irrefl option.inject)
qed

lemma won_sound_leads:
  assumes "won_sound V C W" and "campaign_sound V C i n" and "nid n = i"
  shows "won_sound V C (W \<union> leads n)"
  using assms by (auto simp: won_sound_def leads_def campaign_sound_def)

text \<open>One node moves, the others stay: the invariant follows from what the moving node does.\<close>

lemma cluster_inv_carry_out:
  assumes inv: "cluster_inv V w" and order: "vote_order (nodes w i) n'"
    and hard: "ds_hard_state d' = ds_hard_state (disks w i) \<or>
      ds_hard_state d' = \<lparr>hs_current_term = current_term n', hs_voted_for = voted_for n'\<rparr>"
    and m: "persisted d' m" "node_sound V i m"
    and camp: "campaign_sound V (cast w \<union> disk_vote i d') i m"
    and msgs: "\<And>e. e \<in> set es \<Longrightarrow> message_sound V (cast w \<union> disk_vote i d') i e"
  shows "cluster_inv V (carry_out i m d' es w)"
proof -
  let ?C = "cast w \<union> disk_vote i d'"
  note old = inv [unfolded cluster_inv_def]
  have own: "votes_sound ?C i m"
    using old order hard m(1) by (intro votes_sound_own [of _ i "nodes w i" "disks w i" n']) auto
  have others: "votes_sound ?C j (nodes w j) \<and> campaign_sound V ?C j (nodes w j)" if "j \<noteq> i" for j
    using old that by (auto intro: votes_sound_other campaign_sound_mono)
  have "won_sound V ?C (won w \<union> leads m)"
    using old camp m(2) by (intro won_sound_leads [of _ _ _ i]) (auto intro: won_sound_mono simp: node_sound_def)
  moreover have "message_sound V ?C j e" if "e \<in> sent w j" for j e
    using old that by (auto intro: message_sound_mono)
  ultimately show ?thesis
    using old own others m camp msgs by (auto simp: cluster_inv_def carry_out_def)
qed

lemma granted_start_election:
  assumes "start_election n t = Some (n', es)" and "Send to (RequestVoteResponse r) \<in> set es" and "granted r"
  shows False
  using assms(1)
proof (cases rule: start_election_cases)
  case (elected m es')
  with assms(2,3) become_leader_no_vote [OF elected(4)] show ?thesis by fastforce
next
  case (campaign m es')
  with assms(2) campaign(5) [of "Send to (RequestVoteResponse r)"] show ?thesis by auto
qed (use assms(2) in simp)

lemma granted_batch:
  assumes "request_batch sender m es" and "Send to (RequestVoteResponse r) \<in> set es"
  shows "to = sender \<and> (\<exists>q. m = RequestVote q)"
proof -
  from assms(1) obtain ws reply where es: "es = ws @ [Send sender reply]" and ws: "list_all is_write ws"
    and reply: "replies_to m reply" unfolding request_batch_def by blast
  have "Send to (RequestVoteResponse r) \<notin> set ws" using ws by (auto simp: list_all_iff dest: bspec)
  with assms(2) es reply show ?thesis by (auto elim: replies_to.elims)
qed

lemma granted_step:
  assumes "step n ev = Some (n', es)" and "node_inv n"
    and "Send to (RequestVoteResponse r) \<in> set es" and "granted r"
  shows "\<exists>q. ev = Step to (RequestVote q)"
proof (cases "(n, ev)" rule: step.cases)
  case (1 m t)
  show ?thesis
  proof (cases "role n = Leader")
    case True
    with 1 assms have False
      by (auto simp: on_tick_def on_leader_tick_def run_simps split: if_splits dest: broadcast_no_vote)
    then show ?thesis ..
  next
    case False
    with 1 assms(1) have "on_tick n t = Some (n', es)" by simp
    from on_tick_campaign [OF this False assms(3)] assms(3,4) show ?thesis
      by (auto dest: granted_start_election)
  qed
next
  case (2 m sender q)
  with assms request_batch_step [of n sender "AppendEntries q" n' es] show ?thesis
    by (auto dest: granted_batch)
next
  case (3 m sender q)
  with assms request_batch_step [of n sender "InstallSnapshot q" n' es] show ?thesis
    by (auto dest: granted_batch)
next
  case (4 m sender q)
  with assms request_batch_step [of n sender "RequestVote q" n' es] show ?thesis
    by (auto dest: granted_batch)
next
  case (5 m sender q)
  with assms show ?thesis
    by (auto simp: on_request_vote_response_def Let_def split: if_splits dest: become_leader_no_vote)
next
  case (6 m sender q)
  with assms show ?thesis
    by (auto simp: on_append_entries_response_def run_simps split: if_splits
        dest: continue_effects advance_effects)
next
  case (7 m sender q)
  with assms show ?thesis
    by (auto simp: on_install_snapshot_response_def run_simps split: if_splits
        dest: continue_effects advance_effects)
qed

lemma granted_run_op:
  assumes "run_op n op = Some (n', es)" and "node_inv n"
    and "Send to (RequestVoteResponse r) \<in> set es" and "granted r"
  shows "\<exists>q. op = Op_Event (Step to (RequestVote q))"
proof (cases op)
  case (Op_Event ev)
  with assms show ?thesis by (auto dest: granted_step)
next
  case (Op_Compact i data)
  with assms show ?thesis by (auto simp: run_simps elim!: compact_cases)
qed (use assms in \<open>auto simp: run_simps propose_def propose_config_change_def add_learner_def
      remove_learner_def effects_of_def Let_def split: if_splits dest: advance_effects\<close>)


text \<open>The steps of one node of a sound cluster.\<close>

lemma cluster_inv_sent: "cluster_inv V w \<Longrightarrow> e \<in> sent w j \<Longrightarrow> message_sound V (cast w) j e"
  by (simp add: cluster_inv_def)

lemma steady_op_authentic:
  assumes "cluster_inv V w" and "authentic w i op"
  shows "steady_op (config_of V) op"
proof (cases "(w, i, op)" rule: authentic.cases)
  case (1 _ _ j m)
  with assms have "message_sound V (cast w) j (Send i m)" by (auto intro: cluster_inv_sent)
  with 1 show ?thesis by (cases m) auto
qed (use assms(2) in auto)

lemma cluster_inv_node:
  "cluster_inv V w \<Longrightarrow> persisted (disks w i) (nodes w i) \<and> node_inv (nodes w i) \<and>
     node_sound V i (nodes w i) \<and> campaign_sound V (cast w) i (nodes w i)"
  by (auto simp: cluster_inv_def node_sound_def steady_def)

lemma node_sound_run_op:
  assumes "cluster_inv V w" and "authentic w i op" and "run_op (nodes w i) op = Some (n', es)"
  shows "node_sound V i n'"
  using steady_run_op [OF assms(3) _ steady_op_authentic [OF assms(1,2)]] nid_run_op [OF assms(3)]
    cluster_inv_node [OF assms(1), of i] by (auto simp: node_sound_def)

lemma node_sound_config:
  "node_sound V i n \<Longrightarrow> i \<in> set V \<Longrightarrow> current_config n = config_of V \<and> snapshot_config n = config_of V"
  by (auto simp: node_sound_def dest: steady_config)

lemma node_sound_voter: "node_sound V i n \<Longrightarrow> is_voter (current_config n) i \<Longrightarrow> i \<in> set V"
  by (auto simp: node_sound_def is_voter_def dest: steady_config)

lemma standing_voter:
  assumes "cluster_inv V w" and "run_op (nodes w i) op = Some (n', es)" and "role n' \<noteq> Follower"
  shows "i \<in> set V"
proof -
  note n = cluster_inv_node [OF assms(1), of i]
  from campaign_run_op [OF assms(2)] n assms(3)
  consider "role (nodes w i) \<noteq> Follower" | "is_voter (current_config (nodes w i)) i"
    by (auto simp: campaign_def stays_def opens_def gains_def node_sound_def)
  then show ?thesis using n by cases (auto simp: campaign_sound_def intro: node_sound_voter)
qed

lemma message_sound_run_op:
  assumes "cluster_inv V w" and "authentic w i op" and run: "run_op (nodes w i) op = Some (n', es)"
    and disk: "durable_apply_all (disks w i) (take k es) = Some d'" and e: "e \<in> set (take k es)"
  shows "message_sound V (cast w \<union> disk_vote i d') i e"
proof -
  note n = cluster_inv_node [OF assms(1), of i]
  note n' = node_sound_run_op [OF assms(1,2) run]
  have speaks: "speaks n' e" using speaks_run_op [OF run] n in_set_takeD [OF e] by blast
  have config: "current_config n' = config_of V \<and> snapshot_config n' = config_of V"
    if "role n' \<noteq> Follower"
    using node_sound_config [OF n' standing_voter [OF assms(1) run that]] .
  have commands: "\<forall>x \<in> set (log n'). is_command x"
    using n' by (simp add: node_sound_def steady_def list_all_iff)
  show ?thesis
  proof (cases "(V, cast w, i, e)" rule: message_sound.cases)
    case (2 _ _ _ to r)
    show ?thesis
    proof (cases "granted r")
      case True
      with n 2 obtain q where "op = Op_Event (Step to (RequestVote q))"
        using granted_run_op [OF run] in_set_takeD [OF e] by blast
      with assms(2) have "message_sound V (cast w) to (Send i (RequestVote q))"
        by (intro cluster_inv_sent [OF assms(1)]) simp
      moreover have "ds_hard_state d' = \<lparr>hs_current_term = rvr_term r, hs_voted_for = Some to\<rparr>"
        using vote_discipline_run_op [OF run] n 2 True
        by (intro vote_written [OF _ disk e]) auto
      ultimately show ?thesis using 2 by (simp add: disk_vote_def)
    qed (use 2 in simp)
  qed (use speaks config commands in \<open>auto simp: list_all_iff\<close>)
qed

lemma quorum_majority:
  assumes "node_sound V i n" and "i \<in> set V" and "votes_granted n \<subseteq> set V" and "has_quorum n"
  shows "majority V (votes_granted n)"
  using assms(3,4) node_sound_config [OF assms(1,2)]
  by (simp add: majority_def has_quorum_def quorum_size_def)

lemma campaign_sound_run_op:
  assumes "cluster_inv V w" and "authentic w i op" and run: "run_op (nodes w i) op = Some (n', es)"
    and d': "persisted d' n'"
  shows "campaign_sound V (cast w \<union> disk_vote i d') i n'"
proof (cases "role n' = Follower")
  case False
  note n = cluster_inv_node [OF assms(1), of i]
  note n' = node_sound_run_op [OF assms(1,2) run]
  note V = standing_voter [OF assms(1) run False]
  note quorum = quorum_majority [OF n' V]
  from campaign_run_op [OF run] n False consider (stays) "stays (nodes w i) n'"
    | (opens) "opens (nodes w i) n'" | (gains) "gains (nodes w i) op n'"
    by (auto simp: campaign_def)
  then show ?thesis
  proof cases
    case stays
    with n show ?thesis by (auto simp: stays_def campaign_sound_def)
  next
    case opens
    with n have "votes_granted n' = {i}" "voted_for n' = Some i"
      by (auto simp: opens_def node_sound_def)
    with d' have "(i, current_term n', i) \<in> disk_vote i d'" by (simp add: disk_vote_def persisted_def)
    with opens V quorum \<open>votes_granted n' = {i}\<close> show ?thesis by (simp add: campaign_sound_def opens_def)
  next
    case gains
    then obtain v where v: "op = Op_Event (Step v (RequestVoteResponse
        \<lparr>rvr_term = current_term (nodes w i), granted = True\<rparr>))"
      "role (nodes w i) \<noteq> Follower" "current_term n' = current_term (nodes w i)"
      "votes_granted n' = insert v (votes_granted (nodes w i))" "role n' = Leader \<longrightarrow> has_quorum n'"
      by (auto simp: gains_def)
    with assms(2) have "message_sound V (cast w) v (Send i (RequestVoteResponse
        \<lparr>rvr_term = current_term (nodes w i), granted = True\<rparr>))"
      by (intro cluster_inv_sent [OF assms(1)]) simp
    with n v V quorum show ?thesis by (auto simp: campaign_sound_def)
  qed
qed (simp add: campaign_sound_def)

text \<open>What a crashed voter reads back: commands only, under the bootstrap configuration.\<close>

definition image_steady :: "node_id list \<Rightarrow> durable_state \<Rightarrow> bool" where
  "image_steady V d \<longleftrightarrow> list_all is_command (ds_log d) \<and>
     (0 < last_included_index (ds_snapshot d) \<longrightarrow> ds_snapshot_config d = config_of V)"

lemma image_steady_apply:
  assumes "durable_apply d e = Some d'" and "image_steady V d" and "stores n e"
    and "steady n" and "snapshot_config n = config_of V"
  shows "image_steady V d'"
proof (cases e)
  case (PersistLog i es)
  with assms have "list_all is_command es" by (auto simp: steady_def list_all_iff)
  with PersistLog assms(1,2) show ?thesis
    by (auto simp: image_steady_def bind_eq_Some_conv list_all_take_drop split: if_splits)
qed (use assms in \<open>auto simp: image_steady_def bind_eq_Some_conv split: if_splits\<close>)

lemma image_steady_apply_all:
  assumes "durable_apply_all d es = Some d'" and "image_steady V d" and "\<And>e. e \<in> set es \<Longrightarrow> stores n e"
    and "steady n" and "snapshot_config n = config_of V"
  shows "image_steady V d'"
  using assms(1-3)
proof (induction es arbitrary: d)
  case (Cons e es)
  from Cons.prems(1) obtain x where x: "durable_apply d e = Some x" "durable_apply_all x es = Some d'"
    by (auto simp: bind_eq_Some_conv)
  with Cons image_steady_apply [OF x(1) _ _ assms(4,5)] show ?case by simp
qed simp

lemma node_sound_recovered:
  assumes "recover_from d i V timeout heartbeat = Some (Inr m)" and "image_ok d" and "image_steady V d"
  shows "node_sound V i m"
proof -
  have "node_inv m" using assms(1,2) by (auto intro: recover_from_inv simp: image_ok_def)
  with assms show ?thesis
    unfolding recover_from_def
    by (auto dest!: recover_Inr(1) simp: recovered_def node_sound_def steady_def image_steady_def
        bootstrap_config_def durable_snapshot_def Let_def)
qed

lemma new_learner_fields:
  "new_learner i timeout heartbeat = Inr n \<Longrightarrow>
     nid n = i \<and> role n = Follower \<and> log n = [] \<and> snapshot_config n = config_of []"
  by (auto simp: new_learner_def Let_def split: if_splits)

lemma cluster_inv_boot:
  assumes "\<And>i. i \<in> set V \<Longrightarrow> \<exists>timeout heartbeat. new_node i V timeout heartbeat = Some (Inr (N i))"
    and "\<And>i. i \<notin> set V \<Longrightarrow> \<exists>timeout heartbeat. new_learner i timeout heartbeat = Inr (N i)"
  shows "cluster_inv V \<lparr>nodes = N, disks = (\<lambda>_. default_durable_state), sent = (\<lambda>_. {}), cast = {}, won = {}\<rparr>"
proof -
  have "persisted default_durable_state (N i) \<and> node_inv (N i)" for i
    using assms [of i] lifecycle.boot [of i] lifecycle.join [of i] lifecycle_persisted [of i "N i"]
    by (cases "i \<in> set V") blast+
  moreover have "role (N i) = Follower" for i
    using assms [of i]
    by (cases "i \<in> set V") (auto simp: new_node_def recovered_def Let_def
        dest!: recover_Inr(1) dest: new_learner_fields)
  moreover have "node_sound V i (N i)" for i
  proof (cases "i \<in> set V")
    case True
    with assms(1) obtain timeout heartbeat where
      "recover_from default_durable_state i V timeout heartbeat = Some (Inr (N i))"
      unfolding new_node_recover_from by blast
    then show ?thesis
      by (rule node_sound_recovered)
         (simp_all add: image_ok_def image_steady_def default_durable_state_def default_metadata_def)
  next
    case False
    with assms(2) obtain timeout heartbeat where "new_learner i timeout heartbeat = Inr (N i)" by blast
    from False \<open>persisted default_durable_state (N i) \<and> node_inv (N i)\<close> new_learner_fields [OF this]
    show ?thesis by (simp add: node_sound_def steady_def)
  qed
  ultimately show ?thesis
    by (simp add: cluster_inv_def votes_sound_def campaign_sound_def leads_def won_sound_def)
qed

lemma cluster_inv_operate:
  assumes inv: "cluster_inv V w" and auth: "authentic w i op"
    and run: "run_op (nodes w i) op = Some (n', es)" and disk: "durable_apply_all (disks w i) es = Some d'"
  shows "cluster_inv V (carry_out i n' d' es w)"
proof -
  note n = cluster_inv_node [OF inv, of i]
  have disc: "vote_discipline (nodes w i) es n'" using vote_discipline_run_op [OF run] n by blast
  have d': "persisted d' n'" using persistsD [OF persists_run_op [OF run], of "disks w i"] n disk by auto
  show ?thesis
  proof (rule cluster_inv_carry_out [OF inv])
    show "vote_order (nodes w i) n'" using disc by (simp add: vote_discipline_def)
    show "ds_hard_state d' = ds_hard_state (disks w i) \<or>
      ds_hard_state d' = \<lparr>hs_current_term = current_term n', hs_voted_for = voted_for n'\<rparr>"
      using d' by (simp add: persisted_def)
    show "persisted d' n'" "node_sound V i n'" by (fact d' node_sound_run_op [OF inv auth run])+
    show "campaign_sound V (cast w \<union> disk_vote i d') i n'" by (rule campaign_sound_run_op [OF inv auth run d'])
    show "message_sound V (cast w \<union> disk_vote i d') i e" if "e \<in> set es" for e
      using message_sound_run_op [OF inv auth run, of "length es"] disk that by simp
  qed
qed

lemma cluster_inv_crash:
  assumes inv: "cluster_inv V w" and auth: "authentic w i op"
    and run: "run_op (nodes w i) op = Some (n', es)"
    and disk: "durable_apply_all (disks w i) (take k es) = Some d'" and ok: "image_ok d'"
    and rec: "recover_from d' i V timeout heartbeat = Some (Inr m)"
  shows "cluster_inv V (carry_out i m d' (take k es) w)"
proof -
  note n = cluster_inv_node [OF inv, of i]
  have disc: "vote_discipline (nodes w i) es n'" using vote_discipline_run_op [OF run] n by blast
  have V: "i \<in> set V" using rec unfolding recover_from_def by (rule recover_Inr(4))
  note n' = node_sound_run_op [OF inv auth run]
  have "snapshot_config (nodes w i) = config_of V" using n node_sound_config V by blast
  moreover have "steady (nodes w i)" using n unfolding node_sound_def by blast
  ultimately have "image_steady V (disks w i)"
    using n by (simp add: image_steady_def persisted_def steady_def)
  then have image: "image_steady V d'"
  proof (rule image_steady_apply_all [OF disk])
    show "stores n' e" if "e \<in> set (take k es)" for e
      using stores_run_op [OF run _ in_set_takeD [OF that]] n by blast
    show "steady n'" using n' by (simp add: node_sound_def)
    show "snapshot_config n' = config_of V" using node_sound_config [OF n' V] by blast
  qed
  show ?thesis
  proof (rule cluster_inv_carry_out [OF inv])
    show "vote_order (nodes w i) n'" using disc by (simp add: vote_discipline_def)
    show "ds_hard_state d' = ds_hard_state (disks w i) \<or>
      ds_hard_state d' = \<lparr>hs_current_term = current_term n', hs_voted_for = voted_for n'\<rparr>"
      using disc by (intro durable_hard_state [OF disk]) (auto simp: vote_discipline_def dest: in_set_takeD)
    show "persisted d' m" by (rule persisted_recover_from [OF rec])
    show "node_sound V i m" by (rule node_sound_recovered [OF rec ok image])
    show "campaign_sound V (cast w \<union> disk_vote i d') i m"
      using rec unfolding recover_from_def
      by (auto dest!: recover_Inr(1) simp: campaign_sound_def recovered_def Let_def)
    show "message_sound V (cast w \<union> disk_vote i d') i e" if "e \<in> set (take k es)" for e
      by (rule message_sound_run_op [OF inv auth run disk that])
  qed
qed

lemma cluster_cluster_inv: "cluster V w \<Longrightarrow> cluster_inv V w"
  by (induction rule: cluster.induct)
     (auto intro: cluster_inv_boot cluster_inv_operate cluster_inv_crash)

lemma one_leader_per_term:
  assumes "cluster V w" and "(t, i) \<in> won w" and "(t, j) \<in> won w"
  shows "i = j"
proof -
  have inv: "cluster_inv V w" by (rule cluster_cluster_inv [OF assms(1)])
  then have won: "\<exists>Q. majority V Q \<and> (\<forall>v \<in> Q. (v, t, x) \<in> cast w)" if "(t, x) \<in> won w" for x
    using that by (auto simp: cluster_inv_def won_sound_def)
  from won [OF assms(2)] obtain A where A: "majority V A" "\<And>v. v \<in> A \<Longrightarrow> (v, t, i) \<in> cast w" by blast
  from won [OF assms(3)] obtain B where B: "majority V B" "\<And>v. v \<in> B \<Longrightarrow> (v, t, j) \<in> cast w" by blast
  have "x = y" if "(v, t, x) \<in> cast w" "(v, t, y) \<in> cast w" for v x y
    using inv that by (auto simp: cluster_inv_def votes_sound_def)
  with majority_quorum.one_winner [OF A(1) B(1), of "\<lambda>v c. (v, t, c) \<in> cast w" i j] A(2) B(2)
  show ?thesis by blast
qed

lemma leader_won:
  assumes "cluster V w" and "role (nodes w i) = Leader"
  shows "(current_term (nodes w i), i) \<in> won w"
proof -
  have "leads (nodes w i) \<subseteq> won w" "nid (nodes w i) = i"
    using cluster_cluster_inv [OF assms(1)] by (simp_all add: cluster_inv_def node_sound_def)
  with assms(2) show ?thesis by (simp add: leads_def)
qed

end
