(* ===== verification/Raft_Agreement.thy ===== *)
theory Raft_Agreement
  imports Raft_Invariant
begin

text \<open>
  What replication achieves: the log a follower has after an accepted batch, read by absolute
  index; that a batch delivered twice changes nothing; that no peer request panics a well-formed
  node; and the commit rule, from the sorted match indices of \<^verbatim>\<open>advance_commit_index\<close> to the
  majorities that hold an entry.
\<close>

section \<open>Replication, end to end\<close>

lemma agree_full:
  "(\<And>i. i < length es \<Longrightarrow> k + i < length L \<and> entry_term (L ! (k + i)) = entry_term (es ! i)) \<Longrightarrow>
     agree L k es = length es"
proof (induction es arbitrary: k)
  case (Cons e es)
  have "k < length L \<and> entry_term (L ! k) = entry_term e" using Cons.prems [of 0] by simp
  moreover have "agree L (Suc k) es = length es"
    using Cons.prems [of "Suc i" for i] by (intro Cons.IH) simp
  ultimately show ?case by simp
qed simp

lemma agree_append_at: "k \<le> length L \<Longrightarrow> agree (append_at L k es) k es = length es"
  using length_append_at [of k L es] append_at_nth_term [of k L _ es] by (intro agree_full) auto

text \<open>The merged log, read at an absolute index.\<close>

lemma merged_log_prefix:
  assumes "prev \<le> boundary n + length (log n)" and "boundary n < i" and "i \<le> prev"
  shows "i - boundary n - 1 < length (merged_log n prev es)"
    and "merged_log n prev es ! (i - boundary n - 1) = log n ! (i - boundary n - 1)"
proof -
  let ?k = "prev - boundary n" and ?es = "drop (boundary n - prev) es"
  have k: "?k \<le> length (log n)" and i: "i - boundary n - 1 < ?k" using assms by auto
  show "i - boundary n - 1 < length (merged_log n prev es)"
    using i length_append_at [OF k, of ?es] by (simp add: merged_log_def)
  have "take ?k (merged_log n prev es) = take ?k (log n)"
    unfolding merged_log_def by (rule take_append_at [OF k])
  with i show "merged_log n prev es ! (i - boundary n - 1) = log n ! (i - boundary n - 1)"
    by (metis nth_take)
qed

lemma merged_log_term:
  assumes "prev \<le> boundary n + length (log n)" and "k < length es" and "boundary n \<le> prev + k"
  shows "prev + k - boundary n < length (merged_log n prev es)"
    and "entry_term (merged_log n prev es ! (prev + k - boundary n)) = entry_term (es ! k)"
proof -
  let ?k = "prev - boundary n" and ?es = "drop (boundary n - prev) es"
  let ?j = "k - (boundary n - prev)"
  have "?k \<le> length (log n)" and j: "?j < length ?es" and eq: "prev + k - boundary n = ?k + ?j"
    and es: "?es ! ?j = es ! k"
    using assms by auto
  from append_at_nth_term [OF this(1,2)] length_append_at [OF this(1), of ?es] j
  show "prev + k - boundary n < length (merged_log n prev es)"
    "entry_term (merged_log n prev es ! (prev + k - boundary n)) = entry_term (es ! k)"
    unfolding merged_log_def eq by (simp_all add: es)
qed

lemma changed_from_merged:
  assumes "prev \<le> boundary n + length (log n)" and "log n' = merged_log n prev es"
    and "boundary n' = boundary n"
  shows "changed_from n' prev es = None"
  using assms agree_append_at [of "prev - boundary n" "log n" "drop (boundary n - prev) es"]
  by (simp add: changed_from_def merged_log_def Let_def)

lemma changed_from_same:
  assumes "prev \<le> boundary n + length (log n)"
    and "\<And>k. k < length es \<Longrightarrow> boundary n \<le> prev + k \<Longrightarrow>
      log_term_at n (prev + k + 1) = Some (entry_term (es ! k))"
  shows "changed_from n prev es = None"
proof -
  let ?k = "prev - boundary n" and ?es = "drop (boundary n - prev) es"
  have "agree (log n) ?k ?es = length ?es"
  proof (rule agree_full)
    fix i assume i: "i < length ?es"
    let ?i = "boundary n - prev + i"
    have "?i < length es" "boundary n \<le> prev + ?i" "?k + i = prev + ?i - boundary n" using i assms(1) by auto
    with assms(2) [of ?i] i show "?k + i < length (log n) \<and> entry_term (log n ! (?k + i)) = entry_term (?es ! i)"
      by (auto simp: log_term_at_def log_entry_at_def split: if_splits) arith
  qed
  then show ?thesis by (simp add: changed_from_def Let_def)
qed

lemma observe_leader_log [simp]:
  "log (observe_leader n t) = log n" "snapshot (observe_leader n t) = snapshot n"
  "commit_index (observe_leader n t) = commit_index n"
  by (simp_all add: observe_leader_def step_down_def Let_def)

text \<open>A successful reply means the batch was accepted.\<close>

lemma append_accepted:
  assumes "on_append_entries n sender r = Some (n', es)" and "node_inv n"
    and "Send to (AppendEntriesResponse a) \<in> set es" and "success a"
  obtains "current_term n \<le> ae_term r" "n' = accepted (observe_leader n (ae_term r)) r"
    "prev_log_index r \<le> boundary n + length (log n)"
    "prev_log_index r \<le> boundary n \<or>
      log_term_at (observe_leader n (ae_term r)) (prev_log_index r) = Some (prev_log_term r)"
    "aer_match_index a = prev_log_index r + length (entries r)" "to = sender"
    "aer_term a = current_term n'" "fits64 (prev_log_index r + length (entries r))"
  using assms(1,2)
proof (cases rule: on_append_entries_cases)
  case stale
  with assms(3,4) show thesis by (auto simp: reject_append_entries_def)
next
  case (mismatch m)
  with assms(3,4) show thesis by (auto simp: reject_append_entries_def persist_hard_state_def)
next
  case (accept m)
  from assms(3) have "to = sender" "a = \<lparr>aer_term = current_term m, success = True,
      aer_match_index = prev_log_index r + length (entries r)\<rparr>"
    unfolding accept(8) by (auto simp: persist_hard_state_def split: option.splits if_splits)
  with accept show thesis by (intro that) (auto simp: accepted_def Let_def)
qed

lemma accepted_frame:
  "log (accepted n r) = merged_log n (prev_log_index r) (entries r)"
  "snapshot (accepted n r) = snapshot n" "current_term (accepted n r) = current_term n"
  by (simp_all add: accepted_def Let_def)

lemma merged_log_observe [simp]: "merged_log (observe_leader n t) prev es = merged_log n prev es"
  by (simp add: merged_log_def)

lemma accepted_prefix:
  assumes "prev_log_index r \<le> boundary n + length (log n)" and "i \<le> prev_log_index r"
  shows "log_entry_at (accepted n r) i = log_entry_at n i"
proof (cases "boundary n < i")
  case True
  from assms merged_log_prefix [OF assms(1) True assms(2), of "entries r"] show ?thesis
    by (auto simp: log_entry_at_def accepted_frame)
qed (simp add: log_entry_at_def accepted_frame)

lemma accepted_terms:
  assumes "prev_log_index r \<le> boundary n + length (log n)" and "k < length (entries r)"
    and "boundary n \<le> prev_log_index r + k"
  shows "log_term_at (accepted n r) (prev_log_index r + k + 1) = Some (entry_term (entries r ! k))"
  using assms merged_log_term [of "prev_log_index r" n k "entries r"]
  by (auto simp: log_term_at_def log_entry_at_def accepted_frame)

lemma accepted_unchanged:
  assumes "prev_log_index r \<le> boundary n + length (log n)"
    and "\<And>k. k < length (entries r) \<Longrightarrow> boundary n \<le> prev_log_index r + k \<Longrightarrow>
      log_term_at n (prev_log_index r + k + 1) = Some (entry_term (entries r ! k))"
  shows "log (accepted n r) = log n"
  by (simp add: accepted_frame changed_from_None [OF changed_from_same [OF assms]])

lemma log_term_at_observe [simp]: "log_term_at (observe_leader n t) i = log_term_at n i"
  "log_entry_at (observe_leader n t) i = log_entry_at n i"
  by (simp_all add: log_term_at_def log_entry_at_def)

lemma accepted_prefix_term:
  assumes "prev_log_index r \<le> boundary n + length (log n)" and "i \<le> prev_log_index r"
  shows "log_term_at (accepted n r) i = log_term_at n i"
  unfolding log_term_at_def accepted_prefix [OF assms] accepted_frame ..

text \<open>No request panics a well-formed node, as long as the indices it names fit the word.\<close>

lemma on_append_entries_total:
  assumes "node_inv n" and "fits64 (prev_log_index r + length (entries r))"
  shows "\<exists>n' es. on_append_entries n sender r = Some (n', es)"
proof (cases "ae_term r < current_term n")
  case False
  let ?m = "observe_leader n (ae_term r)"
  let ?hard = "persist_hard_state (current_term n < ae_term r) ?m"
  have "\<exists>n' es. accept_entries ?m sender r ?hard = Some (n', es)"
    if sat: "prev_log_index r \<le> boundary ?m \<or> log_term_at ?m (prev_log_index r) = Some (prev_log_term r)"
  proof -
    have inv: "node_inv ?m" using assms(1) by (rule node_inv_observe_leader)
    have prev: "prev_log_index r \<le> boundary ?m + length (log ?m)"
      using sat by (auto dest: log_term_at_range)
    obtain m1 ch where merge: "merge_entries (prev_log_index r) 0 (entries r) ?m None = Some (m1, ch)"
      using merge_entries_total [of "prev_log_index r" 0 "entries r" ?m None] assms(2) by auto
    note m1 = merge_entries_merged [OF merge prev]
    have fits: "fits64 (boundary m1 + length (log m1))"
      using length_merged_log [OF prev, of "entries r"] inv assms(2) m1(1) by (auto simp: node_inv_def)
    obtain m2 where m2: "(if ch \<noteq> None then recompute_config m1 else Some m1) = Some m2"
      "log m2 = log m1" "snapshot m2 = snapshot m1"
    proof (cases "ch = None")
      case False
      then obtain x where "recompute_config m1 = Some x" using recompute_config_total [OF fits] by blast
      with False recompute_config_eq_Some [OF this] show thesis by (intro that [of x]) auto
    qed (auto intro: that)
    have last: "last_log_index m2 = Some (boundary m1 + length (log m1))"
      using fits m2(2,3) by (simp add: run_simps)
    have ents: "\<exists>e. entries_from m i = Some e" if "ch = Some i" "log m = log m1" "snapshot m = snapshot m1" for i m
      using that m1 changed_from_Some [of ?m "prev_log_index r" "entries r" i] prev
      by (simp add: entries_from_def) 
    obtain m3 where m3: "(if commit_index m2 < leader_commit r then do {
          last \<leftarrow> last_log_index m2;
          Some (m2\<lparr>commit_index := min (leader_commit r) last\<rparr>)
        } else Some m2) = Some m3" "log m3 = log m1" "snapshot m3 = snapshot m1"
      using last m2(2,3) by (cases "commit_index m2 < leader_commit r") auto
    obtain p where p: "(case ch of None \<Rightarrow> Some []
        | Some from_index \<Rightarrow> do { es \<leftarrow> entries_from m3 from_index; Some [PersistLog from_index es] }) = Some p"
      using ents [OF _ m3(2,3)] by (cases ch) auto
    show ?thesis
      using merge m2(1) m3(1) p add64_fits [OF assms(2)] unfolding accept_entries_def by simp
  qed
  then show ?thesis using False by (auto simp: on_append_entries_def Let_def)
qed (simp add: on_append_entries_def)

lemma on_install_snapshot_total:
  assumes "fits64 (is_last_included_index r + 1)"
  shows "\<exists>n' es. on_install_snapshot n sender r = Some (n', es)"
proof -
  have "fits64 (is_last_included_index r)" using assms by (rule fits64_mono) simp
  then have total: "\<exists>m'. recompute_config m = Some m'"
    if "log m = []" "boundary m = is_last_included_index r" for m
    using that by (intro recompute_config_total) simp
  obtain m' where "recompute_config (observe_leader n (is_term r)\<lparr>log := [],
      snapshot := \<lparr>last_included_index = is_last_included_index r,
        last_included_term = is_last_included_term r\<rparr>,
      snapshot_data := is_data r, snapshot_config := is_config r,
      commit_index := max (commit_index n) (is_last_included_index r)\<rparr>) = Some m'"
    using total by fastforce
  with assms show ?thesis by (auto simp: on_install_snapshot_def Let_def add64_fits)
qed

lemma on_request_vote_total: "node_inv n \<Longrightarrow> \<exists>n' es. on_request_vote n sender r = Some (n', es)"
  by (auto simp: on_request_vote_def Let_def node_inv_def last_log_index_def add64_fits step_down_def)

text \<open>Delivering an accepted batch again changes nothing.\<close>

lemma accepted_again:
  assumes "node_inv n" and "prev_log_index r \<le> boundary n + length (log n)"
    and "fits64 (prev_log_index r + length (entries r))"
  shows "accepted (accepted n r) r = accepted n r"
proof -
  let ?n = "accepted n r"
  have "changed_from ?n (prev_log_index r) (entries r) = None"
    by (rule changed_from_merged [OF assms(2)]) (simp_all add: accepted_frame)
  then have log: "merged_log ?n (prev_log_index r) (entries r) = log ?n" by (rule changed_from_None)
  have "config_in_force ?n = (current_config ?n, current_config_index ?n)"
    using node_inv_accepted [OF assms] by (simp add: node_inv_def)
  moreover have "commit_index ?n = (if commit_index ?n < leader_commit r
      then min (leader_commit r) (boundary ?n + length (log ?n)) else commit_index ?n)"
    by (auto simp: accepted_def Let_def)
  ultimately show ?thesis
    unfolding accepted_def [of ?n] log by simp
qed

lemma observed_twice:
  assumes "current_term n \<le> t" and "m = accepted (observe_leader n t) r"
  shows "observe_leader m t = m" and "current_term m = t"
proof -
  show "current_term m = t" using assms by (simp add: accepted_frame observe_leader_def step_down_def Let_def)
  moreover have "role m \<noteq> Candidate" "election_elapsed m = 0" "leader_contact_elapsed m = 0"
    using assms by (auto simp: accepted_def observe_leader_def step_down_def Let_def)
  ultimately show "observe_leader m t = m" by (simp add: observe_leader_def)
qed

lemma append_redelivered:
  assumes "on_append_entries n sender r = Some (n', es)" and "node_inv n"
    and "Send to (AppendEntriesResponse a) \<in> set es" and "success a"
  shows "on_append_entries n' sender r = Some (n', [Send sender (AppendEntriesResponse a)])"
  using assms
proof (rule append_accepted)
  let ?m = "observe_leader n (ae_term r)"
  assume t: "current_term n \<le> ae_term r" and n': "n' = accepted ?m r"
    and prev: "prev_log_index r \<le> boundary n + length (log n)"
    and sat: "prev_log_index r \<le> boundary n \<or> log_term_at ?m (prev_log_index r) = Some (prev_log_term r)"
    and a: "aer_match_index a = prev_log_index r + length (entries r)" "aer_term a = current_term n'"
    and fits: "fits64 (prev_log_index r + length (entries r))"
  note m = observed_twice [OF t n']
  have inv: "node_inv ?m" using assms(2) by (rule node_inv_observe_leader)
  have prev': "prev_log_index r \<le> boundary ?m + length (log ?m)" using prev by simp
  have inv': "node_inv n'" unfolding n' by (rule node_inv_accepted [OF inv prev' fits])
  have again: "accepted n' r = n'" unfolding n' by (rule accepted_again [OF inv prev' fits])
  have none: "changed_from n' (prev_log_index r) (entries r) = None"
    by (rule changed_from_merged [OF prev']) (simp_all add: n' accepted_frame)
  have sat': "prev_log_index r \<le> boundary n' \<or> log_term_at n' (prev_log_index r) = Some (prev_log_term r)"
    using sat accepted_prefix_term [OF prev', of "prev_log_index r"] by (auto simp: n' accepted_frame)
  have reply: "a = \<lparr>aer_term = current_term n', success = True,
      aer_match_index = prev_log_index r + length (entries r)\<rparr>"
    using a assms(4) by (cases a) simp
  obtain n2 es2 where run: "on_append_entries n' sender r = Some (n2, es2)"
    using on_append_entries_total [OF inv' fits] by blast
  then show ?thesis using inv'
  proof (cases rule: on_append_entries_cases)
    case (accept m2)
    have "m2 = n'" using accept(2) m by simp
    with accept again none run m(2) reply show ?thesis by (simp add: persist_hard_state_def)
  qed (use m sat' in auto)
qed

section \<open>What a majority holds\<close>

definition held :: "node \<Rightarrow> node_id \<Rightarrow> u64" where
  "held n p = (if p = nid n then boundary n + length (log n)
     else case match_index n p of Some m \<Rightarrow> m | None \<Rightarrow> 0)"

lemma quorum_match_eq:
  assumes "quorum_match n vs = Some c"
  shows "vs \<noteq> []" and "c = sort (map (held n) vs) ! (length vs - (length vs div 2 + 1))"
proof -
  from assms obtain ms where ms: "collect (\<lambda>peer. if peer = nid n then last_log_index n
      else Some (case match_index n peer of Some m \<Rightarrow> m | None \<Rightarrow> 0)) vs = Some ms"
    and q: "length vs div 2 + 1 \<le> length vs" and c: "c = sort ms ! (length vs - (length vs div 2 + 1))"
    by (auto simp: quorum_match_def run_simps split: if_splits)
  have "ms = map (held n) vs"
    using ms unfolding collect_eq_Some
    by (auto simp: list_all2_conv_all_nth held_def run_simps intro!: nth_equalityI split: if_splits)
  with c q show "vs \<noteq> []" "c = sort (map (held n) vs) ! (length vs - (length vs div 2 + 1))" by auto
qed

lemma sorted_count_ge:
  assumes "sorted (xs :: nat list)" and "k < length xs"
  shows "length xs - k \<le> length (filter (\<lambda>x. i \<le> x) xs) \<longleftrightarrow> i \<le> xs ! k"
proof
  assume "i \<le> xs ! k"
  have "\<forall>x \<in> set (drop k xs). i \<le> x"
  proof
    fix x assume "x \<in> set (drop k xs)"
    then obtain j where "j < length xs - k" "x = xs ! (k + j)" by (auto simp: in_set_conv_nth)
    with assms \<open>i \<le> xs ! k\<close> show "i \<le> x"
      by (metis le_add1 le_trans less_diff_conv add.commute sorted_nth_mono)
  qed
  then have "filter (\<lambda>x. i \<le> x) (drop k xs) = drop k xs" by simp
  then have "length (filter (\<lambda>x. i \<le> x) xs) = length (filter (\<lambda>x. i \<le> x) (take k xs)) + length (drop k xs)"
    by (metis append_take_drop_id filter_append length_append)
  then show "length xs - k \<le> length (filter (\<lambda>x. i \<le> x) xs)" by simp
next
  assume len: "length xs - k \<le> length (filter (\<lambda>x. i \<le> x) xs)"
  show "i \<le> xs ! k"
  proof (rule ccontr)
    assume "\<not> i \<le> xs ! k"
    then have less: "\<not> i \<le> x" if "x \<in> set (take (Suc k) xs)" for x
    proof -
      from that obtain j where "j \<le> k" "x = xs ! j" by (auto simp: in_set_conv_nth less_Suc_eq_le)
      with assms have "x \<le> xs ! k" by (simp add: sorted_nth_mono)
      with \<open>\<not> i \<le> xs ! k\<close> show ?thesis by simp
    qed
    then have "filter (\<lambda>x. i \<le> x) (take (Suc k) xs) = []" by (simp add: filter_empty_conv)
    then have "filter (\<lambda>x. i \<le> x) xs = filter (\<lambda>x. i \<le> x) (drop (Suc k) xs)"
      by (metis append_take_drop_id filter_append self_append_conv2)
    then have "length (filter (\<lambda>x. i \<le> x) xs) \<le> length xs - Suc k"
      by (metis length_drop length_filter_le)
    with len assms(2) show False by simp
  qed
qed

text \<open>The index the source reads from the sorted match indices is the largest one that a majority
  holds.\<close>

lemma quorum_match_majority:
  assumes "quorum_match n vs = Some c"
  shows "majority_reached vs (\<lambda>p. i \<le> held n p) \<longleftrightarrow> i \<le> c"
proof -
  let ?ms = "sort (map (held n) vs)" and ?k = "length vs - (length vs div 2 + 1)"
  note eq = quorum_match_eq [OF assms]
  have "?k < length ?ms" using eq(1) by simp
  moreover have "length vs - ?k = length vs div 2 + 1"
  proof -
    have "0 < length vs" using eq(1) by simp
    then show ?thesis by arith
  qed
  ultimately have "length vs div 2 + 1 \<le> length (filter (\<lambda>x. i \<le> x) ?ms) \<longleftrightarrow> i \<le> c"
    using sorted_count_ge [of ?ms ?k i] eq(2) by simp
  moreover have "length (filter (\<lambda>x. i \<le> x) ?ms) = length (filter (\<lambda>p. i \<le> held n p) vs)"
    by (simp add: filter_sort filter_map comp_def)
  ultimately show ?thesis by (simp add: majority_reached_def)
qed

lemma commit_candidate_majority:
  assumes "commit_candidate n = Some c" and "i \<le> c"
  shows "majority_reached (voters (current_config n)) (\<lambda>p. i \<le> held n p)"
    and "old_voters (current_config n) = Some vs \<Longrightarrow> majority_reached vs (\<lambda>p. i \<le> held n p)"
  using assms quorum_match_majority [of n _ _ i]
  by (auto simp: commit_candidate_def run_simps split: option.splits)

text \<open>A step of the commit point goes to an entry of the current term that majorities hold.\<close>

lemma advance_point_commits:
  assumes "advance_point n = Some n'" and "commit_index n' \<noteq> commit_index n"
  shows "log_term_at n (commit_index n') = Some (current_term n)"
    and "commit_candidate n = Some (commit_index n')" and "commit_index n < commit_index n'"
  using assms by (auto simp: advance_point_def run_simps split: if_splits)

lemma majority_reached_mono:
  assumes "majority_reached vs P" and "\<And>p. p \<in> set vs \<Longrightarrow> P p \<Longrightarrow> Q p"
  shows "majority_reached vs Q"
proof -
  have "length (filter P vs) \<le> length (filter Q vs)"
    using assms(2) by (induction vs) auto
  with assms(1) show ?thesis by (simp add: majority_reached_def)
qed

text \<open>\<open>holds n i p\<close>: the leader itself, or a peer known to hold the log up to \<open>i\<close>.\<close>

definition holds :: "node \<Rightarrow> u64 \<Rightarrow> node_id \<Rightarrow> bool" where
  "holds n i p \<longleftrightarrow> p = nid n \<or> i \<le> (case match_index n p of Some m \<Rightarrow> m | None \<Rightarrow> 0)"

lemma majority_holds:
  "majority_reached vs (\<lambda>p. i \<le> held n p) \<Longrightarrow> nid n' = nid n \<Longrightarrow> match_index n' = match_index n \<Longrightarrow>
     majority_reached vs (holds n' i)"
  by (erule majority_reached_mono) (auto simp: held_def holds_def split: if_splits)

lemma retire_commit [simp]: "commit_index (retire_if_excluded n) = commit_index n"
  "current_config (retire_if_excluded n) = current_config n"
  "log_term_at (retire_if_excluded n) i = log_term_at n i"
  by (simp_all add: retire_if_excluded_def retire_from_leadership_def log_term_at_def log_entry_at_def)

text \<open>The commit rule: a commit point moves to an entry of the leader's own term that a majority of
  the voters holds; in a joint configuration a majority of the old voters holds it too, unless
  this very advancement closed the joint phase, whose entry they then hold.\<close>

definition commit_rule :: "node \<Rightarrow> effect list \<Rightarrow> node \<Rightarrow> bool" where
  "commit_rule n es n' \<longleftrightarrow> commit_index n < commit_index n' \<and>
     log_term_at n' (commit_index n') = Some (current_term n) \<and>
     majority_reached (voters (current_config n)) (holds n (commit_index n')) \<and>
     (\<forall>vs. old_voters (current_config n) = Some vs \<longrightarrow>
        (if es = [] then majority_reached vs (holds n (commit_index n'))
         else old_voters (current_config n') = None \<and>
           (current_config_index n \<le> commit_index n \<or>
            majority_reached vs (holds n (current_config_index n)))))"

lemma commit_rule_plain:
  assumes "advance_point n = Some n1" and "commit_index n1 \<noteq> commit_index n"
  shows "commit_rule n [] (retire_if_excluded n1)"
proof -
  note c = advance_point_commits [OF assms]
  from advance_point_frame [OF assms(1)] have "log_term_at n1 i = log_term_at n i" for i
    by (auto simp: log_term_at_def log_entry_at_def)
  with c show ?thesis
    using commit_candidate_majority [OF c(2) order_refl] by (auto simp: commit_rule_def intro: majority_holds)
qed

lemma commit_rule_follow_up:
  assumes "advance_point n = Some n1" and "joint_committed n1"
    and "push_follow_up n1 = Some (n2, e)" and "advance_point n2 = Some n3"
    and "commit_index n3 \<noteq> commit_index n"
  shows "commit_rule n [e] (retire_if_excluded n3)"
proof -
  obtain c1 where f1: "n1 = n\<lparr>commit_index := c1\<rparr>" "commit_index n \<le> c1"
    using advance_point_frame [OF assms(1)] by blast
  note f2 = push_follow_up_frame [OF assms(3), THEN conjunct1]
  obtain c3 where f3: "n3 = n2\<lparr>commit_index := c3\<rparr>"
    using advance_point_frame [OF assms(4)] by blast
  have joint: "current_config_index n \<le> commit_index n1"
    using assms(2) f1(1) by (simp add: joint_committed_def)
  have n3: "old_voters (current_config n3) = None"
    "log_term_at n3 i = log_term_at n2 i" for i
    unfolding f3 by (simp_all add: f2 log_term_at_def log_entry_at_def)
  have same: "nid n2 = nid n" "match_index n2 = match_index n" "current_term n2 = current_term n"
    "voters (current_config n2) = voters (current_config n)" "commit_index n2 = commit_index n1"
    unfolding f2 by (simp_all add: f1(1))
  have le: "commit_index n \<le> commit_index n1" using f1 by simp
  have old: "current_config_index n \<le> commit_index n \<or> majority_reached vs (holds n (current_config_index n))"
    if vs: "old_voters (current_config n) = Some vs" for vs
  proof (cases "commit_index n1 = commit_index n")
    case False
    from advance_point_commits(2) [OF assms(1) False]
    show ?thesis
      using commit_candidate_majority(2) [OF _ joint vs] by (auto intro: majority_holds)
  qed (use joint in simp)
  show ?thesis
  proof (cases "commit_index n3 = commit_index n1")
    case True
    with assms(5) have neq: "commit_index n1 \<noteq> commit_index n" by simp
    note c = advance_point_commits [OF assms(1) neq]
    have "log_term_at n2 (commit_index n1) = Some (current_term n)"
      using c(1) log_term_at_range [OF c(1)] unfolding f2
      by (auto simp: f1(1) log_term_at_def log_entry_at_def nth_append split: if_splits)
    with c n3 True old show ?thesis
      using commit_candidate_majority(1) [OF c(2) order_refl]
      by (auto simp: commit_rule_def intro: majority_holds)
  next
    case False
    with same have "commit_index n3 \<noteq> commit_index n2" by simp
    note c = advance_point_commits [OF assms(4) this]
    from commit_candidate_majority(1) [OF c(2) order_refl]
    have "majority_reached (voters (current_config n)) (holds n (commit_index n3))"
      unfolding same(4) by (rule majority_holds) (simp_all add: same)
    with c n3 same le old show ?thesis by (auto simp: commit_rule_def)
  qed
qed

lemma advance_commits:
  assumes "advance_commit_index n = Some (n', es)" and "commit_index n' \<noteq> commit_index n"
  shows "commit_rule n es n'"
  using assms(1)
proof (cases rule: advance_commit_index_cases)
  case (plain n1)
  with assms(2) commit_rule_plain [of n n1] show ?thesis by simp
next
  case (follow_up n1 n2 e n3)
  with assms(2) commit_rule_follow_up [of n n1 n2 e n3] show ?thesis by simp
qed

end
