(* ===== verification/Raft_Samples.thy ===== *)
theory Raft_Samples
  imports Raft_Cluster Raft_Agreement
begin

text \<open>
  Concrete nodes, messages and worlds, evaluated in the kernel, at which the properties of
  \<open>Raft_Properties\<close> are applied.
\<close>

section \<open>A cluster of three\<close>

definition trio :: "node_id list" where
  "trio = [NodeId 1, NodeId 2, NodeId 3]"

definition trio_voter :: "node_id \<Rightarrow> node" where
  "trio_voter i = recovered i trio 1 1 default_hard_state [] default_snapshot []"

definition trio_learner :: "node_id \<Rightarrow> node" where
  "trio_learner i = (case new_learner i 1 1 of Inr n \<Rightarrow> n | Inl _ \<Rightarrow> trio_voter i)"

definition world_0 :: world where
  "world_0 = \<lparr>nodes = (\<lambda>i. if i \<in> set trio then trio_voter i else trio_learner i),
     disks = (\<lambda>_. default_durable_state), sent = (\<lambda>_. {}), cast = {}, won = {}\<rparr>"

text \<open>One operation of one node, all of its effects carried out.\<close>

definition after :: "node_id \<Rightarrow> operation \<Rightarrow> world \<Rightarrow> world" where
  "after i op w = (case run_op (nodes w i) op of
     None \<Rightarrow> w
   | Some (n, es) \<Rightarrow> (case durable_apply_all (disks w i) es of
       None \<Rightarrow> w | Some d \<Rightarrow> carry_out i n d es w))"

lemma cluster_after: "cluster V w \<Longrightarrow> authentic w i op \<Longrightarrow> cluster V (after i op w)"
  by (auto simp: after_def split: option.split intro: cluster.operate)

lemma cluster_world_0: "cluster trio world_0"
  unfolding world_0_def
proof (rule cluster.boot)
  show "\<exists>timeout heartbeat. new_node i trio timeout heartbeat =
      Some (Inr (if i \<in> set trio then trio_voter i else trio_learner i))" if "i \<in> set trio" for i
  proof -
    have "i = NodeId 1 \<or> i = NodeId 2 \<or> i = NodeId 3" using that by (auto simp: trio_def)
    then have "new_node i trio 1 1 = Some (Inr (trio_voter i))"
      by (auto simp: new_node_def recover_def trio_voter_def recovered_def trio_def
          default_snapshot_def default_metadata_def bootstrap_config_def Let_def)
    with that show ?thesis by auto
  qed
  show "\<exists>timeout heartbeat. new_learner i timeout heartbeat =
      Inr (if i \<in> set trio then trio_voter i else trio_learner i)" if "i \<notin> set trio" for i
  proof -
    have "new_learner i 1 1 = Inr (trio_learner i)" by (simp add: trio_learner_def new_learner_def Let_def)
    with that show ?thesis by auto
  qed
qed

text \<open>The first node campaigns, the second grants its vote, the first wins term 1.\<close>

definition world_1 :: world where "world_1 = after (NodeId 1) (Op_Event (Tick 1)) world_0"

definition ballot :: request_vote where
  "ballot = \<lparr>rv_term = 1, candidate_id = NodeId 1, rv_last_log_index = 0, rv_last_log_term = 0\<rparr>"

definition world_2 :: world where
  "world_2 = after (NodeId 2) (Op_Event (Step (NodeId 1) (RequestVote ballot))) world_1"

definition world_3 :: world where
  "world_3 = after (NodeId 1) (Op_Event (Step (NodeId 2)
     (RequestVoteResponse \<lparr>rvr_term = 1, granted = True\<rparr>))) world_2"

lemma world_1_sent: "Send (NodeId 2) (RequestVote ballot) \<in> sent world_1 (NodeId 1)"
  by code_simp
lemma world_2_sent: "Send (NodeId 1) (RequestVoteResponse \<lparr>rvr_term = 1, granted = True\<rparr>) \<in> sent world_2 (NodeId 2)"
  by code_simp
lemma world_3_won: "(1, NodeId 1) \<in> won world_3"
  by code_simp

lemma cluster_world_1: "cluster trio world_1"
  unfolding world_1_def by (rule cluster_after [OF cluster_world_0]) simp

lemma cluster_world_2: "cluster trio world_2"
  unfolding world_2_def
  by (rule cluster_after [OF cluster_world_1]) (simp only: authentic.simps world_1_sent)

lemma cluster_world_3: "cluster trio world_3"
  unfolding world_3_def
  by (rule cluster_after [OF cluster_world_2]) (simp only: authentic.simps world_2_sent)

text \<open>A voter of the trio that has just started.\<close>

lemma trio_voter_new: "i \<in> set trio \<Longrightarrow> new_node i trio 1 1 = Some (Inr (trio_voter i))"
  by (auto simp: new_node_def recover_def trio_voter_def recovered_def trio_def
      default_snapshot_def default_metadata_def bootstrap_config_def Let_def)

lemma trio_1 [simp]: "NodeId 1 \<in> set trio" "NodeId (Suc 0) \<in> set trio"
  and trio_2 [simp]: "NodeId 2 \<in> set trio"
  by (simp_all add: trio_def)

lemma trio_voter_lifecycle: "i \<in> set trio \<Longrightarrow> lifecycle i (trio_voter i) default_durable_state []"
  by (rule lifecycle.boot [OF trio_voter_new])

lemma trio_voter_reachable: "node_reachable (trio_voter (NodeId 1))"
  using trio_voter_new [OF trio_1(1)] unfolding new_node_def
  by (rule node_reachable.recovers) (simp add: default_snapshot_def default_metadata_def)

lemma trio_voter_inv: "node_inv (trio_voter (NodeId 1))"
  and trio_voter_persisted: "persisted default_durable_state (trio_voter (NodeId 1))"
  using lifecycle_persisted [OF trio_voter_lifecycle [OF trio_1(1)]] by blast+

lemma trio_voter_config: "snapshot_config (trio_voter i) = \<lparr>voters = trio, old_voters = None\<rparr>"
  "current_config (trio_voter i) = \<lparr>voters = trio, old_voters = None\<rparr>"
  by (simp_all add: trio_voter_def recovered_def bootstrap_config_def default_snapshot_def
      default_metadata_def Let_def)

lemma trio_campaigns: "\<exists>n es. run_op (trio_voter (NodeId 1)) (Op_Event (Tick 1)) = Some (n, es)"
proof -
  have "\<not> Option.is_none (run_op (trio_voter (NodeId 1)) (Op_Event (Tick 1)))" by code_simp
  then show ?thesis by (cases "run_op (trio_voter (NodeId 1)) (Op_Event (Tick 1))") auto
qed

text \<open>The second voter grants the same ballot twice.\<close>

definition grant :: effect where
  "grant = Send (NodeId 1) (RequestVoteResponse \<lparr>rvr_term = 1, granted = True\<rparr>)"

definition live_on :: "operation \<Rightarrow> node \<times> durable_state \<times> effect list \<Rightarrow>
    node \<times> durable_state \<times> effect list" where
  "live_on op s = (case s of (n, d, msgs) \<Rightarrow> (case run_op n op of
     None \<Rightarrow> s
   | Some (n', es) \<Rightarrow> (case durable_apply_all d es of
       None \<Rightarrow> s | Some d' \<Rightarrow> (n', d', msgs @ filter is_send es))))"

lemma lifecycle_live_on:
  "lifecycle i n d msgs \<Longrightarrow> live_on op (n, d, msgs) = (n', d', msgs') \<Longrightarrow> lifecycle i n' d' msgs'"
  by (auto simp: live_on_def split: option.splits intro: lifecycle.operate)

lemma grant_twice: "\<exists>n d. lifecycle (NodeId 2) n d [grant, grant]"
proof -
  let ?op = "Op_Event (Step (NodeId 1) (RequestVote ballot))"
  let ?s0 = "(trio_voter (NodeId 2), default_durable_state, [])"
  obtain n1 d1 m1 where s1: "live_on ?op ?s0 = (n1, d1, m1)" by (metis prod_cases3)
  obtain n2 d2 m2 where s2: "live_on ?op (n1, d1, m1) = (n2, d2, m2)" by (metis prod_cases3)
  have "snd (snd (live_on ?op (live_on ?op ?s0))) = [grant, grant]" by code_simp
  with s1 s2 have "m2 = [grant, grant]" by simp
  with lifecycle_live_on [OF lifecycle_live_on [OF trio_voter_lifecycle [OF trio_2] s1] s2]
  show ?thesis by blast
qed

text \<open>A follower with three entries and a leader's batch that replaces the last two.\<close>

definition sample_entry :: "u64 \<Rightarrow> byte \<Rightarrow> log_entry" where
  "sample_entry t b = \<lparr>entry_term = t, payload = Command [b]\<rparr>"

definition behind :: node where
  "behind = recovered (NodeId 2) trio 5 1 \<lparr>hs_current_term = 2, hs_voted_for = None\<rparr>
     [sample_entry 1 0, sample_entry 2 1, sample_entry 2 2] default_snapshot []"

definition batch :: append_entries where
  "batch = \<lparr>ae_term = 3, ae_leader_id = NodeId 1, prev_log_index = 1, prev_log_term = 1,
     entries = [sample_entry 3 7, sample_entry 3 8], leader_commit = 2\<rparr>"

definition batch_reply :: append_entries_response where
  "batch_reply = \<lparr>aer_term = 3, success = True, aer_match_index = 3\<rparr>"

lemma behind_inv: "node_inv behind"
  unfolding behind_def
  by (rule node_inv_recovered) (simp add: default_snapshot_def default_metadata_def fits64_def)

lemma behind_accepts: "\<exists>n es. on_append_entries behind (NodeId 1) batch = Some (n, es) \<and>
    Send (NodeId 1) (AppendEntriesResponse batch_reply) \<in> set es"
proof -
  have "case on_append_entries behind (NodeId 1) batch of None \<Rightarrow> False
    | Some (n, es) \<Rightarrow> Send (NodeId 1) (AppendEntriesResponse batch_reply) \<in> set es" by code_simp
  then show ?thesis by (auto split: option.splits)
qed

text \<open>A leader of term 3 with the batch in its log, the second node at index 3.\<close>

definition ahead :: node where
  "ahead = (recovered (NodeId 1) trio 5 1 \<lparr>hs_current_term = 3, hs_voted_for = Some (NodeId 1)\<rparr>
     [sample_entry 1 0, sample_entry 3 7, sample_entry 3 8] default_snapshot [])
     \<lparr>role := Leader, next_index := [NodeId 2 \<mapsto> 2, NodeId 3 \<mapsto> 4],
      match_index := [NodeId 2 \<mapsto> 3, NodeId 3 \<mapsto> 0]\<rparr>"

lemma ahead_sends: "replicate_to ahead (NodeId 2) = Some (Send (NodeId 2) (AppendEntries (batch\<lparr>leader_commit := 0\<rparr>)))"
  by code_simp

lemma ahead_commits: "\<exists>n es. advance_commit_index ahead = Some (n, es) \<and> commit_index n = 3"
proof -
  have "case advance_commit_index ahead of None \<Rightarrow> False | Some (n, es) \<Rightarrow> commit_index n = 3"
    by code_simp
  then show ?thesis by (auto split: option.splits)
qed

end
