(* ===== verification/Raft_Properties.thy ===== *)
theory Raft_Properties
  imports Raft_Samples
begin

text \<open>
  The properties of the consensus core, each with the concrete input at which it is applied.
  Their proofs rest on the lemmas of \<open>Raft_Replication\<close>, \<open>Raft_Commit\<close>, \<open>Raft_Invariant\<close>,
  \<open>Raft_Durable\<close>, \<open>Raft_Votes\<close> and \<open>Raft_Cluster\<close>.
\<close>

section \<open>Elections\<close>

text \<open>C1. Election safety: in every reachable world of a cluster with a fixed membership, with lost,
  delayed, reordered and duplicated messages and with crashes in the middle of a batch of
  effects, two nodes that were ever leader in the same term are the same node, and the history
  \<open>won\<close> knows every leader.\<close>

theorem election_safety:
  assumes "cluster V w"
  shows "(\<forall>t i j. (t, i) \<in> won w \<longrightarrow> (t, j) \<in> won w \<longrightarrow> i = j) \<and>
    (\<forall>i. role (nodes w i) = Leader \<longrightarrow> (current_term (nodes w i), i) \<in> won w)"
  using one_leader_per_term [OF assms] leader_won [OF assms] by blast

theorem election_safety_witness:
  "cluster trio world_3 \<and> role (nodes world_3 (NodeId 1)) = Leader \<and>
   {j. (1, j) \<in> won world_3} = {NodeId 1}"
proof -
  have "role (nodes world_3 (NodeId 1)) = Leader" by code_simp
  moreover have "{j. (1, j) \<in> won world_3} = {NodeId 1}"
    using election_safety [OF cluster_world_3] world_3_won by blast
  ultimately show ?thesis using cluster_world_3 by blast
qed

text \<open>C9. One vote per term for the whole life of a node: no two messages it ever sent, across any
  number of restarts from a disk written up to any point of a batch, make votes of the same term
  known for different candidates.\<close>

theorem one_vote_per_term:
  assumes "lifecycle i n d msgs" and "e1 \<in> set msgs" and "e2 \<in> set msgs"
    and "vote_of e1 = Some (t, c1)" and "vote_of e2 = Some (t, c2)"
  shows "c1 = c2"
  using lifecycle_votes_agree [OF assms(1)] assms(2-) unfolding votes_agree_def by blast

theorem one_vote_per_term_witness:
  "(\<exists>n d. lifecycle (NodeId 2) n d [grant, grant]) \<and> vote_of grant = Some (1, NodeId 1) \<and>
   {c. vote_of grant = Some (1, c)} = {NodeId 1}"
proof -
  have v: "vote_of grant = Some (1, NodeId 1)" by (simp add: grant_def)
  obtain n d where "lifecycle (NodeId 2) n d [grant, grant]" using grant_twice by blast
  from one_vote_per_term [OF this, of grant grant 1 "NodeId 1"] v this show ?thesis by auto
qed

section \<open>Durability\<close>

text \<open>C10. Carrying out the effects of any operation, in order, never panics the store and takes an
  image of the old node to an image of the new one: term, vote, log, snapshot, learners.\<close>

theorem effects_make_state_durable:
  assumes "run_op n op = Some (n', es)" and "node_inv n" and "persisted d n"
  shows "\<exists>d'. durable_apply_all d es = Some d' \<and> persisted d' n'"
  using persistsD [OF persists_run_op [OF assms(1,2)] assms(3)] .

theorem effects_make_state_durable_witness:
  "\<exists>n es d. run_op (trio_voter (NodeId 1)) (Op_Event (Tick 1)) = Some (n, es) \<and>
     durable_apply_all default_durable_state es = Some d \<and> persisted d n"
proof -
  obtain n es where run: "run_op (trio_voter (NodeId 1)) (Op_Event (Tick 1)) = Some (n, es)"
    using trio_campaigns by blast
  from effects_make_state_durable [OF run trio_voter_inv trio_voter_persisted] run show ?thesis by blast
qed

text \<open>C11. In the effects of any operation every write comes before every message: after the first
  message there are only messages, so a crash in the middle never loses what a peer was told.\<close>

theorem writes_before_sends:
  assumes "run_op n op = Some (n', xs @ Send to m # ys)" and "node_inv n"
  shows "list_all is_send ys"
  using writes_first_run_op [OF assms] by (simp add: writes_first_append list_all_iff)

theorem writes_before_sends_witness:
  "\<exists>n x to m ys. run_op (trio_voter (NodeId 1)) (Op_Event (Tick 1)) = Some (n, [x] @ Send to m # ys) \<and>
     ys \<noteq> [] \<and> list_all is_send ys"
proof -
  obtain n es where run: "run_op (trio_voter (NodeId 1)) (Op_Event (Tick 1)) = Some (n, es)"
    using trio_campaigns by blast
  have "map_option snd (run_op (trio_voter (NodeId 1)) (Op_Event (Tick 1))) =
      Some [PersistHardState 1 (Some (NodeId 1)), Send (NodeId 2) (RequestVote ballot),
        Send (NodeId 3) (RequestVote ballot)]"
    by code_simp
  with run have es: "es = [PersistHardState 1 (Some (NodeId 1))] @ Send (NodeId 2) (RequestVote ballot) #
      [Send (NodeId 3) (RequestVote ballot)]" by simp
  from writes_before_sends [OF run [unfolded es] trio_voter_inv] run [unfolded es] show ?thesis by blast
qed

text \<open>C12. Restart: from an image in step with a well-formed node, \<open>recover\<close> with the bootstrap members and valid
  timings succeeds and gives back the node's term, vote, log, snapshot, configurations and learners
  as a follower that claims no more commits than before, provided that the node has a snapshot or
  that its base configuration is the bootstrap members. A joining learner before its first snapshot
  has neither (\<open>Findings\<close>).\<close>

theorem restart_from_image:
  assumes "persisted d n" and "node_inv n"
    and "sorted_wrt (<) peers" and "i \<in> set peers" and "0 < heartbeat" and "heartbeat \<le> timeout"
    and "0 < boundary n \<or> snapshot_config n = \<lparr>voters = peers, old_voters = None\<rparr>"
  shows "\<exists>m. recover_from d i peers timeout heartbeat = Some (Inr m) \<and> nid m = i \<and> role m = Follower \<and>
    current_term m = current_term n \<and> voted_for m = voted_for n \<and> log m = log n \<and>
    snapshot m = snapshot n \<and> snapshot_data m = snapshot_data n \<and>
    snapshot_config m = snapshot_config n \<and> learners m = learners n \<and>
    current_config m = current_config n \<and> current_config_index m = current_config_index n \<and>
    commit_index m \<le> commit_index n"
proof -
  obtain m where rec: "recover_from d i peers timeout heartbeat = Some (Inr m)"
    and m: "nid m = i" "role m = Follower"
    using recover_from_total [OF persisted_image_ok [OF assms(1,2)] assms(3-6)] by blast
  have "durable_part m = durable_part n" by (rule recover_from_restores(1) [OF assms(1,2) rec assms(7)])
  with recover_from_restores(2-4) [OF assms(1,2) rec assms(7)] rec m show ?thesis
    by (auto simp: durable_part_def)
qed

theorem restart_from_image_witness:
  "\<exists>m. recover_from default_durable_state (NodeId 1) trio 1 1 = Some (Inr m) \<and>
     log m = log (trio_voter (NodeId 1)) \<and> current_config m = \<lparr>voters = trio, old_voters = None\<rparr>"
proof -
  have "sorted_wrt (<) trio" "NodeId 1 \<in> set trio" by (simp_all add: trio_def)
  from restart_from_image [OF trio_voter_persisted trio_voter_inv this, of 1 1] show ?thesis
    by (auto simp: trio_voter_config)
qed

section \<open>The state of a node\<close>

text \<open>C13. Well-formedness of every state a node can reach from a recovery or as a new learner by any
  sequence of events and operator calls: the configuration in use is the one the backward scan of
  the log finds, the boundary is committed, indices fit the machine word, only a leader tracks
  peers, and it tracks a match index and a positive next index for the same peers.\<close>

theorem reachable_well_formed:
  assumes "node_reachable n"
  shows "map_option (\<lambda>found. case found of Some ci \<Rightarrow> ci | None \<Rightarrow> (snapshot_config n, boundary n))
      (latest_configuration_in (log n) (boundary n)) = Some (current_config n, current_config_index n) \<and>
    boundary n \<le> commit_index n \<and> fits64 (boundary n + length (log n)) \<and>
    (role n = Leader \<or> next_index n = Map.empty) \<and> dom (next_index n) = dom (match_index n) \<and>
    0 \<notin> ran (next_index n)"
proof -
  have inv: "node_inv n" by (rule node_reachable_inv [OF assms])
  then obtain found where f: "latest_configuration_in (log n) (boundary n) = Some found"
    using latest_configuration_in_total by (auto simp: node_inv_def)
  from latest_configuration_in_replay [OF this, of "snapshot_config n"] inv f show ?thesis
    by (auto simp: node_inv_def config_in_force_def progress_ok_def ran_def dom_def)
qed

theorem reachable_well_formed_witness:
  "node_reachable (trio_voter (NodeId 1)) \<and>
   latest_configuration_in (log (trio_voter (NodeId 1))) (boundary (trio_voter (NodeId 1))) = Some None \<and>
   current_config_index (trio_voter (NodeId 1)) = boundary (trio_voter (NodeId 1))"
proof -
  have "latest_configuration_in (log (trio_voter (NodeId 1))) (boundary (trio_voter (NodeId 1))) = Some None"
    by code_simp
  with reachable_well_formed [OF trio_voter_reachable] trio_voter_reachable show ?thesis by simp
qed

section \<open>Replication\<close>



text \<open>Redelivery is harmless: after an accepted batch the same batch from the same leader changes
  nothing at all, writes nothing and gets the same reply.\<close>

lemma redelivery_changes_nothing:
  assumes "on_append_entries n sender r = Some (n', es)" and "node_inv n"
    and "Send to (AppendEntriesResponse a) \<in> set es" and "success a"
  shows "on_append_entries n' sender r = Some (n', [Send sender (AppendEntriesResponse a)])"
  using append_redelivered [OF assms] .

lemma redelivery_changes_nothing_witness:
  "\<exists>n es. on_append_entries behind (NodeId 1) batch = Some (n, es) \<and>
     on_append_entries n (NodeId 1) batch =
       Some (n, [Send (NodeId 1) (AppendEntriesResponse batch_reply)])"
proof -
  obtain n es where run: "on_append_entries behind (NodeId 1) batch = Some (n, es)"
    and reply: "Send (NodeId 1) (AppendEntriesResponse batch_reply) \<in> set es"
    using behind_accepts by blast
  have "success batch_reply" by (simp add: batch_reply_def)
  from redelivery_changes_nothing [OF run behind_inv reply this] run show ?thesis by blast
qed

text \<open>Leader to follower: when a leader's batch for a peer is accepted there, the peer's log has the
  leader's term at every index from the batch's first to the end of the leader's log, and the
  reply tells the leader so.\<close>

lemma acceptance_aligns_with_leader:
  assumes "replicate_to L p = Some (Send p (AppendEntries r))"
    and "on_append_entries F sender r = Some (F', es)" and "node_inv F"
    and "Send to (AppendEntriesResponse a) \<in> set es" and "success a"
    and "prev_log_index r < i" and "i \<le> boundary L + length (log L)" and "boundary F < i"
  shows "log_term_at F' i = log_term_at L i \<and> aer_match_index a = boundary L + length (log L)"
proof -
  let ?m = "observe_leader F (ae_term r)" and ?k = "i - prev_log_index r - 1"
  have L: "boundary L \<le> prev_log_index r" "prev_log_index r \<le> boundary L + length (log L)"
    "entries r = drop (prev_log_index r - boundary L) (log L)"
    using assms(1) by (auto simp: replicate_to_def run_simps split: if_splits)
  obtain F': "F' = accepted ?m r" and prev: "prev_log_index r \<le> boundary ?m + length (log ?m)"
    and a: "aer_match_index a = prev_log_index r + length (entries r)"
    using append_accepted [OF assms(2-5)] by (metis observe_leader_log(1,2))
  have k: "?k < length (entries r)" "i = prev_log_index r + ?k + 1" "boundary ?m \<le> prev_log_index r + ?k"
    using L assms(6-8) by auto
  have "log_term_at F' i = Some (entry_term (entries r ! ?k))"
    using accepted_terms [OF prev k(1,3)] k(2) by (simp add: F')
  also have "\<dots> = log_term_at L i"
    using L assms(6,7) by (auto simp: log_term_at_def log_entry_at_def)
  finally show ?thesis using a L by simp
qed

lemma acceptance_aligns_with_leader_witness:
  "\<exists>n es. on_append_entries behind (NodeId 1) (batch\<lparr>leader_commit := 0\<rparr>) = Some (n, es) \<and>
     log_term_at n 3 = log_term_at ahead 3 \<and> aer_match_index batch_reply = 3"
proof -
  have "case on_append_entries behind (NodeId 1) (batch\<lparr>leader_commit := 0\<rparr>) of None \<Rightarrow> False
    | Some (n, es) \<Rightarrow> Send (NodeId 1) (AppendEntriesResponse batch_reply) \<in> set es" by code_simp
  then obtain n es where run: "on_append_entries behind (NodeId 1) (batch\<lparr>leader_commit := 0\<rparr>) = Some (n, es)"
    and reply: "Send (NodeId 1) (AppendEntriesResponse batch_reply) \<in> set es"
    by (auto split: option.splits)
  have "success batch_reply" "prev_log_index (batch\<lparr>leader_commit := 0\<rparr>) < 3"
    "3 \<le> boundary ahead + length (log ahead)" "boundary behind < 3" "boundary ahead + length (log ahead) = 3"
    by code_simp+
  with acceptance_aligns_with_leader [OF ahead_sends run behind_inv reply, of 3] run show ?thesis by auto
qed

section \<open>Commitment\<close>

text \<open>C14. The commit rule: \<open>advance_commit_index\<close> moves the commit point only forward, to an entry of
  the leader's own term that a majority of the voters holds. In a joint configuration a majority
  of the old voters holds it too, unless the same call closed the joint phase; then the old
  majority holds the joint entry.\<close>

theorem commits_need_majorities:
  assumes "advance_commit_index n = Some (n', es)" and "commit_index n' \<noteq> commit_index n"
  shows "commit_index n < commit_index n' \<and>
    log_term_at n' (commit_index n') = Some (current_term n) \<and>
    majority_reached (voters (current_config n)) (holds n (commit_index n')) \<and>
    (\<forall>vs. old_voters (current_config n) = Some vs \<longrightarrow>
       (if es = [] then majority_reached vs (holds n (commit_index n'))
        else old_voters (current_config n') = None \<and>
          (current_config_index n \<le> commit_index n \<or>
           majority_reached vs (holds n (current_config_index n)))))"
  using advance_commits [OF assms] unfolding commit_rule_def .

theorem commits_need_majorities_witness:
  "\<exists>n es. advance_commit_index ahead = Some (n, es) \<and> commit_index n = 3 \<and>
     log_term_at n 3 = Some 3 \<and> majority_reached trio (holds ahead 3)"
proof -
  obtain n es where run: "advance_commit_index ahead = Some (n, es)" and c: "commit_index n = 3"
    using ahead_commits by blast
  have ahead: "commit_index ahead = 0" "current_term ahead = 3" "voters (current_config ahead) = trio"
    by code_simp+
  with c have "commit_index n \<noteq> commit_index ahead" by simp
  from commits_need_majorities [OF run this] run c ahead show ?thesis by simp
qed

text \<open>C16. The candidate for the commit point, read from the sorted match indices at
  \<^verbatim>\<open>len - quorum\<close>, is the largest index that a majority of the set holds.\<close>

theorem quorum_match_is_largest_majority_index:
  assumes "quorum_match n vs = Some c"
  shows "majority_reached vs (\<lambda>p. i \<le> held n p) \<longleftrightarrow> i \<le> c"
  using quorum_match_majority [OF assms] .

theorem quorum_match_is_largest_majority_index_witness:
  "quorum_match ahead trio = Some 3 \<and> majority_reached trio (\<lambda>p. 3 \<le> held ahead p) \<and>
   \<not> majority_reached trio (\<lambda>p. 4 \<le> held ahead p)"
proof -
  have q: "quorum_match ahead trio = Some 3" by code_simp
  from quorum_match_is_largest_majority_index [OF q, of 3]
    quorum_match_is_largest_majority_index [OF q, of 4] q show ?thesis by simp
qed

section \<open>Compaction\<close>

text \<open>Compaction: below the boundary it does nothing, above the commit point it is refused without
  a change, and otherwise the boundary moves to the index, every entry above it and every term
  from it on stay readable, and the commit point and the configuration in force stay.\<close>

lemma compaction_keeps_the_log:
  assumes "compact n i data = Some (n', res)" and "node_inv n"
  shows "(i \<le> boundary n \<longrightarrow> n' = n \<and> res = Inr []) \<and>
    (boundary n < i \<and> commit_index n < i \<longrightarrow> n' = n \<and> res = Inl IndexNotCommitted) \<and>
    (boundary n < i \<and> i \<le> commit_index n \<longrightarrow>
       boundary n' = i \<and> snapshot_data n' = data \<and> commit_index n' = commit_index n \<and>
       current_config n' = current_config n \<and>
       (\<forall>j > i. log_entry_at n' j = log_entry_at n j) \<and> (\<forall>j \<ge> i. log_term_at n' j = log_term_at n j))"
  using assms(1)
proof (cases rule: compact_cases)
  case drop
  have "boundary n' = i \<and> snapshot_data n' = data \<and> commit_index n' = commit_index n \<and>
      current_config n' = current_config n"
    unfolding drop(4) compacted_eq [OF assms(2) drop(1,3)] by simp
  moreover have "log_entry_at n' j = log_entry_at n j" if "i < j" for j
    unfolding drop(4) by (rule compacted_entry_at [OF drop(1,3) that])
  moreover have "log_term_at n' j = log_term_at n j" if "i \<le> j" for j
    unfolding drop(4) by (rule compacted_term_at [OF drop(1,3) that])
  ultimately show ?thesis using drop(1,2) by simp
qed simp_all

lemma compaction_keeps_the_log_witness:
  "\<exists>n es. compact (behind\<lparr>commit_index := 2\<rparr>) 2 [] = Some (n, Inr es) \<and> boundary n = 2 \<and>
     log_entry_at n 3 = Some (sample_entry 2 2) \<and> log_term_at n 2 = Some 2"
proof -
  let ?n = "behind\<lparr>commit_index := 2\<rparr>"
  have "case compact ?n 2 [] of Some (_, res) \<Rightarrow> \<not> isl res | None \<Rightarrow> False" by code_simp
  then obtain n res where "compact ?n 2 [] = Some (n, res)" "\<not> isl res"
    by (auto split: option.splits)
  then obtain es where run: "compact ?n 2 [] = Some (n, Inr es)" by (cases res) auto
  have inv: "node_inv ?n" by (rule node_inv_commit [OF behind_inv]) code_simp
  have "boundary ?n = 0" "log_entry_at ?n 3 = Some (sample_entry 2 2)" "log_term_at ?n 2 = Some 2"
    by code_simp+
  with compaction_keeps_the_log [OF run inv] run show ?thesis by auto
qed

section \<open>Construction\<close>

text \<open>C17. Which configurations \<open>recover\<close> accepts: it never panics on an image whose indices fit, and it
  succeeds exactly when the bootstrap members are strictly increasing and contain the node and the
  heartbeat interval is positive and not above the election timeout.\<close>

theorem recover_accepts_exactly:
  assumes "fits64 (last_included_index (metadata snap) + length lg)"
  shows "recover i peers timeout heartbeat hs lg snap lrn \<noteq> None \<and>
    ((\<exists>n. recover i peers timeout heartbeat hs lg snap lrn = Some (Inr n)) \<longleftrightarrow>
       sorted_wrt (<) peers \<and> i \<in> set peers \<and> 0 < heartbeat \<and> heartbeat \<le> timeout)"
proof (cases "sorted_wrt (<) peers \<and> i \<in> set peers \<and> 0 < heartbeat \<and> heartbeat \<le> timeout")
  case True
  then have "peers \<noteq> []" by auto
  with True recover_total [OF assms, of peers i heartbeat timeout hs lrn] show ?thesis by simp
next
  case False
  then have "\<exists>e. recover i peers timeout heartbeat hs lg snap lrn = Some (Inl e)"
    by (auto simp: recover_def any_window_sorted)
  with False show ?thesis by auto
qed

theorem recover_accepts_exactly_witness:
  "recover (NodeId 4) trio 1 1 default_hard_state [] default_snapshot [] = Some (Inl LocalNodeMissing) \<and>
   (\<exists>n. recover (NodeId 1) trio 1 1 default_hard_state [] default_snapshot [] = Some (Inr n))"
proof -
  have "fits64 (last_included_index (metadata default_snapshot) + length ([] :: log_entry list))" by code_simp
  from recover_accepts_exactly [OF this, of "NodeId 1" trio 1 1 default_hard_state "[]"]
  show ?thesis by (simp add: trio_def recover_def)
qed

section \<open>Requests of peers\<close>

text \<open>A peer request is dropped without a change, or its effects are writes followed by exactly one
  message, which goes to the sender and is the response of the request's kind.\<close>

lemma request_ends_in_one_reply:
  assumes "step n (Step sender m) = Some (n', es)" and "is_request m" and "node_inv n"
  shows "es = [] \<and> n' = n \<or>
    (\<exists>ws reply. es = ws @ [Send sender reply] \<and> list_all is_write ws \<and> replies_to m reply)"
  using request_batch_step [OF assms] unfolding request_batch_def .

lemma request_ends_in_one_reply_witness:
  "\<exists>n ws reply. step behind (Step (NodeId 1) (AppendEntries batch)) =
     Some (n, ws @ [Send (NodeId 1) reply]) \<and> ws \<noteq> [] \<and> list_all is_write ws"
proof -
  obtain n es where run: "on_append_entries behind (NodeId 1) batch = Some (n, es)"
    and reply: "Send (NodeId 1) (AppendEntriesResponse batch_reply) \<in> set es"
    using behind_accepts by blast
  have "ae_leader_id batch = NodeId 1" by code_simp
  with run have step: "step behind (Step (NodeId 1) (AppendEntries batch)) = Some (n, es)" by simp
  have "case on_append_entries behind (NodeId 1) batch of Some (_, es) \<Rightarrow> length es = 3 | None \<Rightarrow> False"
    by code_simp
  with run have "length es = 3" by simp
  with request_ends_in_one_reply [OF step _ behind_inv] step show ?thesis by auto
qed

text \<open>C18. No peer request panics a well-formed node, as long as the indices it names fit the machine
  word.\<close>

theorem requests_never_panic:
  assumes "node_inv n"
  shows "(\<exists>out. step n (Step sender (RequestVote v)) = Some out) \<and>
    (fits64 (prev_log_index r + length (entries r)) \<longrightarrow>
       (\<exists>out. step n (Step sender (AppendEntries r)) = Some out)) \<and>
    (fits64 (is_last_included_index s + 1) \<longrightarrow>
       (\<exists>out. step n (Step sender (InstallSnapshot s)) = Some out))"
  using on_request_vote_total [OF assms] on_append_entries_total [OF assms, of r]
    on_install_snapshot_total [of s n] by simp

theorem requests_never_panic_witness:
  "node_inv behind \<and> (\<exists>out. step behind (Step (NodeId 1) (AppendEntries batch)) = Some out)"
proof -
  have "fits64 (prev_log_index batch + length (entries batch))" by code_simp
  with requests_never_panic [OF behind_inv, of "NodeId 1" ballot batch] behind_inv show ?thesis by blast
qed

text \<open>A vote is granted only to a candidate whose log is at least as up to date, in the term of the
  request, by a node that does not lead and has not voted for someone else in that term; the vote
  is recorded, and the effects start with the write of it.\<close>

lemma vote_granted_only_if_up_to_date:
  assumes "on_request_vote n sender r = Some (n', es)"
    and "Send to (RequestVoteResponse a) \<in> set es" and "granted a"
  shows "(last_log_term n < rv_last_log_term r \<or>
      last_log_term n = rv_last_log_term r \<and> boundary n + length (log n) \<le> rv_last_log_index r) \<and>
    role n \<noteq> Leader \<and> current_term n \<le> rv_term r \<and>
    (current_term n = rv_term r \<longrightarrow> voted_for n = None \<or> voted_for n = Some (candidate_id r)) \<and>
    rvr_term a = rv_term r \<and> current_term n' = rv_term r \<and> voted_for n' = Some (candidate_id r) \<and>
    hd es = PersistHardState (rv_term r) (Some (candidate_id r)) \<and> to = sender"
  using assms(1)
proof (cases rule: on_request_vote_cases)
  case refused
  with assms(2,3) show ?thesis by (auto simp: reject_vote_def)
next
  case (answered m grant)
  from assms(2,3) have g: "grant" "rvr_term a = rv_term r" "to = sender"
    unfolding answered(7) by (auto split: if_splits)
  have "current_term m = rv_term r" using answered(1,4) by (simp add: step_down_def)
  with g answered(1,2,4,5,6,7) show ?thesis by (auto simp: log_is_up_to_date_def)
qed

lemma vote_granted_only_if_up_to_date_witness:
  "\<exists>n es. on_request_vote (trio_voter (NodeId 2)) (NodeId 1) ballot = Some (n, es) \<and>
     grant \<in> set es \<and> voted_for n = Some (NodeId 1) \<and> hd es = PersistHardState 1 (Some (NodeId 1))"
proof -
  have "case on_request_vote (trio_voter (NodeId 2)) (NodeId 1) ballot of None \<Rightarrow> False
    | Some (n, es) \<Rightarrow> grant \<in> set es" by code_simp
  then obtain n es where run: "on_request_vote (trio_voter (NodeId 2)) (NodeId 1) ballot = Some (n, es)"
    and g: "grant \<in> set es" by (auto split: option.splits)
  from vote_granted_only_if_up_to_date [OF run g [unfolded grant_def]] run g show ?thesis
    by (simp add: ballot_def)
qed

end
