(* ===== verification/Ledger.thy ===== *)
theory Ledger
  imports Raft_Cluster
begin

text \<open>
  What replication promises, apart from how a node keeps it: the ledger of a cluster. It has the
  term and the log of every node and a history of elections and acceptances; its six steps are the
  things a Raft node may do with them. Logs match, a leader has every committed entry of earlier
  terms, and committed entries never conflict. \<open>Ledger_Refinement\<close> shows that the nodes of the model
  take no other steps.
\<close>

section \<open>Logs that agree up to an index\<close>

definition shares :: "nat \<Rightarrow> 'a list \<Rightarrow> 'a list \<Rightarrow> bool" where
  "shares m xs ys \<longleftrightarrow> m \<le> length xs \<and> m \<le> length ys \<and> take m xs = take m ys"

lemma shares_0 [simp]: "shares 0 xs ys"
  by (simp add: shares_def)

lemma shares_refl [simp]: "shares m xs xs \<longleftrightarrow> m \<le> length xs"
  by (simp add: shares_def)

lemma shares_sym: "shares m xs ys \<Longrightarrow> shares m ys xs"
  by (simp add: shares_def)

lemma shares_trans [trans]: "shares m xs ys \<Longrightarrow> shares m ys zs \<Longrightarrow> shares m xs zs"
  by (simp add: shares_def)

lemma shares_mono: "shares m xs ys \<Longrightarrow> k \<le> m \<Longrightarrow> shares k xs ys"
  by (auto simp: shares_def) (metis min.absorb1 take_take)

lemma shares_nth: "shares m xs ys \<Longrightarrow> k < m \<Longrightarrow> xs ! k = ys ! k"
  by (metis nth_take shares_def)

lemma shares_append: "shares m xs ys \<Longrightarrow> shares m (xs @ zs) ys" "shares m xs ys \<Longrightarrow> shares m xs (ys @ zs)"
  by (auto simp: shares_def)

lemma shares_append_iff: "m \<le> length xs \<Longrightarrow> shares m (xs @ zs) ys \<longleftrightarrow> shares m xs ys"
  by (auto simp: shares_def)

lemma shares_take: "k \<le> length xs \<Longrightarrow> m \<le> k \<Longrightarrow> shares m (take k xs) xs"
  by (simp add: shares_def min_absorb1)

lemma shares_conv_nth:
  "shares m xs ys \<longleftrightarrow> m \<le> length xs \<and> m \<le> length ys \<and> (\<forall>k < m. xs ! k = ys ! k)"
  by (auto simp: shares_def list_eq_iff_nth_eq)

text \<open>Merging a piece of another log leaves the log alone or makes it a prefix of the other one;
  what the two shared stays.\<close>

lemma append_at_shares:
  assumes "shares k xs ys" and "k + n \<le> length ys"
    and same: "\<And>p. p < length xs \<Longrightarrow> p < length ys \<Longrightarrow> entry_term (xs ! p) = entry_term (ys ! p) \<Longrightarrow> xs ! p = ys ! p"
  defines "zs \<equiv> append_at xs k (take n (drop k ys))"
  shows "zs = xs \<or> zs = take (k + n) ys" and "shares (k + n) zs ys" and "shares m xs ys \<Longrightarrow> shares m zs ys"
proof -
  let ?es = "take n (drop k ys)"
  let ?m = "agree xs k ?es"
  have k: "k \<le> length xs" using assms(1) by (simp add: shares_def)
  have es: "length ?es = n" using assms(2) by simp
  have bound: "k + ?m \<le> length xs" "?m \<le> n" using agree_bound [OF k, of ?es] agree_le [of xs k ?es] es by auto
  have agreed: "shares (k + ?m) xs ys"
    unfolding shares_conv_nth
  proof (intro conjI allI impI)
    fix p assume p: "p < k + ?m"
    show "xs ! p = ys ! p"
    proof (cases "p < k")
      case True
      then show ?thesis by (rule shares_nth [OF assms(1)])
    next
      case False
      with p have "entry_term (xs ! p) = entry_term (ys ! p)"
        using agree_nth [of "p - k" xs k ?es] bound assms(2) by simp
      with p bound assms(2) show ?thesis by (intro same) auto
    qed
  qed (use bound assms(2) in auto)
  have "(zs = xs \<or> zs = take (k + n) ys) \<and> shares (k + n) zs ys \<and> (shares m xs ys \<longrightarrow> shares m zs ys)"
  proof (cases "?m = n")
    case True
    with es agreed show ?thesis by (simp add: zs_def append_at_def)
  next
    case False
    then have less: "?m < n" using bound by simp
    have "zs = take (k + ?m) ys @ drop ?m ?es"
      using False es agreed by (simp add: zs_def append_at_def Let_def shares_def)
    also have "drop ?m ?es = take (n - ?m) (drop (k + ?m) ys)" by (simp add: drop_take add.commute)
    also have "take (k + ?m) ys @ take (n - ?m) (drop (k + ?m) ys) = take (k + n) ys"
      using take_add [of "k + ?m" "n - ?m" ys] less by simp
    finally have zs: "zs = take (k + n) ys" .
    have "m \<le> k + ?m" if "shares m xs ys"
    proof (rule ccontr)
      assume "\<not> m \<le> k + ?m"
      then have p: "k + ?m < m" by simp
      then have "xs ! (k + ?m) = ys ! (k + ?m)" "k + ?m < length xs"
        using shares_nth [OF that p] that by (auto simp: shares_def)
      with agree_stop [of xs k ?es] less es assms(2) show False by simp
    qed
    with zs assms(2) less show ?thesis by (auto intro: shares_take)
  qed
  then show "zs = xs \<or> zs = take (k + n) ys" "shares (k + n) zs ys" "shares m xs ys \<Longrightarrow> shares m zs ys"
    by blast+
qed

section \<open>The ledger\<close>

text \<open>\<open>stood\<close> has the log a candidate stood with, \<open>led\<close> the leaders there have been, \<open>leader_log\<close> the log of the
  leader of a term, \<open>acks\<close> who accepted how much of it.\<close>

record ledger =
  terms :: "node_id \<Rightarrow> u64"
  logs :: "node_id \<Rightarrow> log_entry list"
  ballots :: "(node_id \<times> u64 \<times> node_id) set"
  stood :: "u64 \<times> node_id \<rightharpoonup> log_entry list"
  led :: "(u64 \<times> node_id) set"
  leader_log :: "u64 \<Rightarrow> log_entry list"
  acks :: "(node_id \<times> u64 \<times> nat) set"

definition newest :: "log_entry list \<Rightarrow> u64" where
  "newest xs = (if xs = [] then 0 else entry_term (last xs))"

definition at_least_as_new :: "log_entry list \<Rightarrow> log_entry list \<Rightarrow> bool" where
  "at_least_as_new xs ys \<longleftrightarrow>
     newest ys < newest xs \<or> newest ys = newest xs \<and> length ys \<le> length xs"

text \<open>A candidate has the votes of a quorum.\<close>

definition backed :: "(node_id set \<Rightarrow> bool) \<Rightarrow> ledger \<Rightarrow> u64 \<Rightarrow> node_id \<Rightarrow> bool" where
  "backed quorum a t i \<longleftrightarrow> (\<exists>Q. quorum Q \<and> (\<forall>v \<in> Q. (v, t, i) \<in> ballots a))"

inductive ledger_step :: "(node_id set \<Rightarrow> bool) \<Rightarrow> node_id \<Rightarrow> ledger \<Rightarrow> ledger \<Rightarrow> bool" for quorum i where
  raise: "terms a i \<le> t \<Longrightarrow> ledger_step quorum i a (a\<lparr>terms := (terms a)(i := t)\<rparr>)"
| stand: "terms a i < t \<Longrightarrow> ledger_step quorum i a (a\<lparr>terms := (terms a)(i := t),
     stood := (stood a)((t, i) \<mapsto> logs a i), ballots := insert (i, t, i) (ballots a)\<rparr>)"
| vote: "terms a i = t \<Longrightarrow> stood a (t, c) = Some xs \<Longrightarrow> at_least_as_new xs (logs a i) \<Longrightarrow>
     (\<And>c'. (i, t, c') \<in> ballots a \<Longrightarrow> c' = c) \<Longrightarrow>
     ledger_step quorum i a (a\<lparr>ballots := insert (i, t, c) (ballots a)\<rparr>)"
| lead: "terms a i = t \<Longrightarrow> stood a (t, i) = Some (logs a i) \<Longrightarrow> (t, i) \<notin> led a \<Longrightarrow>
     backed quorum a t i \<Longrightarrow>
     ledger_step quorum i a (a\<lparr>led := insert (t, i) (led a), leader_log := (leader_log a)(t := logs a i)\<rparr>)"
| extend: "(t, i) \<in> led a \<Longrightarrow> terms a i = t \<Longrightarrow> entry_term e = t \<Longrightarrow>
     ledger_step quorum i a (a\<lparr>logs := (logs a)(i := logs a i @ [e]),
       leader_log := (leader_log a)(t := leader_log a t @ [e])\<rparr>)"
| accept: "terms a i = t \<Longrightarrow> (t, l) \<in> led a \<Longrightarrow> k + n \<le> length (leader_log a t) \<Longrightarrow> k \<le> length (logs a i) \<Longrightarrow>
     k = 0 \<or> entry_term (logs a i ! (k - 1)) = entry_term (leader_log a t ! (k - 1)) \<Longrightarrow>
     ledger_step quorum i a (a\<lparr>logs := (logs a)(i := append_at (logs a i) k (take n (drop k (leader_log a t)))),
       acks := insert (i, t, k + n) (acks a)\<rparr>)"

text \<open>The invariant, a conjunction of named parts.\<close>

definition coherent :: "ledger \<Rightarrow> log_entry list \<Rightarrow> bool" where
  "coherent a xs \<longleftrightarrow> (\<forall>k < length xs. shares (Suc k) xs (leader_log a (entry_term (xs ! k))))"

definition bounded :: "ledger \<Rightarrow> bool" where
  "bounded a \<longleftrightarrow> (\<forall>t i. (t, i) \<in> led a \<longrightarrow> t \<le> terms a i) \<and>
     (\<forall>t i. stood a (t, i) \<noteq> None \<longrightarrow> t \<le> terms a i) \<and>
     (\<forall>v t c. (v, t, c) \<in> ballots a \<longrightarrow> t \<le> terms a v) \<and>
     (\<forall>v t m. (v, t, m) \<in> acks a \<longrightarrow> t \<le> terms a v)"

definition elected :: "(node_id set \<Rightarrow> bool) \<Rightarrow> ledger \<Rightarrow> bool" where
  "elected quorum a \<longleftrightarrow> (\<forall>t i. (t, i) \<in> led a \<longrightarrow> backed quorum a t i) \<and>
     (\<forall>v t c c'. (v, t, c) \<in> ballots a \<longrightarrow> (v, t, c') \<in> ballots a \<longrightarrow> c = c') \<and>
     (\<forall>v t c. (v, t, c) \<in> ballots a \<longrightarrow> stood a (t, c) \<noteq> None) \<and>
     (\<forall>t. leader_log a t \<noteq> [] \<longrightarrow> (\<exists>i. (t, i) \<in> led a)) \<and>
     (\<forall>v t m. (v, t, m) \<in> acks a \<longrightarrow> m \<le> length (leader_log a t))"

definition log_below :: "ledger \<Rightarrow> log_entry list \<Rightarrow> u64 \<Rightarrow> bool" where
  "log_below a xs t \<longleftrightarrow> coherent a xs \<and> (\<forall>e \<in> set xs. entry_term e \<le> t)"

definition logs_match :: "ledger \<Rightarrow> bool" where
  "logs_match a \<longleftrightarrow> (\<forall>i. log_below a (logs a i) (terms a i)) \<and> (\<forall>t. log_below a (leader_log a t) t) \<and>
     (\<forall>t i xs. stood a (t, i) = Some xs \<longrightarrow> coherent a xs \<and> (\<forall>e \<in> set xs. entry_term e < t)) \<and>
     (\<forall>t i. (t, i) \<in> led a \<longrightarrow> terms a i = t \<longrightarrow> logs a i = leader_log a t)"

text \<open>How much of a leader's log a node is bound to, the part that counts towards a commitment, and the
  leaders that break with it.\<close>

definition acked :: "ledger \<Rightarrow> node_id \<Rightarrow> u64 \<Rightarrow> nat \<Rightarrow> bool" where
  "acked a v t m \<longleftrightarrow> (\<exists>k \<ge> m. (v, t, k) \<in> acks a) \<or> (t, v) \<in> led a \<and> m \<le> length (leader_log a t)"

definition vital :: "ledger \<Rightarrow> u64 \<Rightarrow> nat \<Rightarrow> bool" where
  "vital a t m \<longleftrightarrow> 0 < m \<and> m \<le> length (leader_log a t) \<and> entry_term (leader_log a t ! (m - 1)) = t"

definition strays :: "ledger \<Rightarrow> u64 \<Rightarrow> nat \<Rightarrow> u64 \<Rightarrow> bool" where
  "strays a t m s \<longleftrightarrow> t < s \<and> (\<exists>i. (s, i) \<in> led a) \<and> \<not> shares m (leader_log a t) (leader_log a s)"

definition kept :: "ledger \<Rightarrow> u64 \<Rightarrow> nat \<Rightarrow> log_entry list \<Rightarrow> u64 \<Rightarrow> bool" where
  "kept a t m xs b \<longleftrightarrow> shares m (leader_log a t) xs \<or> (\<exists>s < b. strays a t m s)"

definition acks_kept :: "ledger \<Rightarrow> bool" where
  "acks_kept a \<longleftrightarrow> (\<forall>v t m. acked a v t m \<longrightarrow> kept a t m (logs a v) (Suc (terms a v)))"

definition ballots_kept :: "ledger \<Rightarrow> bool" where
  "ballots_kept a \<longleftrightarrow> (\<forall>v s c xs t m. (v, s, c) \<in> ballots a \<longrightarrow> stood a (s, c) = Some xs \<longrightarrow>
     acked a v t m \<longrightarrow> t < s \<longrightarrow> vital a t m \<longrightarrow> kept a t m xs (Suc s))"

definition leaders_kept :: "(node_id set \<Rightarrow> bool) \<Rightarrow> ledger \<Rightarrow> bool" where
  "leaders_kept quorum a \<longleftrightarrow> (\<forall>s c. (s, c) \<in> led a \<longrightarrow> (\<exists>Q. quorum Q \<and> (\<forall>v \<in> Q. s \<le> terms a v \<and>
     (\<forall>t m. acked a v t m \<longrightarrow> t < s \<longrightarrow> vital a t m \<longrightarrow> kept a t m (leader_log a s) s))))"

definition ledger_inv :: "(node_id set \<Rightarrow> bool) \<Rightarrow> ledger \<Rightarrow> bool" where
  "ledger_inv quorum a \<longleftrightarrow> bounded a \<and> elected quorum a \<and> logs_match a \<and> acks_kept a \<and>
     ballots_kept a \<and> leaders_kept quorum a"

lemma electedD:
  assumes "elected quorum a"
  shows "(t, i) \<in> led a \<Longrightarrow> backed quorum a t i"
    and "(v, t, c) \<in> ballots a \<Longrightarrow> (v, t, c') \<in> ballots a \<Longrightarrow> c = c'"
    and "(v, t, c) \<in> ballots a \<Longrightarrow> \<exists>xs. stood a (t, c) = Some xs"
    and "leader_log a t \<noteq> [] \<Longrightarrow> \<exists>i. (t, i) \<in> led a"
    and "(v, t, m) \<in> acks a \<Longrightarrow> m \<le> length (leader_log a t)"
  using assms unfolding elected_def by blast+

lemma electedI:
  assumes "\<And>t i. (t, i) \<in> led a \<Longrightarrow> backed quorum a t i"
    and "\<And>v t c c'. (v, t, c) \<in> ballots a \<Longrightarrow> (v, t, c') \<in> ballots a \<Longrightarrow> c = c'"
    and "\<And>v t c. (v, t, c) \<in> ballots a \<Longrightarrow> stood a (t, c) \<noteq> None"
    and "\<And>t. leader_log a t \<noteq> [] \<Longrightarrow> \<exists>i. (t, i) \<in> led a"
    and "\<And>v t m. (v, t, m) \<in> acks a \<Longrightarrow> m \<le> length (leader_log a t)"
  shows "elected quorum a"
  using assms unfolding elected_def by blast

text \<open>A ledger only grows.\<close>

definition grows :: "ledger \<Rightarrow> ledger \<Rightarrow> bool" where
  "grows a b \<longleftrightarrow> (\<forall>i. terms a i \<le> terms b i) \<and> ballots a \<subseteq> ballots b \<and> stood a \<subseteq>\<^sub>m stood b \<and>
     led a \<subseteq> led b \<and> acks a \<subseteq> acks b \<and>
     (\<forall>t. \<exists>xs. leader_log b t = leader_log a t @ xs \<and> ((\<exists>i. (t, i) \<in> led a) \<longrightarrow> (\<forall>e \<in> set xs. entry_term e = t)))"

lemma grows_refl [simp]: "grows a a"
  by (simp add: grows_def)

lemma grows_log: "grows a b \<Longrightarrow> \<exists>xs. leader_log b t = leader_log a t @ xs"
  by (auto simp: grows_def)

lemma grows_shares: "grows a b \<Longrightarrow> shares m xs (leader_log a t) \<Longrightarrow> shares m xs (leader_log b t)"
  using grows_log [of a b t] by (auto intro: shares_append)

lemma grows_shares_iff: "grows a b \<Longrightarrow> m \<le> length (leader_log a t) \<Longrightarrow>
    shares m (leader_log b t) xs \<longleftrightarrow> shares m (leader_log a t) xs"
  using grows_log [of a b t] by (auto simp: shares_append_iff)

lemma grows_coherent: "grows a b \<Longrightarrow> coherent a xs \<Longrightarrow> coherent b xs"
  by (simp add: coherent_def grows_shares)

lemma grows_length: "grows a b \<Longrightarrow> length (leader_log a t) \<le> length (leader_log b t)"
  using grows_log [of a b t] by auto

lemma grows_acked: "grows a b \<Longrightarrow> acked a v t m \<Longrightarrow> acked b v t m"
  using grows_length [of a b t] by (auto simp: grows_def acked_def)

lemma grows_vital: "grows a b \<Longrightarrow> vital a t m \<Longrightarrow> vital b t m"
  using grows_log [of a b t] by (auto simp: vital_def nth_append)

lemma grows_strays:
  assumes "grows a b" and "logs_match a" and "strays a t m s" and "m \<le> length (leader_log a t)"
  shows "strays b t m s"
proof -
  from assms(1) obtain xs where xs: "leader_log b s = leader_log a s @ xs"
    and new: "(\<exists>i. (s, i) \<in> led a) \<longrightarrow> (\<forall>e \<in> set xs. entry_term e = s)" unfolding grows_def by blast
  have old: "\<forall>e \<in> set (leader_log a t). entry_term e \<le> t" using assms(2) by (simp add: logs_match_def log_below_def)
  have "shares m (leader_log a t) (leader_log a s)" if sh: "shares m (leader_log a t) (leader_log b s)"
  proof -
    have "m \<le> length (leader_log a s)"
    proof (rule ccontr)
      assume "\<not> m \<le> length (leader_log a s)"
      then have less: "length (leader_log a s) < m" by simp
      let ?p = "length (leader_log a s)"
      have "xs \<noteq> []" using sh less xs by (auto simp: shares_def)
      moreover have "leader_log a t ! ?p = xs ! 0"
        using shares_nth [OF sh less] xs \<open>xs \<noteq> []\<close> by (simp add: nth_append)
      moreover have "leader_log a t ! ?p \<in> set (leader_log a t)" using less assms(4) by simp
      ultimately show False using new old assms(3) unfolding strays_def
        by (metis leD length_greater_0_conv nth_mem)
    qed
    with sh xs show ?thesis by (metis shares_append_iff shares_sym)
  qed
  with assms(1,3,4) show ?thesis by (auto simp: strays_def grows_shares_iff grows_def)
qed

lemma grows_kept:
  assumes "grows a b" and "logs_match a" and "kept a t m xs d" and "m \<le> length (leader_log a t)" and "d \<le> d'"
  shows "kept b t m xs d'" and "kept b t m (xs @ ys) d'"
  using assms by (auto simp: kept_def grows_shares_iff intro: shares_append grows_strays less_le_trans)

section \<open>Coherent logs\<close>

lemma coherent_match:
  assumes "coherent a xs" and "coherent a ys" and "p < length xs" and "p < length ys"
    and "entry_term (xs ! p) = entry_term (ys ! p)"
  shows "shares (Suc p) xs ys"
proof -
  have "shares (Suc p) xs (leader_log a (entry_term (ys ! p)))" using assms(1,3,5) by (auto simp: coherent_def)
  also have "shares (Suc p) (leader_log a (entry_term (ys ! p))) ys"
    using assms(2,4) by (auto simp: coherent_def intro: shares_sym)
  finally show ?thesis .
qed

lemma coherent_take:
  assumes "coherent a xs"
  shows "coherent a (take k xs)"
  unfolding coherent_def
proof (intro allI impI)
  fix p assume "p < length (take k xs)"
  then have p: "p < length xs" "p < k" by simp_all
  have "shares (Suc p) xs (leader_log a (entry_term (xs ! p)))"
    using assms p(1) unfolding coherent_def by blast
  moreover have "shares (Suc p) (take k xs) xs"
    unfolding shares_conv_nth using p by simp
  ultimately show "shares (Suc p) (take k xs) (leader_log a (entry_term (take k xs ! p)))"
    using p(2) shares_trans by fastforce
qed

lemma coherent_newest:
  assumes "coherent a xs" and "xs \<noteq> []"
  shows "shares (length xs) xs (leader_log a (newest xs))"
proof -
  let ?k = "length xs - 1"
  have k: "?k < length xs" "Suc ?k = length xs" using assms(2) by (cases xs; simp)+
  moreover have "xs ! ?k = last xs" using assms(2) by (simp add: last_conv_nth)
  ultimately show ?thesis using assms by (metis coherent_def newest_def)
qed

text \<open>A candidate at least as new as a voter holds what the voter shares with a leader, or a later
  leader strays.\<close>

lemma newer_log_kept:
  assumes xs: "coherent a xs" "\<forall>e \<in> set xs. entry_term e < s" and ys: "coherent a ys"
    and new: "at_least_as_new xs ys" and vital: "vital a t m"
    and sh: "shares m (leader_log a t) ys"
    and below: "\<And>t e. e \<in> set (leader_log a t) \<Longrightarrow> entry_term e \<le> t"
    and led: "\<And>t. leader_log a t \<noteq> [] \<Longrightarrow> \<exists>i. (t, i) \<in> led a"
  shows "kept a t m xs (Suc s)"
proof -
  from vital sh have m: "m - 1 < m" "0 < m" "m \<le> length ys" "ys \<noteq> []" by (auto simp: vital_def shares_def)
  note ysl = coherent_newest [OF ys m(4)]
  have "ys ! (m - 1) = leader_log a t ! (m - 1)" using shares_nth [OF sh m(1)] by simp
  moreover have "ys ! (m - 1) \<in> set (leader_log a (newest ys))"
    using shares_nth [OF ysl, of "m - 1"] ysl m by (auto simp: shares_def)
  ultimately have t: "t \<le> newest ys" using below vital by (metis vital_def)
  have ne: "xs \<noteq> []" using new m(4) by (auto simp: at_least_as_new_def newest_def)
  note xsl = coherent_newest [OF xs(1) ne]
  show ?thesis
  proof (cases "newest xs = newest ys")
    case True
    with new m have "shares m xs (leader_log a (newest ys))"
      using shares_mono [OF xsl, of m] by (auto simp: at_least_as_new_def)
    moreover have "shares m ys (leader_log a (newest ys))" using shares_mono [OF ysl] m by simp
    ultimately show ?thesis using sh by (auto simp: kept_def intro: shares_trans shares_sym)
  next
    case False
    with new t have w: "t < newest xs" by (auto simp: at_least_as_new_def)
    have nonempty: "leader_log a (newest xs) \<noteq> []" using xsl ne by (auto simp: shares_def)
    have bound: "newest xs < s" using xs(2) ne by (simp add: newest_def)
    show ?thesis
    proof (cases "shares m (leader_log a t) (leader_log a (newest xs))")
      case False
      with w nonempty led have "strays a t m (newest xs)" by (auto simp: strays_def)
      with bound show ?thesis by (auto simp: kept_def intro!: exI [of _ "newest xs"])
    next
      case True
      have "m \<le> length xs"
      proof (rule ccontr)
        assume "\<not> m \<le> length xs"
        then have p: "length xs - 1 < m" "length xs - 1 < length xs" using ne by (cases xs; simp)+
        then have "last xs = leader_log a t ! (length xs - 1)"
          using shares_nth [OF xsl p(2)] shares_nth [OF True p(1)] ne by (simp add: last_conv_nth)
        moreover have "leader_log a t ! (length xs - 1) \<in> set (leader_log a t)"
          using p(1) True by (simp add: shares_def)
        ultimately have "newest xs \<le> t" using below ne by (simp add: newest_def)
        with w show False by simp
      qed
      with xsl have "shares m xs (leader_log a (newest xs))" by (auto intro: shares_mono)
      with True show ?thesis by (auto simp: kept_def intro: shares_trans shares_sym)
    qed
  qed
qed

lemma acked_length: "elected quorum a \<Longrightarrow> acked a v t m \<Longrightarrow> m \<le> length (leader_log a t)"
  by (fastforce simp: elected_def acked_def)

lemma acked_bounded: "bounded a \<Longrightarrow> acked a v t m \<Longrightarrow> t \<le> terms a v"
  unfolding bounded_def acked_def by blast

lemma vital_back: "grows a b \<Longrightarrow> m \<le> length (leader_log a t) \<Longrightarrow> vital b t m \<Longrightarrow> vital a t m"
  using grows_log [of a b t] by (auto simp: vital_def nth_append split: if_splits)

section \<open>The steps keep the invariant\<close>

locale ledger_quorum = quorum_system quorum for quorum :: "node_id set \<Rightarrow> bool"
begin

lemma one_leader:
  assumes "elected quorum a" and "backed quorum a t i" and "backed quorum a t j"
  shows "i = j"
proof -
  from assms(2) obtain P where P: "quorum P" "\<And>v. v \<in> P \<Longrightarrow> (v, t, i) \<in> ballots a" by (auto simp: backed_def)
  from assms(3) obtain Q where Q: "quorum Q" "\<And>v. v \<in> Q \<Longrightarrow> (v, t, j) \<in> ballots a" by (auto simp: backed_def)
  show ?thesis
    by (rule one_winner [OF P(1) Q(1), of "\<lambda>v c. (v, t, c) \<in> ballots a"])
       (use P(2) Q(2) electedD(2) [OF assms(1)] in blast)+
qed

lemma same_leader: "elected quorum a \<Longrightarrow> (t, i) \<in> led a \<Longrightarrow> (t, j) \<in> led a \<Longrightarrow> i = j"
  by (blast intro: one_leader dest: electedD(1))

text \<open>A leader that comes to power finds its term empty.\<close>

lemma term_vacant:
  assumes "elected quorum a" and "backed quorum a t i" and "(t, i) \<notin> led a"
  shows "(t, j) \<notin> led a" and "leader_log a t = []"
proof -
  show vacant: "(t, j) \<notin> led a" for j
    using one_leader [OF assms(1) _ assms(2), of j] electedD(1) [OF assms(1)] assms(3) by blast
  show "leader_log a t = []" using electedD(4) [OF assms(1)] vacant by blast
qed

lemma acked_new:
  assumes "ledger_step quorum i a b" and "elected quorum a" and "acked b v t m"
  shows "acked a v t m \<or> v = i \<and> t = terms b i"
  using assms(1)
proof (cases rule: ledger_step.cases)
  case (lead t')
  with assms(3) term_vacant [OF assms(2), of t' i] show ?thesis by (auto simp: acked_def split: if_splits)
next
  case (extend t' e)
  with assms(3) same_leader [OF assms(2), of t' i v] show ?thesis by (auto simp: acked_def split: if_splits)
qed (use assms(3) in \<open>auto simp: acked_def\<close>)

lemma ledger_step_grows:
  assumes "ledger_step quorum i a b" and "elected quorum a" and "bounded a"
  shows "grows a b"
  using assms(1)
proof (cases rule: ledger_step.cases)
  case (stand t)
  then have "stood a (t, i) = None" using assms(3) by (metis bounded_def leD)
  with stand show ?thesis by (auto simp: grows_def map_le_def)
next
  case (lead t)
  with term_vacant [OF assms(2), of t i] show ?thesis by (auto simp: grows_def)
qed (auto simp: grows_def map_le_def)

lemma ledger_step_news:
  assumes "ledger_step quorum i a b"
  shows "(t, v) \<in> led b \<Longrightarrow> (t, v) \<in> led a \<or> v = i \<and> t = terms b i \<and> backed quorum a t i"
    and "stood b (t, v) = Some xs \<Longrightarrow> stood a (t, v) = Some xs \<or>
      v = i \<and> t = terms b i \<and> terms a i < t \<and> xs = logs a i"
    and "(v, t, c) \<in> ballots b \<Longrightarrow> (v, t, c) \<in> ballots a \<or> v = i \<and> t = terms b i \<and>
      stood b (t, c) \<noteq> None \<and> (terms a i < t \<or> (\<forall>c'. (i, t, c') \<in> ballots a \<longrightarrow> c' = c))"
    and "(v, t, m) \<in> acks b \<Longrightarrow> (v, t, m) \<in> acks a \<or> v = i \<and> t = terms b i \<and> m \<le> length (leader_log a t)"
    and "leader_log b t = leader_log a t \<or> (t, i) \<in> led b"
  using assms by (cases rule: ledger_step.cases; auto split: if_splits)+

lemma bounded_step:
  assumes "ledger_step quorum i a b" and "elected quorum a" and "bounded a"
  shows "bounded b"
proof -
  have mono: "terms a v \<le> terms b v" for v using ledger_step_grows [OF assms] by (simp add: grows_def)
  have old: "(t, v) \<in> led a \<Longrightarrow> t \<le> terms b v" "stood a (t, v) = Some xs \<Longrightarrow> t \<le> terms b v"
    "(v, t, c) \<in> ballots a \<Longrightarrow> t \<le> terms b v" "(v, t, m) \<in> acks a \<Longrightarrow> t \<le> terms b v" for v t c m xs
    using assms(3) mono [of v] unfolding bounded_def by (metis le_trans option.distinct(1))+
  show ?thesis
    unfolding bounded_def
  proof (intro conjI allI impI)
    note news = ledger_step_news [OF assms(1)]
    show "t \<le> terms b v" if "(t, v) \<in> led b" for t v using news(1) [OF that] old(1) by auto
    show "t \<le> terms b v" if "stood b (t, v) \<noteq> None" for t v using that news(2) old(2) by fastforce
    show "t \<le> terms b v" if "(v, t, c) \<in> ballots b" for t v c using news(3) [OF that] old(3) by auto
    show "t \<le> terms b v" if "(v, t, m) \<in> acks b" for t v m using news(4) [OF that] old(4) by auto
  qed
qed

lemma elected_step:
  assumes "ledger_step quorum i a b" and "elected quorum a" and "bounded a"
  shows "elected quorum b"
proof (rule electedI)
  note e = electedD [OF assms(2)] and g = ledger_step_grows [OF assms] and news = ledger_step_news [OF assms(1)]
  have mono: "ballots a \<subseteq> ballots b" "stood a \<subseteq>\<^sub>m stood b" "led a \<subseteq> led b" using g by (simp_all add: grows_def)
  have once: "(i, t, c) \<notin> ballots a" if "terms a i < t" for t c
    using assms(3) that unfolding bounded_def by (metis leD)
  show "backed quorum b t j" if "(t, j) \<in> led b" for t j
    using news(1) [OF that] e(1) mono(1) unfolding backed_def by blast
  show "c = c'" if "(v, t, c) \<in> ballots b" "(v, t, c') \<in> ballots b" for v t c c'
    using assms(1) that e(2) once by (cases rule: ledger_step.cases) (simp; blast)+
  show "stood b (t, c) \<noteq> None" if "(v, t, c) \<in> ballots b" for v t c
    using news(3) [OF that] e(3) mono(2) by (metis domI map_le_def not_None_eq)
  show "\<exists>i. (t, i) \<in> led b" if "leader_log b t \<noteq> []" for t
    using news(5) [of t] that e(4) [of t] mono(3) by (metis subsetD)
  show "m \<le> length (leader_log b t)" if "(v, t, m) \<in> acks b" for v t m
    using news(4) [OF that] e(5) grows_length [OF g, of t] by (meson le_trans)
qed

end

text \<open>Logs.\<close>

lemma log_belowD:
  assumes "logs_match a"
  shows "log_below a (logs a i) (terms a i)" and "log_below a (leader_log a t) t"
    and "stood a (t, i) = Some xs \<Longrightarrow> coherent a xs" and "stood a (t, i) = Some xs \<Longrightarrow> e \<in> set xs \<Longrightarrow> entry_term e < t"
    and "(t, i) \<in> led a \<Longrightarrow> terms a i = t \<Longrightarrow> logs a i = leader_log a t"
  using assms unfolding logs_match_def by blast+

lemma logs_matchI:
  assumes "\<And>i. log_below a (logs a i) (terms a i)" and "\<And>t. log_below a (leader_log a t) t"
    and "\<And>t i xs. stood a (t, i) = Some xs \<Longrightarrow> coherent a xs"
    and "\<And>t i xs e. stood a (t, i) = Some xs \<Longrightarrow> e \<in> set xs \<Longrightarrow> entry_term e < t"
    and "\<And>t i. (t, i) \<in> led a \<Longrightarrow> terms a i = t \<Longrightarrow> logs a i = leader_log a t"
  shows "logs_match a"
  using assms unfolding logs_match_def by blast

lemma log_below_mono: "log_below a xs t \<Longrightarrow> grows a b \<Longrightarrow> t \<le> u \<Longrightarrow> log_below b xs u"
  unfolding log_below_def by (auto intro: grows_coherent order_trans)

lemma coherent_snoc:
  assumes "coherent a xs" and "leader_log a (entry_term e) = xs @ [e]"
  shows "coherent a (xs @ [e])"
  unfolding coherent_def
proof (intro allI impI)
  fix k assume k: "k < length (xs @ [e])"
  show "shares (Suc k) (xs @ [e]) (leader_log a (entry_term ((xs @ [e]) ! k)))"
  proof (cases "k < length xs")
    case True
    with assms(1) show ?thesis by (auto simp: coherent_def nth_append intro: shares_append)
  next
    case False
    with k have "k = length xs" by simp
    then show ?thesis by (simp add: assms(2))
  qed
qed

text \<open>An accepted batch.\<close>

lemma coherent_merges:
  assumes c: "coherent a xs" "coherent a ys" and "k + n \<le> length ys" and "k \<le> length xs"
    and "k = 0 \<or> entry_term (xs ! (k - 1)) = entry_term (ys ! (k - 1))"
  defines "zs \<equiv> append_at xs k (take n (drop k ys))"
  shows "zs = xs \<or> zs = take (k + n) ys" and "shares (k + n) zs ys" and "shares m xs ys \<Longrightarrow> shares m zs ys"
proof -
  note match = coherent_match [OF c]
  have k: "shares k xs ys"
  proof (cases "k = 0")
    case False
    with assms(3-5) match [of "k - 1"] show ?thesis by simp
  qed simp
  have same: "xs ! p = ys ! p" if "p < length xs" "p < length ys" "entry_term (xs ! p) = entry_term (ys ! p)" for p
    using shares_nth [OF match [OF that]] by simp
  note m = append_at_shares [OF k assms(3), folded zs_def]
  show "zs = xs \<or> zs = take (k + n) ys" by (rule m(1)) (rule same)
  show "shares (k + n) zs ys" by (rule m(2)) (rule same)
  show "shares m zs ys" if "shares m xs ys" by (rule m(3) [OF same that])
qed

lemma accept_merges:
  assumes "logs_match a" and "terms a i = t" and "k + n \<le> length (leader_log a t)" and "k \<le> length (logs a i)"
    and "k = 0 \<or> entry_term (logs a i ! (k - 1)) = entry_term (leader_log a t ! (k - 1))"
  defines "xs \<equiv> append_at (logs a i) k (take n (drop k (leader_log a t)))"
  shows "xs = logs a i \<or> xs = take (k + n) (leader_log a t)" and "shares (k + n) xs (leader_log a t)"
    and "shares m (logs a i) (leader_log a t) \<Longrightarrow> shares m xs (leader_log a t)"
    and "log_below a xs t"
proof -
  have "coherent a (logs a i)" "coherent a (leader_log a t)"
    using log_belowD(1,2) [OF assms(1)] by (auto simp: log_below_def)
  note m = coherent_merges [OF this assms(3-5), folded xs_def]
  show "xs = logs a i \<or> xs = take (k + n) (leader_log a t)" by (fact m(1))
  show "shares (k + n) xs (leader_log a t)" by (fact m(2))
  show "shares m xs (leader_log a t)" if "shares m (logs a i) (leader_log a t)" by (fact m(3) [OF that])
  have "log_below a (take (k + n) (leader_log a t)) t"
    using log_belowD(2) [OF assms(1), of t] by (auto simp: log_below_def intro: coherent_take dest: in_set_takeD)
  with m(1) log_belowD(1) [OF assms(1), of i] assms(2) show "log_below a xs t" by auto
qed

lemma accept_own:
  assumes "logs_match a" and "(t, i) \<in> led a" and "terms a i = t" and "k + n \<le> length (leader_log a t)" and "k \<le> length (logs a i)"
    and "k = 0 \<or> entry_term (logs a i ! (k - 1)) = entry_term (leader_log a t ! (k - 1))"
  shows "append_at (logs a i) k (take n (drop k (leader_log a t))) = leader_log a t"
proof -
  have "logs a i = leader_log a t" by (rule log_belowD(5) [OF assms(1-3)])
  with accept_merges(1) [OF assms(1,3-6)] accept_merges(3) [OF assms(1,3-6), of "length (leader_log a t)"]
  show ?thesis
    by (auto simp: shares_def)
qed

context ledger_quorum
begin

lemma logs_match_step:
  assumes step: "ledger_step quorum i a b" and el: "elected quorum a" and bd: "bounded a" and lm: "logs_match a"
  shows "logs_match b"
proof (rule logs_matchI)
  note g = ledger_step_grows [OF step el bd] and news = ledger_step_news [OF step] and old = log_belowD [OF lm]
  have below: "log_below b (logs a j) (terms b j)" for j
    using log_below_mono [OF old(1) g] g by (simp add: grows_def)
  have coh: "coherent b (logs a j)" for j using below by (simp add: log_below_def)
  show "log_below b (leader_log b t) t" for t
    using step
  proof (cases rule: ledger_step.cases)
    case (lead u)
    then show ?thesis using below [of i] log_below_mono [OF old(2) g] by auto
  next
    case (extend u e)
    have "logs a i = leader_log a u" by (rule old(5) [OF extend(2,3)])
    with extend coh [of i] have "coherent b (leader_log a u @ [e])" by (intro coherent_snoc) simp_all
    with extend log_below_mono [OF old(2) g, of t t] show ?thesis by (auto simp: log_below_def)
  qed (use log_below_mono [OF old(2) g, of t t] in simp_all)
  show "log_below b (logs b j) (terms b j)" for j
    using step
  proof (cases rule: ledger_step.cases)
    case (extend u e)
    have "logs a i = leader_log a u" by (rule old(5) [OF extend(2,3)])
    with extend coh [of i] have "coherent b (logs a i @ [e])" by (intro coherent_snoc) simp_all
    with extend below [of j] show ?thesis by (auto simp: log_below_def)
  next
    case (accept u l k n)
    show ?thesis
    proof (cases "j = i")
      case True
      with accept log_below_mono [OF accept_merges(4) [OF lm accept(2,4,5,6)] g, of u] show ?thesis by simp
    qed (use accept below [of j] in simp)
  qed (use below [of j] in simp_all)
  show "coherent b xs" if "stood b (t, j) = Some xs" for t j xs
    using news(2) [OF that] old(3) grows_coherent [OF g] coh by blast
  show "entry_term e < t" if "stood b (t, j) = Some xs" "e \<in> set xs" for t j xs e
  proof -
    have "entry_term e \<le> terms a i" if "e \<in> set (logs a i)" using old(1) [of i] that by (auto simp: log_below_def)
    with news(2) [OF that(1)] old(4) that(2) show ?thesis by fastforce
  qed
  show "logs b j = leader_log b t" if "(t, j) \<in> led b" "terms b j = t" for t j
  proof -
    have late: "(t, j) \<in> led a \<Longrightarrow> terms a j = t"
      using bd that(2) g unfolding bounded_def grows_def by (metis order_antisym)
    from step that show ?thesis
    proof (cases rule: ledger_step.cases)
      case (lead u)
      with that late old(5) term_vacant(1) [OF el lead(5,4)] show ?thesis by auto
    next
      case (extend u e)
      with that late old(5) same_leader [OF el] show ?thesis by (cases "j = i") auto
    next
      case (accept u l k n)
      with that late old(5) accept_own [OF lm _ accept(2,4,5,6)] show ?thesis by (cases "j = i") auto
    qed (use late old(5) in auto)
  qed
qed

end

text \<open>Acceptances, votes and leaders are kept.\<close>

lemma kept_refl: "m \<le> length (leader_log a t) \<Longrightarrow> kept a t m (leader_log a t) d"
  by (simp add: kept_def)

lemma kept_bound: "kept a t m xs d \<Longrightarrow> d \<le> d' \<Longrightarrow> kept a t m xs d'"
  unfolding kept_def by (meson less_le_trans)

lemma grows_stood: "grows a b \<Longrightarrow> stood a x = Some xs \<Longrightarrow> stood b x = Some xs"
  unfolding grows_def map_le_def by (metis domI)

lemma ballot_bounded: "bounded a \<Longrightarrow> (v, t, c) \<in> ballots a \<Longrightarrow> t \<le> terms a v"
  unfolding bounded_def by blast

context ledger_quorum
begin

lemma acks_kept_step:
  assumes step: "ledger_step quorum i a b" and el: "elected quorum a" and bd: "bounded a"
    and lm: "logs_match a" and ak: "acks_kept a"
  shows "acks_kept b"
  unfolding acks_kept_def
proof (intro allI impI)
  fix v t m assume b: "acked b v t m"
  note g = ledger_step_grows [OF step el bd]
  have terms: "terms a v \<le> terms b v" using g by (simp add: grows_def)
  have len: "m \<le> length (leader_log a t)" if "acked a v t m" using acked_length [OF el that] .
  have old: "kept b t m (logs a v) (Suc (terms b v))" "kept b t m (logs a v @ xs) (Suc (terms b v))"
    if "acked a v t m" for xs
  proof -
    have "kept a t m (logs a v) (Suc (terms a v))" using ak that by (simp add: acks_kept_def)
    note grows_kept [OF g lm this len [OF that]]
    with terms show "kept b t m (logs a v) (Suc (terms b v))" "kept b t m (logs a v @ xs) (Suc (terms b v))" by simp_all
  qed
  show "kept b t m (logs b v) (Suc (terms b v))"
    using step
  proof (cases rule: ledger_step.cases)
    case (lead u)
    show ?thesis
    proof (cases "acked a v t m")
      case False
      with acked_new [OF step el b] have "v = i" "t = terms b i" by auto
      with lead acked_length [OF elected_step [OF step el bd] b] show ?thesis by (auto simp: kept_def)
    qed (use old(1) lead in auto)
  next
    case (extend u e)
    have same: "logs a i = leader_log a u" by (rule log_belowD(5) [OF lm extend(2,3)])
    show ?thesis
    proof (cases "acked a v t m")
      case False
      with acked_new [OF step el b] have "v = i" "t = terms b i" by auto
      with extend same acked_length [OF elected_step [OF step el bd] b] show ?thesis by (auto simp: kept_def)
    qed (use old extend in auto)
  next
    case (accept u l k n)
    let ?xs = "append_at (logs a i) k (take n (drop k (leader_log a u)))"
    note merge = accept_merges [OF lm accept(2,4,5,6)]
    have log: "leader_log b = leader_log a" "terms b = terms a" "led b = led a" using accept by simp_all
    show ?thesis
    proof (cases "acked a v t m \<and> v = i")
      case True
      then have kept: "kept a t m (logs a i) (Suc u)" and tu: "t \<le> u"
        using ak accept(2) acked_bounded [OF bd] by (auto simp: acks_kept_def)
      have "shares m (leader_log a t) ?xs \<or> strays a t m u" if sh: "shares m (leader_log a t) (logs a i)"
      proof (cases "shares m (leader_log a t) (leader_log a u)")
        case True
        with sh have "shares m ?xs (leader_log a u)" by (intro merge(3)) (blast intro: shares_trans shares_sym)
        with True show ?thesis by (blast intro: shares_trans shares_sym)
      next
        case False
        then have "t \<noteq> u" using sh by (auto simp: shares_def)
        with False tu accept(3) show ?thesis by (auto simp: strays_def)
      qed
      with kept have "kept a t m ?xs (Suc u)" unfolding kept_def by blast
      with True accept show ?thesis by (simp add: kept_def strays_def)
    next
      case False
      show ?thesis
      proof (cases "v = i")
        case True
        with False b accept(1) acked_new [OF step el b] have "m \<le> k + n" "t = u"
          by (auto simp: acked_def accept(2))
        with True merge(2) show ?thesis
          using accept by (auto simp: kept_def intro: shares_sym shares_mono)
      next
        case other: False
        with acked_new [OF step el b] have "acked a v t m" by simp
        with old(1) other accept show ?thesis by simp
      qed
    qed
  qed (use old(1) acked_new [OF step el b] b in \<open>auto simp: acked_def\<close>)
qed

lemma acked_old:
  assumes "ledger_step quorum i a b" and "elected quorum a" and "bounded a" and "acked b v t m"
    and "t < s" and "s \<le> terms a v"
  shows "acked a v t m"
  using acked_new [OF assms(1,2,4)] ledger_step_grows [OF assms(1-3)] assms(5,6)
  by (auto simp: grows_def) (metis leD le_trans)

lemma ballots_kept_step:
  assumes step: "ledger_step quorum i a b" and el: "elected quorum a" and bd: "bounded a"
    and lm: "logs_match a" and ak: "acks_kept a" and bk: "ballots_kept a"
  shows "ballots_kept b"
  unfolding ballots_kept_def
proof (intro allI impI)
  fix v s c xs t m
  assume ballot: "(v, s, c) \<in> ballots b" and xs: "stood b (s, c) = Some xs" and b: "acked b v t m"
    and ts: "t < s" and vital: "vital b t m"
  note g = ledger_step_grows [OF step el bd]
  have to_b: "kept b t m ys (Suc s)" if "acked a v t m" "kept a t m ys d" "d \<le> Suc s" for ys d
    using grows_kept(1) [OF g lm that(2) acked_length [OF el that(1)] that(3)] .
  have vital_a: "vital a t m" if "acked a v t m" using vital_back [OF g acked_length [OF el that] vital] .
  show "kept b t m xs (Suc s)"
  proof (cases "(v, s, c) \<in> ballots a")
    case True
    then have "s \<le> terms a v" by (rule ballot_bounded [OF bd])
    then have a: "acked a v t m" by (rule acked_old [OF step el bd b ts])
    obtain ys where "stood a (s, c) = Some ys" using electedD(3) [OF el True] by blast
    moreover from this have "ys = xs" using grows_stood [OF g] xs by fastforce
    ultimately have "kept a t m xs (Suc s)" using bk True a ts vital_a [OF a] unfolding ballots_kept_def by blast
    with a show ?thesis by (intro to_b) auto
  next
    case False
    with step ballot have v: "v = i" "s = terms b i" by (auto dest: ledger_step_news(3))
    have a: "acked a v t m"
      using acked_new [OF step el b] v ts by auto
    have ka: "kept a t m (logs a i) (Suc (terms a i))" using ak a v by (auto simp: acks_kept_def)
    from step show ?thesis
    proof (cases rule: ledger_step.cases)
      case (stand u)
      with False ballot xs v have "xs = logs a i" "terms a i < s" by auto
      with ka a show ?thesis by (intro to_b) auto
    next
      case (vote u c' ys)
      with False ballot xs have ys: "stood a (s, c) = Some xs" "at_least_as_new xs (logs a i)" "s = terms a i" by auto
      have co: "coherent a xs" "\<forall>e \<in> set xs. entry_term e < s" "coherent a (logs a i)"
        using log_belowD(1,3,4) [OF lm] ys(1) by (auto simp: log_below_def)
      show ?thesis
      proof (rule to_b [OF a _ order_refl])
        from ka consider "shares m (leader_log a t) (logs a i)" | "\<exists>r < Suc s. strays a t m r"
          using ys(3) unfolding kept_def by blast
        then show "kept a t m xs (Suc s)"
        proof cases
          case 1
          show ?thesis
            by (rule newer_log_kept [OF co ys(2) vital_a [OF a] 1])
               (use log_belowD(2) [OF lm] electedD(4) [OF el] in \<open>auto simp: log_below_def\<close>)
        qed (auto simp: kept_def)
      qed
    qed (use False ballot in auto)
  qed
qed

lemma leaders_kept_step:
  assumes step: "ledger_step quorum i a b" and el: "elected quorum a" and bd: "bounded a"
    and lm: "logs_match a" and bk: "ballots_kept a" and lk: "leaders_kept quorum a"
  shows "leaders_kept quorum b"
  unfolding leaders_kept_def
proof (intro allI impI)
  fix s c assume led: "(s, c) \<in> led b"
  note g = ledger_step_grows [OF step el bd]
  have terms: "terms a v \<le> terms b v" for v using g by (simp add: grows_def)
  obtain ys where ys: "leader_log b s = leader_log a s @ ys" using grows_log [OF g] by blast
  have "\<exists>Q. quorum Q \<and> (\<forall>v \<in> Q. s \<le> terms a v \<and>
      (\<forall>t m. acked a v t m \<longrightarrow> t < s \<longrightarrow> vital a t m \<longrightarrow>
        kept a t m (leader_log a s) s \<or> kept a t m (leader_log b s) s))"
  proof (cases "(s, c) \<in> led a")
    case True
    with lk show ?thesis unfolding leaders_kept_def by blast
  next
    case False
    from step led False have lead: "backed quorum a s c" "stood a (s, c) = Some (leader_log b s)"
      by (auto elim!: ledger_step.cases)
    from lead(1) obtain Q where Q: "quorum Q" "\<forall>v \<in> Q. (v, s, c) \<in> ballots a" by (auto simp: backed_def)
    have "kept a t m (leader_log b s) s" if "v \<in> Q" "acked a v t m" "t < s" "vital a t m" for v t m
    proof -
      have "kept a t m (leader_log b s) (Suc s)"
        using bk Q(2) lead(2) that unfolding ballots_kept_def by blast
      moreover have "\<not> strays a t m s" using term_vacant(1) [OF el lead(1) False] by (auto simp: strays_def)
      ultimately show ?thesis unfolding kept_def by (auto simp: less_Suc_eq)
    qed
    moreover have "\<forall>v \<in> Q. s \<le> terms a v" using Q(2) ballot_bounded [OF bd] by blast
    ultimately show ?thesis using Q(1) by blast
  qed
  then obtain Q where Q: "quorum Q" "\<And>v. v \<in> Q \<Longrightarrow> s \<le> terms a v"
    "\<And>v t m. v \<in> Q \<Longrightarrow> acked a v t m \<Longrightarrow> t < s \<Longrightarrow> vital a t m \<Longrightarrow>
      kept a t m (leader_log a s) s \<or> kept a t m (leader_log b s) s" by blast
  have "kept b t m (leader_log b s) s" if "v \<in> Q" "acked b v t m" "t < s" "vital b t m" for v t m
  proof -
    have a: "acked a v t m" by (rule acked_old [OF step el bd that(2,3) Q(2) [OF that(1)]])
    note len = acked_length [OF el a]
    from Q(3) [OF that(1) a that(3) vital_back [OF g len that(4)]] show ?thesis
      using grows_kept [OF g lm _ len order_refl] ys by auto
  qed
  with Q(1,2) terms show "\<exists>Q. quorum Q \<and> (\<forall>v \<in> Q. s \<le> terms b v \<and>
      (\<forall>t m. acked b v t m \<longrightarrow> t < s \<longrightarrow> vital b t m \<longrightarrow> kept b t m (leader_log b s) s))"
    by (meson le_trans)
qed

lemma ledger_inv_step: "ledger_step quorum i a b \<Longrightarrow> ledger_inv quorum a \<Longrightarrow> ledger_inv quorum b"
  unfolding ledger_inv_def
  by (blast intro: bounded_step elected_step logs_match_step acks_kept_step ballots_kept_step leaders_kept_step)

end

text \<open>The ledgers that six kinds of steps can reach.\<close>

definition empty_ledger :: ledger where
  "empty_ledger = \<lparr>terms = (\<lambda>_. 0), logs = (\<lambda>_. []), ballots = {}, stood = Map.empty, led = {},
     leader_log = (\<lambda>_. []), acks = {}\<rparr>"

lemma empty_ledger_inv: "ledger_inv quorum empty_ledger"
  by (auto simp: ledger_inv_def empty_ledger_def bounded_def elected_def logs_match_def log_below_def coherent_def
      acks_kept_def ballots_kept_def leaders_kept_def acked_def)

inductive ledger_reachable :: "(node_id set \<Rightarrow> bool) \<Rightarrow> ledger \<Rightarrow> bool" for quorum where
  start: "ledger_reachable quorum empty_ledger"
| step: "ledger_reachable quorum a \<Longrightarrow> ledger_step quorum i a b \<Longrightarrow> ledger_reachable quorum b"

context ledger_quorum
begin

lemma ledger_reachable_inv: "ledger_reachable quorum a \<Longrightarrow> ledger_inv quorum a"
  by (induction rule: ledger_reachable.induct) (auto intro: empty_ledger_inv ledger_inv_step)

end

section \<open>Committed entries\<close>

text \<open>The first \<open>m\<close> entries of the leader of term \<open>t\<close> are committed: the last of them is its own and a quorum
  is bound to them. \<open>settled\<close> is a prefix of a log that lies within committed entries of terms up to \<open>t\<close>.\<close>

definition committed_in :: "(node_id set \<Rightarrow> bool) \<Rightarrow> ledger \<Rightarrow> u64 \<Rightarrow> nat \<Rightarrow> bool" where
  "committed_in quorum a t m \<longleftrightarrow> vital a t m \<and> (\<exists>Q. quorum Q \<and> (\<forall>v \<in> Q. acked a v t m))"

definition settled :: "(node_id set \<Rightarrow> bool) \<Rightarrow> ledger \<Rightarrow> u64 \<Rightarrow> nat \<Rightarrow> log_entry list \<Rightarrow> bool" where
  "settled quorum a t k xs \<longleftrightarrow> k = 0 \<or>
     (\<exists>s \<le> t. \<exists>m \<ge> k. committed_in quorum a s m \<and> shares k xs (leader_log a s))"

lemma grows_committed: "grows a b \<Longrightarrow> committed_in quorum a t m \<Longrightarrow> committed_in quorum b t m"
  unfolding committed_in_def by (blast intro: grows_vital grows_acked)

lemma grows_settled: "grows a b \<Longrightarrow> settled quorum a t k xs \<Longrightarrow> t \<le> u \<Longrightarrow> settled quorum b u k xs"
  unfolding settled_def by (meson grows_committed grows_shares le_trans)

lemma settled_length: "settled quorum a t k xs \<Longrightarrow> k \<le> length xs"
  by (auto simp: settled_def shares_def)

lemma settled_mono: "settled quorum a t k xs \<Longrightarrow> j \<le> k \<Longrightarrow> settled quorum a t j xs"
  unfolding settled_def by (meson le_trans le_zero_eq shares_mono)

lemma settled_shares: "settled quorum a t k xs \<Longrightarrow> shares k xs ys \<Longrightarrow> settled quorum a t k ys"
  unfolding settled_def by (meson shares_sym shares_trans)

context ledger_quorum
begin

lemma committed_kept:
  assumes "ledger_inv quorum a" and "committed_in quorum a t m" and "(s, c) \<in> led a" and "t < s"
  shows "shares m (leader_log a t) (leader_log a s)"
  using assms(3,4)
proof (induction s arbitrary: c rule: less_induct)
  case (less s)
  from assms(2) obtain P where P: "quorum P" "\<And>v. v \<in> P \<Longrightarrow> acked a v t m" and vital: "vital a t m"
    by (auto simp: committed_in_def)
  from assms(1) less.prems(1) obtain Q where Q: "quorum Q"
    "\<And>v t m. v \<in> Q \<Longrightarrow> acked a v t m \<Longrightarrow> t < s \<Longrightarrow> vital a t m \<Longrightarrow> kept a t m (leader_log a s) s"
    unfolding ledger_inv_def leaders_kept_def by blast
  from intersect [OF P(1) Q(1)] obtain v where "v \<in> P" "v \<in> Q" by blast
  with P(2) Q(2) less.prems(2) vital have "kept a t m (leader_log a s) s" by blast
  moreover have "\<not> strays a t m r" if "r < s" for r
    using less.IH [OF that] by (auto simp: strays_def)
  ultimately show ?case unfolding kept_def by blast
qed

lemma committed_later:
  assumes "ledger_inv quorum a" and "committed_in quorum a t m" and "(s, c) \<in> led a" and "t \<le> s"
  shows "shares m (leader_log a t) (leader_log a s)"
  using committed_kept [OF assms(1-3)] assms(2,4)
  by (cases "t = s") (auto simp: committed_in_def vital_def)

lemma committed_led: "ledger_inv quorum a \<Longrightarrow> committed_in quorum a t m \<Longrightarrow> \<exists>i. (t, i) \<in> led a"
  by (auto simp: committed_in_def vital_def ledger_inv_def dest!: electedD(4))

lemma committed_agree:
  assumes "ledger_inv quorum a" and "committed_in quorum a t m" and "committed_in quorum a s n"
    and "k \<le> m" and "k \<le> n"
  shows "shares k (leader_log a t) (leader_log a s)"
proof -
  have *: "shares k (leader_log a t) (leader_log a s)"
    if "t \<le> s" "committed_in quorum a t m" "committed_in quorum a s n" "k \<le> m" for t s m n
  proof -
    from committed_led [OF assms(1) that(3)] obtain c where "(s, c) \<in> led a" by blast
    from committed_later [OF assms(1) that(2) this that(1)] that(4) show ?thesis by (rule shares_mono)
  qed
  show ?thesis
  proof (cases "t \<le> s")
    case False
    with *[of s t n m] assms show ?thesis by (auto intro: shares_sym)
  qed (use * assms in blast)
qed

text \<open>Two settled prefixes agree, and a leader of a later term has what is settled.\<close>

lemma settled_agree:
  assumes "ledger_inv quorum a" and "settled quorum a t k xs" and "settled quorum a s k ys"
  shows "shares k xs ys"
proof (cases "k = 0")
  case False
  with assms(2,3) obtain t' m s' n where x: "k \<le> m" "committed_in quorum a t' m" "shares k xs (leader_log a t')"
    and y: "k \<le> n" "committed_in quorum a s' n" "shares k ys (leader_log a s')"
    unfolding settled_def by blast
  from x(3) have "shares k xs (leader_log a t')" .
  also have "shares k (leader_log a t') (leader_log a s')" by (rule committed_agree [OF assms(1) x(2) y(2) x(1) y(1)])
  also have "shares k (leader_log a s') ys" using y(3) by (rule shares_sym)
  finally show ?thesis .
qed simp

lemma settled_leader:
  assumes "ledger_inv quorum a" and "settled quorum a t k xs" and "(s, c) \<in> led a" and "t \<le> s"
  shows "shares k xs (leader_log a s)"
proof (cases "k = 0")
  case False
  with assms(2) obtain t' m where x: "t' \<le> t" "k \<le> m" "committed_in quorum a t' m" "shares k xs (leader_log a t')"
    unfolding settled_def by blast
  have "shares m (leader_log a t') (leader_log a s)"
    using x(1) assms(4) by (intro committed_later [OF assms(1) x(3) assms(3)]) simp
  with x(2,4) show ?thesis by (blast intro: shares_mono shares_trans)
qed simp

end

interpretation majority_ledger: ledger_quorum "majority vs" for vs
  by unfold_locales

end
