(* ===== verification/Raft_Moves.thy ===== *)
theory Raft_Moves
  imports Ledger Raft_Agreement
begin

text \<open>
  What one operation of a node of \<^verbatim>\<open>crates/kurogane-raft/src/lib.rs\<close> does to its term, vote, log and role
  when no snapshot is taken: seven kinds of move, what each lets the node say, when the commit
  point advances, and what a crash inside the batch leaves on disk.
\<close>

section \<open>Nodes without a snapshot\<close>

definition plain :: "node \<Rightarrow> bool" where
  "plain n \<longleftrightarrow> steady n \<and> snapshot n = default_metadata"

lemma plain_boundary [simp]: "plain n \<Longrightarrow> boundary n = 0"
  by (simp add: plain_def default_metadata_def)

lemma plain_inv: "plain n \<Longrightarrow> node_inv n"
  by (simp add: plain_def steady_def)

lemma plain_not_joint: "plain n \<Longrightarrow> old_voters (current_config n) = None"
  by (auto simp: plain_def intro: steady_not_joint)

lemma plain_newest: "plain n \<Longrightarrow> last_log_term n = newest (log n)"
  by (simp add: plain_def last_log_term_def newest_def default_metadata_def)

fun quiet_op :: "operation \<Rightarrow> bool" where
  "quiet_op (Op_Event (Step _ (InstallSnapshot _))) = False"
| "quiet_op (Op_Event (Step _ (InstallSnapshotResponse _))) = False"
| "quiet_op (Op_Config_Change _) = False"
| "quiet_op (Op_Compact _ _) = False"
| "quiet_op _ = True"

section \<open>Moves\<close>

text \<open>An accepted batch: the request is from its leader, in a term that is not stale, and the previous
  entry is there with the term the request names.\<close>

definition fits_log :: "append_entries \<Rightarrow> log_entry list \<Rightarrow> bool" where
  "fits_log r xs \<longleftrightarrow> prev_log_index r \<le> length xs \<and>
     (prev_log_index r = 0 \<or> entry_term (xs ! (prev_log_index r - 1)) = prev_log_term r)"

definition accepts :: "node \<Rightarrow> operation \<Rightarrow> append_entries \<Rightarrow> node \<Rightarrow> bool" where
  "accepts n op r n' \<longleftrightarrow> op = Op_Event (Step (ae_leader_id r) (AppendEntries r)) \<and>
     current_term n \<le> ae_term r \<and> current_term n' = ae_term r \<and> fits_log r (log n) \<and>
     log n' = append_at (log n) (prev_log_index r) (entries r) \<and>
     voted_for n' = (if current_term n < ae_term r then None else voted_for n) \<and>
     (role n' = Follower \<or> role n' = role n \<and> role n = Leader \<and> current_term n = ae_term r)"

inductive move :: "node \<Rightarrow> operation \<Rightarrow> node \<Rightarrow> bool" where
  hold: "log n' = log n \<Longrightarrow> current_term n' = current_term n \<Longrightarrow> voted_for n' = voted_for n \<Longrightarrow>
     role n' = role n \<or> role n' = Follower \<Longrightarrow> move n op n'"
| lift: "log n' = log n \<Longrightarrow> current_term n < current_term n' \<Longrightarrow> voted_for n' = None \<Longrightarrow>
     role n' = Follower \<Longrightarrow> move n op n'"
| campaign: "log n' = log n \<Longrightarrow> current_term n' = Suc (current_term n) \<Longrightarrow> voted_for n' = Some (nid n) \<Longrightarrow>
     role n' \<noteq> Follower \<Longrightarrow> is_voter (current_config n) (nid n) \<Longrightarrow> move n op n'"
| grant: "op = Op_Event (Step (candidate_id r) (RequestVote r)) \<Longrightarrow> log n' = log n \<Longrightarrow>
     current_term n \<le> rv_term r \<Longrightarrow> current_term n' = rv_term r \<Longrightarrow>
     log_is_up_to_date r (newest (log n)) (length (log n)) \<Longrightarrow> voted_for n' = Some (candidate_id r) \<Longrightarrow>
     role n' = Follower \<or> role n' = role n \<and> current_term n' = current_term n \<Longrightarrow>
     move n op n'"
| crown: "log n' = log n \<Longrightarrow> current_term n' = current_term n \<Longrightarrow> voted_for n' = voted_for n \<Longrightarrow>
     role n = Candidate \<Longrightarrow> role n' = Leader \<Longrightarrow> move n op n'"
| accept: "accepts n op r n' \<Longrightarrow> move n op n'"
| push: "role n = Leader \<Longrightarrow> log n' = log n @ [e] \<Longrightarrow> entry_term e = current_term n \<Longrightarrow>
     current_term n' = current_term n \<Longrightarrow> voted_for n' = voted_for n \<Longrightarrow>
     role n' = Leader \<or> role n' = Follower \<Longrightarrow> move n op n'"

lemma move_same: "n' = n \<Longrightarrow> move n op n'"
  by (rule move.hold) simp_all

lemma move_step_down: "current_term n < t \<Longrightarrow> move n op (step_down n t)"
  by (rule move.lift) (simp_all add: step_down_def)

lemma become_leader_keeps:
  "become_leader n = Some (n', es) \<Longrightarrow> log n' = log n \<and> current_term n' = current_term n \<and>
     voted_for n' = voted_for n \<and> role n' = Leader \<and> commit_index n' = commit_index n \<and> snapshot n' = snapshot n \<and>
     (\<forall>p m. match_index n' p = Some m \<longrightarrow> m = 0)"
  by (auto simp: become_leader_def run_simps split: if_splits)

lemma move_start_election: "start_election n t = Some (n', es) \<Longrightarrow> move n op n'"
proof (erule start_election_cases)
  fix m es' assume v: "is_voter (current_config n) (nid n)" and "m = become_candidate n (current_term n + 1) t"
    "become_leader m = Some (n', es')"
  with become_leader_keeps [of m n' es'] show "move n op n'"
    by (intro move.campaign) (simp_all add: become_candidate_def)
qed (auto intro: move_same move.campaign simp: become_candidate_def)

lemma advance_keeps:
  assumes "advance_commit_index n = Some (n', es)" and "old_voters (current_config n) = None"
  shows "log n' = log n \<and> current_term n' = current_term n \<and> voted_for n' = voted_for n \<and> nid n' = nid n \<and>
    snapshot n' = snapshot n \<and> current_config n' = current_config n \<and>
    (role n' = role n \<or> role n' = Follower) \<and> (\<forall>p m. match_index n' p = Some m \<longrightarrow> match_index n p = Some m)"
  using assms(1)
proof (cases rule: advance_commit_index_cases)
  case (plain n1)
  then show ?thesis
    by (auto dest!: advance_point_frame simp: retire_if_excluded_def retire_from_leadership_def)
next
  case (follow_up n1 n2 persist n3)
  with assms(2) show ?thesis by (auto dest!: advance_point_frame simp: joint_committed_def)
qed

lemma move_on_tick: "on_tick n t = Some (n', es) \<Longrightarrow> move n op n'"
proof (cases "role n = Leader")
  case True
  assume "on_tick n t = Some (n', es)"
  with True show ?thesis
    by (auto simp: on_tick_def on_leader_tick_def run_simps split: if_splits intro!: move.hold)
next
  case False
  assume tick: "on_tick n t = Some (n', es)"
  let ?m = "n\<lparr>election_elapsed := election_elapsed n + 1, leader_contact_elapsed := leader_contact_elapsed n + 1\<rparr>"
  from on_tick_follower [OF tick False] have "n' = ?m \<or> start_election ?m t = Some (n', es)" by blast
  then show ?thesis
  proof
    assume "start_election ?m t = Some (n', es)"
    from move_start_election [OF this, of op] show ?thesis
      by cases (auto intro: move.intros simp: accepts_def)
  qed (simp add: move.hold)
qed

lemma accepts_accepted:
  assumes "plain n" and "current_term n \<le> ae_term r" and "n' = accepted (observe_leader n (ae_term r)) r"
    and "prev_log_index r \<le> boundary n + length (log n)"
    and "prev_log_index r \<le> boundary n \<or>
      log_term_at (observe_leader n (ae_term r)) (prev_log_index r) = Some (prev_log_term r)"
  shows "accepts n (Op_Event (Step (ae_leader_id r) (AppendEntries r))) r n'"
proof -
  have b: "boundary n = 0" "boundary (observe_leader n (ae_term r)) = 0" using assms(1) by simp_all
  have "fits_log r (log n)"
    using assms(4,5) b by (auto simp: fits_log_def log_term_at_def log_entry_at_def split: if_splits)
  moreover have "log n' = append_at (log n) (prev_log_index r) (entries r)"
    using assms(3) b by (simp add: accepted_frame merged_log_def)
  moreover have "current_term n' = ae_term r \<and>
      voted_for n' = (if current_term n < ae_term r then None else voted_for n) \<and>
      (role n' = Follower \<or> role n' = role n \<and> role n = Leader \<and> current_term n = ae_term r)"
    using assms(2,3) by (cases "role n") (auto simp: accepted_def Let_def observe_leader_def step_down_def)
  ultimately show ?thesis using assms(2) by (simp add: accepts_def)
qed

lemma move_on_append_entries:
  assumes "on_append_entries n (ae_leader_id r) r = Some (n', es)" and "plain n"
  shows "move n (Op_Event (Step (ae_leader_id r) (AppendEntries r))) n'"
  using assms(1) plain_inv [OF assms(2)]
proof (cases rule: on_append_entries_cases)
  case stale
  then show ?thesis by (simp add: move_same)
next
  case (mismatch m)
  show ?thesis
  proof (cases "current_term n < ae_term r")
    case True
    with mismatch show ?thesis by (intro move.lift) (simp_all add: observe_leader_def step_down_def)
  next
    case False
    with mismatch show ?thesis by (intro move.hold) (simp_all add: observe_leader_def Let_def)
  qed
next
  case (accept m)
  with assms(2) show ?thesis by (intro move.accept [of _ _ r] accepts_accepted) simp_all
qed

lemma move_on_request_vote:
  assumes "on_request_vote n (candidate_id r) r = Some (n', es)" and "plain n"
  shows "move n (Op_Event (Step (candidate_id r) (RequestVote r))) n'"
  using assms(1)
proof (cases rule: on_request_vote_cases)
  case refused
  then show ?thesis by (simp add: move_same)
next
  case (answered m grant)
  show ?thesis
  proof (cases grant)
    case True
    with answered assms(2) show ?thesis
      by (intro move.grant [of _ r]) (auto simp: step_down_def plain_newest)
  next
    case False
    with answered show ?thesis
      by (cases "current_term n < rv_term r") (auto intro: move_same move_step_down)
  qed
qed

lemma move_on_request_vote_response:
  assumes "on_request_vote_response n sender r = Some (n', es)"
  shows "move n op n'"
proof -
  let ?m = "n\<lparr>votes_granted := insert sender (votes_granted n)\<rparr>"
  from assms consider "n' = n" | "current_term n < rvr_term r" "n' = step_down n (rvr_term r)" | "n' = ?m"
    | "role n = Candidate" "become_leader ?m = Some (n', es)"
    by (auto simp: on_request_vote_response_def Let_def split: if_splits)
  then show ?thesis
  proof cases
    case 4
    with become_leader_keeps [OF 4(2)] show ?thesis by (intro move.crown) auto
  qed (auto intro: move_same move_step_down move.hold)
qed

lemma move_on_append_entries_response:
  assumes "on_append_entries_response n sender r = Some (n', es)" and "plain n"
  shows "move n op n'"
  using assms(1) plain_not_joint [OF assms(2)]
  by (auto simp: on_append_entries_response_def run_simps split: if_splits
      intro: move_same move_step_down move.hold dest!: continue_replication_frame advance_keeps)

lemma move_propose:
  assumes "propose n cmd = Some (n', res)" and "plain n"
  shows "move n op n'"
proof (cases "role n = Leader")
  case True
  let ?e = "\<lparr>entry_term = current_term n, payload = Command cmd\<rparr>"
  from True assms(1) obtain n1 es where n1: "recompute_config (n\<lparr>log := log n @ [?e]\<rparr>) = Some n1"
    and adv: "advance_commit_index n1 = Some (n', es)"
    by (auto simp: propose_def bind_eq_Some_conv Let_def)
  note eq = recompute_config_eq_Some [OF n1]
  have cmds: "list_all is_command (log n @ [?e])" using assms(2) by (simp add: plain_def steady_def is_command_def)
  have "old_voters (current_config n1) = None"
    using eq cmds replay_commands [OF cmds] assms(2) by (simp add: config_in_force_def plain_def steady_def)
  from advance_keeps [OF adv this] eq True show ?thesis
    by (intro move.push [of _ _ ?e]) auto
qed (use assms in \<open>auto simp: propose_def intro: move_same\<close>)

lemma move_run_op:
  assumes "run_op n op = Some (n', es)" and "plain n" and "quiet_op op"
  shows "move n op n'"
proof (cases op)
  case (Op_Event ev)
  show ?thesis
  proof (cases "(n, ev)" rule: step.cases)
    case (1 m t)
    with assms(1) Op_Event show ?thesis by (auto intro: move_on_tick)
  next
    case (2 m sender r)
    with assms(1,2) Op_Event show ?thesis by (auto split: if_splits intro: move_on_append_entries move_same)
  next
    case (4 m sender r)
    with assms(1,2) Op_Event show ?thesis by (auto split: if_splits intro: move_on_request_vote move_same)
  next
    case (5 m sender r)
    with assms(1,2) Op_Event show ?thesis by (auto split: if_splits intro: move_on_request_vote_response move_same)
  next
    case (6 m sender r)
    with assms(1,2) Op_Event show ?thesis by (auto split: if_splits intro: move_on_append_entries_response move_same)
  qed (use assms(3) Op_Event in auto)
next
  case (Op_Propose cmd)
  with assms(1,2) show ?thesis by (auto simp: bind_eq_Some_conv intro: move_propose)
next
  case (Op_Add_Learner i)
  with assms(1) show ?thesis by (auto simp: add_learner_def run_simps split: if_splits intro: move_same move.hold)
next
  case (Op_Remove_Learner i)
  with assms(1) show ?thesis by (auto simp: remove_learner_def Let_def split: if_splits intro: move_same move.hold)
qed (use assms(3) in simp_all)

section \<open>The snapshot stays\<close>

lemma snapshot_start_election: "start_election n t = Some (n', es) \<Longrightarrow> snapshot n' = snapshot n"
  by (erule start_election_cases) (auto simp: become_candidate_def dest!: become_leader_keeps)

lemma snapshot_on_tick: "on_tick n t = Some (n', es) \<Longrightarrow> snapshot n' = snapshot n"
  by (cases "role n = Leader")
     (auto simp: on_tick_def on_leader_tick_def run_simps split: if_splits dest!: snapshot_start_election)

lemma snapshot_propose:
  assumes "propose n cmd = Some (n', res)" and "plain n"
  shows "snapshot n' = snapshot n"
proof (cases "role n = Leader")
  case True
  let ?e = "\<lparr>entry_term = current_term n, payload = Command cmd\<rparr>"
  from True assms(1) obtain n1 es where n1: "recompute_config (n\<lparr>log := log n @ [?e]\<rparr>) = Some n1"
    and adv: "advance_commit_index n1 = Some (n', es)"
    by (auto simp: propose_def bind_eq_Some_conv Let_def)
  have "snapshot n1 = snapshot n" using recompute_config_eq_Some [OF n1] by simp
  with adv show ?thesis
    by (elim advance_commit_index_preserves [where P = "\<lambda>m. snapshot m = snapshot n"])
       (auto dest!: advance_point_frame push_follow_up_frame simp: retire_from_leadership_def)
qed (use assms in \<open>auto simp: propose_def\<close>)

lemma snapshot_run_op:
  assumes "run_op n op = Some (n', es)" and "plain n" and "quiet_op op"
  shows "snapshot n' = snapshot n"
proof (cases op)
  case (Op_Event ev)
  show ?thesis
  proof (cases "(n, ev)" rule: step.cases)
    case (1 m t)
    with assms(1) Op_Event show ?thesis by (auto intro: snapshot_on_tick)
  next
    case (2 m sender r)
    with assms(1) plain_inv [OF assms(2)] Op_Event show ?thesis
      by (auto split: if_splits elim!: on_append_entries_cases simp: accepted_frame)
  next
    case (4 m sender r)
    with assms(1) Op_Event show ?thesis
      by (auto split: if_splits elim!: on_request_vote_cases simp: step_down_def)
  next
    case (5 m sender r)
    with assms(1) Op_Event show ?thesis
      by (auto simp: on_request_vote_response_def Let_def step_down_def split: if_splits dest!: become_leader_keeps)
  next
    case (6 m sender r)
    with assms(1) plain_not_joint [OF assms(2)] Op_Event show ?thesis
      by (auto simp: on_append_entries_response_def run_simps step_down_def split: if_splits
          dest!: continue_replication_frame advance_keeps)
  qed (use assms(3) Op_Event in auto)
next
  case (Op_Propose cmd)
  with assms(1,2) show ?thesis by (auto simp: bind_eq_Some_conv intro: snapshot_propose)
next
  case (Op_Add_Learner i)
  with assms(1) show ?thesis by (auto simp: add_learner_def run_simps split: if_splits)
next
  case (Op_Remove_Learner i)
  with assms(1) show ?thesis by (auto simp: remove_learner_def Let_def split: if_splits)
qed (use assms(3) in simp_all)

section \<open>What a move lets the node say\<close>

fun tells :: "node \<Rightarrow> operation \<Rightarrow> node \<Rightarrow> effect \<Rightarrow> bool" where
  "tells n op n' (Send to (AppendEntries r)) \<longleftrightarrow> role n' = Leader \<and> ae_term r = current_term n' \<and>
     ae_leader_id r = nid n' \<and> fits_log r (log n') \<and>
     entries r = drop (prev_log_index r) (log n') \<and> leader_commit r = commit_index n'"
| "tells n op n' (Send to (RequestVote r)) \<longleftrightarrow> role n' = Candidate \<and> rv_term r = current_term n' \<and>
     rv_last_log_index r = length (log n') \<and> rv_last_log_term r = newest (log n')"
| "tells n op n' (Send to (AppendEntriesResponse a)) \<longleftrightarrow> (success a \<longrightarrow>
     (\<exists>r. accepts n op r n' \<and> aer_term a = current_term n' \<and>
        aer_match_index a = prev_log_index r + length (entries r)))"
| "tells n op n' (Send to (InstallSnapshot r)) \<longleftrightarrow> False"
| "tells n op n' (Send to (InstallSnapshotResponse r)) \<longleftrightarrow> False"
| "tells n op n' _ \<longleftrightarrow> True"

lemma tells_write: "\<not> is_send e \<Longrightarrow> tells n op n' e"
  by (cases e) auto

lemma tells_replicate:
  assumes "replicate_to n p = Some e" and "role n = Leader" and "boundary n = 0" and "node_inv n"
  shows "tells m op n e"
proof -
  from assms(1) obtain i where i: "next_index n p = Some i" by (auto simp: replicate_to_def run_simps)
  with assms(4) have "0 < i" by (auto simp: node_inv_def progress_ok_def)
  then obtain j where j: "i = Suc j" by (cases i) auto
  have "0 < j \<Longrightarrow> j \<le> length (log n) \<Longrightarrow> log_term_at n j = Some (entry_term (log n ! (j - 1)))"
    using assms(3) by (auto simp: log_term_at_def log_entry_at_def)
  with assms i j show ?thesis
    by (cases "j = 0") (auto simp: replicate_to_def run_simps fits_log_def)
qed

lemma tells_broadcast:
  "broadcast_replication n = Some es \<Longrightarrow> role n = Leader \<Longrightarrow> boundary n = 0 \<Longrightarrow> node_inv n \<Longrightarrow> e \<in> set es \<Longrightarrow>
     tells m op n e"
  by (auto simp: broadcast_replication_def dest!: collect_set tells_replicate)

lemma tells_become_leader:
  assumes "become_leader n = Some (n', es)" and "boundary n = 0" and "node_inv n" and "e \<in> set es"
  shows "tells m op n' e"
proof -
  have "broadcast_replication n' = Some es" using assms(1) by (auto simp: become_leader_def run_simps)
  then show ?thesis
    using become_leader_keeps [OF assms(1)] node_inv_become_leader [OF assms(1,3)] assms(2,4)
    by (auto intro: tells_broadcast)
qed

lemma tells_start_election:
  assumes "start_election n t = Some (n', es)" and "plain n" and "role n \<noteq> Leader" and "e \<in> set es"
  shows "tells m op n' e"
  using assms(1)
proof (cases rule: start_election_cases)
  case (elected k es')
  have "node_inv k" 
    using assms(3) plain_inv [OF assms(2)] elected(2)
    by (auto simp: node_inv_def config_in_force_def become_candidate_def elim: progress_ok_follower)
  with elected assms(2,4) show ?thesis
    by (auto intro: tells_become_leader simp: become_candidate_def)
next
  case (campaign k es')
  with assms(2,4) plain_newest [OF assms(2)] show ?thesis
    by (fastforce simp: become_candidate_def newest_def)
qed (use assms(4) in simp)

lemma tells_continue:
  assumes "continue_replication n sender es = Some (n', es')" and "e \<in> set es'"
    and "\<And>e. e \<in> set es \<Longrightarrow> \<not> is_send e" and "boundary n = 0" and "node_inv n"
  shows "tells m op n' e"
proof -
  have "n' = n" using continue_replication_frame [OF assms(1)] by simp
  moreover have "e \<in> set es \<or> role n = Leader \<and> replicate_to n sender = Some e"
    using assms(1,2) by (auto simp: continue_replication_def run_simps split: if_splits)
  ultimately show ?thesis using assms(3-5) tells_write tells_replicate by blast
qed

lemma tells_batch:
  "request_batch sender (RequestVote r) es \<Longrightarrow> e \<in> set es \<Longrightarrow> tells n op n' e"
  by (auto simp: request_batch_def list_all_iff elim!: replies_to.elims is_write.elims
      intro: tells_write dest!: bspec)

lemma reply_batch:
  assumes "es = [] \<or> request_batch sender (AppendEntries r) es" and "e \<in> set es"
  shows "\<not> is_send e \<or> (\<exists>a. e = Send sender (AppendEntriesResponse a))"
proof -
  from assms obtain ws reply where es: "es = ws @ [Send sender reply]" and ws: "list_all is_write ws"
    and reply: "replies_to (AppendEntries r) reply" unfolding request_batch_def by fastforce
  have "\<not> is_send x" if "x \<in> set ws" for x using ws that by (cases x) (auto simp: list_all_iff)
  with assms(2) es reply show ?thesis by (auto elim: replies_to.elims)
qed

lemma advance_no_effects:
  "advance_commit_index n = Some (n', es) \<Longrightarrow> old_voters (current_config n) = None \<Longrightarrow> es = []"
  using advance_not_joint by blast

text \<open>What an answer to a batch does to a leader outside a joint phase.\<close>

lemma append_response_cases:
  assumes "on_append_entries_response n p r = Some (n', es)" and "old_voters (current_config n) = None"
  obtains (newer) "current_term n < aer_term r" "n' = step_down n (aer_term r)"
      "es = [PersistHardState (aer_term r) None]"
  | (ignored) "n' = n" "es = []"
  | (advance) m where "aer_term r = current_term n" "role n = Leader" "success r" "match_index n p = Some m"
      "advance_commit_index (n\<lparr>match_index := (match_index n)(p \<mapsto> max m (aer_match_index r)),
         next_index := (next_index n)(p \<mapsto> Suc (max m (aer_match_index r)))\<rparr>) = Some (n', [])"
      "continue_replication n' p [] = Some (n', es)"
  | (retry) i where "aer_term r = current_term n" "role n = Leader" "\<not> success r" "next_index n p = Some i"
      "n' = n\<lparr>next_index := (next_index n)(p \<mapsto> max (i - 1) 1)\<rparr>"
      "continue_replication n' p [] = Some (n', es)"
proof (cases "current_term n < aer_term r")
  case True
  with assms(1) show thesis
    by (intro newer) (auto simp: on_append_entries_response_def step_down_def Let_def)
next
  case older: False
  show thesis
  proof (cases "aer_term r < current_term n \<or> role n \<noteq> Leader")
    case True
    with older assms(1) show thesis by (intro ignored) (auto simp: on_append_entries_response_def)
  next
    case False
    with older have t: "aer_term r = current_term n" "role n = Leader" by auto
    show thesis
    proof (cases "success r")
      case True
      with t assms(1) obtain m k es1 where m: "match_index n p = Some m"
        and adv: "advance_commit_index (n\<lparr>match_index := (match_index n)(p \<mapsto> max m (aer_match_index r)),
          next_index := (next_index n)(p \<mapsto> Suc (max m (aer_match_index r)))\<rparr>) = Some (k, es1)"
        and c: "continue_replication k p es1 = Some (n', es)"
        by (simp add: on_append_entries_response_def run_simps) blast
      have "es1 = []" using advance_no_effects [OF adv] assms(2) by simp
      moreover have "n' = k" using continue_replication_frame [OF c] by simp
      ultimately show thesis using t True m adv c by (intro advance) auto
    next
      case False
      with t assms(1) obtain i where i: "next_index n p = Some i"
        and c: "continue_replication (n\<lparr>next_index := (next_index n)(p \<mapsto> max (i - 1) 1)\<rparr>) p [] = Some (n', es)"
        by (auto simp: on_append_entries_response_def run_simps)
      from continue_replication_frame [OF c] t False i c show thesis by (intro retry) auto
    qed
  qed
qed

lemma tells_step:
  assumes "step n ev = Some (n', es)" and "plain n" and "quiet_op (Op_Event ev)" and "e \<in> set es"
  shows "tells n (Op_Event ev) n' e"
proof (cases "(n, ev)" rule: step.cases)
  case (1 m t)
  note inv = plain_inv [OF assms(2)] and b = plain_boundary [OF assms(2)]
  show ?thesis
  proof (cases "role n = Leader")
    case True
    with 1 assms(1,4) inv b show ?thesis
      by (auto simp: on_tick_def on_leader_tick_def run_simps split: if_splits intro!: tells_broadcast)
  next
    case False
    with 1 assms(1) have tick: "on_tick n t = Some (n', es)" by simp
    let ?m = "n\<lparr>election_elapsed := election_elapsed n + 1, leader_contact_elapsed := leader_contact_elapsed n + 1\<rparr>"
    have "plain ?m" using assms(2) by (simp add: plain_def steady_def)
    have "n' = ?m \<and> es = [] \<or> start_election ?m t = Some (n', es)"
      using on_tick_follower [OF tick False] by blast
    then have "start_election ?m t = Some (n', es)" using assms(4) by (metis empty_iff empty_set)
    then show ?thesis by (rule tells_start_election [OF _ \<open>plain ?m\<close> _ assms(4)]) (simp add: False)
  qed
next
  case (2 m sender r)
  show ?thesis
  proof (cases "ae_leader_id r = sender")
    case True
    with 2 assms(1) have app: "on_append_entries n sender r = Some (n', es)" by simp
    note inv = plain_inv [OF assms(2)]
    have batch: "\<not> is_send e \<or> (\<exists>a. e = Send sender (AppendEntriesResponse a))"
      using request_batch_step [of n sender "AppendEntries r" n' es] 2 assms(1,4) inv
      by (intro reply_batch [of es sender r]) auto
    show ?thesis
    proof (cases "\<exists>a. e = Send sender (AppendEntriesResponse a) \<and> success a")
      case accepted: True
      then obtain a where a: "e = Send sender (AppendEntriesResponse a)" "success a" by blast
      with assms(4) have "Send sender (AppendEntriesResponse a) \<in> set es" by simp
      from append_accepted [OF app inv this a(2)] True 2 assms(2) a(1) show ?thesis
        by (metis accepts_accepted tells.simps(3) Pair_inject)
    next
      case False
      with batch show ?thesis by (auto intro: tells_write)
    qed
  qed (use 2 assms in auto)
next
  case (4 m sender r)
  with assms request_batch_step [of n sender "RequestVote r" n' es] plain_inv [OF assms(2)] show ?thesis
    by (auto intro: tells_batch)
next
  case (5 m sender r)
  let ?m = "n\<lparr>votes_granted := insert sender (votes_granted n)\<rparr>"
  from 5 assms(1,4) consider "become_leader ?m = Some (n', es)" | "\<not> is_send e"
    by (auto simp: on_request_vote_response_def Let_def split: if_splits)
  then show ?thesis
    using assms(2,4) plain_inv [OF assms(2)] by cases (auto intro: tells_become_leader tells_write)
next
  case (6 m sender r)
  show ?thesis
  proof (cases "is_send e")
    case True
    have "on_append_entries_response n sender r = Some (n', es)"
      using 6 assms(1,4) by (auto split: if_splits)
    from this plain_not_joint [OF assms(2)] have k: "continue_replication n' sender [] = Some (n', es)"
      by (cases rule: append_response_cases) (use True assms(4) in auto)
    have inv: "node_inv n'" using 6 assms(1) plain_inv [OF assms(2)] node_inv_step [of n ev n' es] by simp
    have "snapshot n' = snapshot n" using snapshot_run_op [of n "Op_Event ev" n' es] assms by simp
    with assms(2) have "boundary n' = 0" by (simp add: plain_def default_metadata_def)
    with inv show ?thesis by (intro tells_continue [OF k assms(4)]) auto
  qed (rule tells_write)
qed (use assms(3) in auto)

lemma tells_run_op:
  assumes "run_op n op = Some (n', es)" and "plain n" and "quiet_op op" and "e \<in> set es"
  shows "tells n op n' e"
proof (cases op)
  case (Op_Event ev)
  with assms show ?thesis by (auto intro: tells_step)
qed (use assms in \<open>auto simp: run_simps propose_def add_learner_def
      remove_learner_def effects_of_def Let_def split: if_splits intro: tells_write dest!: advance_writes\<close>)

section \<open>What a leader knows and commits\<close>

text \<open>The index up to which a peer is known to hold the log, the answer being handled included.\<close>

definition reported :: "node \<Rightarrow> operation \<Rightarrow> node_id \<Rightarrow> u64" where
  "reported n op p = max (case match_index n p of Some m \<Rightarrow> m | None \<Rightarrow> 0)
     (case op of Op_Event (Step q (AppendEntriesResponse r)) \<Rightarrow>
        if q = p \<and> success r \<and> aer_term r = current_term n then aer_match_index r else 0
      | _ \<Rightarrow> 0)"

definition knows :: "node \<Rightarrow> operation \<Rightarrow> node \<Rightarrow> bool" where
  "knows n op n' \<longleftrightarrow> (\<forall>p m. match_index n' p = Some m \<longrightarrow> m = 0 \<or>
     role n = Leader \<and> current_term n' = current_term n \<and> m \<le> reported n op p)"

definition commits :: "node \<Rightarrow> operation \<Rightarrow> node \<Rightarrow> bool" where
  "commits n op n' \<longleftrightarrow> commit_index n' = commit_index n \<or>
     (\<exists>r. accepts n op r n' \<and> commit_index n' = min (leader_commit r) (length (log n'))) \<or>
     role n = Leader \<and> current_term n' = current_term n \<and>
       log_term_at n' (commit_index n') = Some (current_term n) \<and>
       majority_reached (voters (current_config n)) (\<lambda>p. p = nid n \<or> commit_index n' \<le> reported n op p)"

lemma match_reported: "match_index n p = Some m \<Longrightarrow> m \<le> reported n op p"
  by (simp add: reported_def)

lemma knows_same: "match_index n' = match_index n \<Longrightarrow> current_term n' = current_term n \<Longrightarrow> node_inv n \<Longrightarrow> knows n op n'"
  by (fastforce simp: knows_def node_inv_def progress_ok_def intro: match_reported)

lemma knows_none: "(\<And>p m. match_index n' p = Some m \<Longrightarrow> m = 0) \<Longrightarrow> knows n op n'"
  by (auto simp: knows_def)

lemma observe_leader_knows:
  assumes "node_inv n" and "current_term n \<le> t"
  shows "match_index (observe_leader n t) = match_index n \<and> current_term (observe_leader n t) = current_term n \<or>
    match_index (observe_leader n t) = Map.empty"
  using assms by (auto simp: observe_leader_def step_down_def Let_def)

lemma commits_same: "commit_index n' = commit_index n \<Longrightarrow> commits n op n'"
  by (simp add: commits_def)

lemma start_election_knows:
  "start_election n t = Some (n', es) \<Longrightarrow> role n \<noteq> Leader \<Longrightarrow> node_inv n \<Longrightarrow>
     commit_index n' = commit_index n \<and> (\<forall>p m. match_index n' p = Some m \<longrightarrow> m = 0)"
  by (erule start_election_cases)
     (auto simp: become_candidate_def node_inv_def progress_ok_def dest!: become_leader_keeps)

lemma on_tick_knows:
  assumes "on_tick n t = Some (n', es)" and "node_inv n"
  shows "commit_index n' = commit_index n \<and> knows n op n'"
proof (cases "role n = Leader")
  case True
  with assms show ?thesis
    by (auto simp: on_tick_def on_leader_tick_def run_simps split: if_splits intro!: knows_same)
next
  case False
  let ?m = "n\<lparr>election_elapsed := election_elapsed n + 1, leader_contact_elapsed := leader_contact_elapsed n + 1\<rparr>"
  from on_tick_follower [OF assms(1) False] have "n' = ?m \<or> start_election ?m t = Some (n', es)" by blast
  then show ?thesis
  proof
    assume "start_election ?m t = Some (n', es)"
    from start_election_knows [OF this] False assms(2) show ?thesis by (auto intro: knows_none)
  qed (simp add: knows_same assms(2))
qed

lemma rule_commits:
  assumes "commit_rule m es n'" and "role n = Leader" and "current_term n' = current_term n"
    and "current_term m = current_term n" and "nid m = nid n" and "current_config m = current_config n"
    and "\<And>p k. match_index m p = Some k \<Longrightarrow> k \<le> reported n op p"
  shows "commits n op n'"
proof -
  have "majority_reached (voters (current_config n)) (holds m (commit_index n'))"
    using assms(1,6) by (simp add: commit_rule_def)
  then have "majority_reached (voters (current_config n)) (\<lambda>q. q = nid n \<or> commit_index n' \<le> reported n op q)"
  proof (rule majority_reached_mono)
    fix q assume "holds m (commit_index n') q"
    then show "q = nid n \<or> commit_index n' \<le> reported n op q"
      using assms(5) assms(7) [of q] by (cases "match_index m q") (auto simp: holds_def intro: le_trans)
  qed
  with assms(1-4) show ?thesis by (simp add: commits_def commit_rule_def)
qed

lemma propose_knows:
  assumes "propose n cmd = Some (n', res)" and "plain n"
  shows "commits n (Op_Propose cmd) n'" and "knows n (Op_Propose cmd) n'"
proof -
  have both: "commits n (Op_Propose cmd) n' \<and> knows n (Op_Propose cmd) n'"
  proof (cases "role n = Leader")
    case True
    let ?e = "\<lparr>entry_term = current_term n, payload = Command cmd\<rparr>"
    from True assms(1) obtain n1 es where n1: "recompute_config (n\<lparr>log := log n @ [?e]\<rparr>) = Some n1"
      and adv: "advance_commit_index n1 = Some (n', es)"
      by (auto simp: propose_def bind_eq_Some_conv Let_def)
    have cmds: "list_all is_command (log n @ [?e])" using assms(2) by (simp add: plain_def steady_def is_command_def)
    have "current_config n1 = snapshot_config n"
      using recompute_config_eq_Some [OF n1] cmds replay_commands [OF cmds] by (simp add: config_in_force_def)
    then have eq: "current_config n1 = current_config n" "match_index n1 = match_index n" "nid n1 = nid n"
      "commit_index n1 = commit_index n" "current_term n1 = current_term n" "role n1 = role n"
      using recompute_config_eq_Some [OF n1] assms(2) by (simp_all add: plain_def steady_config)
    have k: "knows n (Op_Propose cmd) n'"
      using advance_keeps [OF adv] eq plain_not_joint [OF assms(2)] True
      by (auto simp: knows_def intro: match_reported)
    have "commits n (Op_Propose cmd) n'" if "commit_index n' \<noteq> commit_index n"
      using that eq True advance_keeps [OF adv] plain_not_joint [OF assms(2)]
      by (intro rule_commits [OF advance_commits [OF adv]]) (auto intro: match_reported)
    with k commits_same show ?thesis by blast
  qed (use assms plain_inv in \<open>auto simp: propose_def intro: commits_same knows_same\<close>)
  show "commits n (Op_Propose cmd) n'" "knows n (Op_Propose cmd) n'" using both by blast+
qed

lemma response_knows:
  assumes "on_append_entries_response n p r = Some (n', es)" and "plain n"
  defines "op \<equiv> Op_Event (Step p (AppendEntriesResponse r))"
  shows "commits n op n' \<and> knows n op n'"
  using assms(1) plain_not_joint [OF assms(2)]
proof (cases rule: append_response_cases)
  case newer
  then show ?thesis by (auto simp: step_down_def intro: commits_same knows_none)
next
  case ignored
  then show ?thesis using plain_inv [OF assms(2)] by (auto intro: commits_same knows_same)
next
  case (advance m)
  let ?n1 = "n\<lparr>match_index := (match_index n)(p \<mapsto> max m (aer_match_index r)),
      next_index := (next_index n)(p \<mapsto> Suc (max m (aer_match_index r)))\<rparr>"
  have rep: "match_index ?n1 q = Some k \<Longrightarrow> k \<le> reported n op q" for q k
    using advance(1,3,4) by (auto simp: reported_def op_def split: if_splits)
  have keeps: "current_term n' = current_term n" "\<And>q k. match_index n' q = Some k \<Longrightarrow> match_index ?n1 q = Some k"
    using advance_keeps [OF advance(5)] plain_not_joint [OF assms(2)] by auto
  have k: "knows n op n'" using keeps rep advance(2) by (auto simp: knows_def)
  have "commits n op n'" if "commit_index n' \<noteq> commit_index n"
    using that keeps(1) advance(2) rep by (intro rule_commits [OF advance_commits [OF advance(5)]]) auto
  with k commits_same show ?thesis by blast
next
  case (retry i)
  then show ?thesis using plain_inv [OF assms(2)] by (auto intro: commits_same knows_same)
qed

lemma append_knows:
  assumes "on_append_entries n (ae_leader_id r) r = Some (n', es)" and "plain n"
  defines "op \<equiv> Op_Event (Step (ae_leader_id r) (AppendEntries r))"
  shows "commits n op n' \<and> knows n op n'"
  using assms(1) plain_inv [OF assms(2)]
proof (cases rule: on_append_entries_cases)
  case stale
  then show ?thesis using plain_inv [OF assms(2)] by (auto intro: commits_same knows_same)
next
  case (mismatch m)
  then show ?thesis
    using observe_leader_knows [OF plain_inv [OF assms(2)] mismatch(1)] plain_inv [OF assms(2)]
    by (auto intro: commits_same knows_same knows_none)
next
  case (accept m)
  have acc: "accepts n op r n'"
    using accept assms(2) unfolding op_def by (intro accepts_accepted) simp_all
  have eq: "match_index n' = match_index m" "current_term n' = current_term m"
    using accept(6) by (simp_all add: accepted_def Let_def)
  have b: "boundary m = 0" using accept(2) assms(2) by simp
  have c: "commit_index n' = (if commit_index n < leader_commit r
      then min (leader_commit r) (length (log n')) else commit_index n)"
    using accept(2,6) b by (simp add: accepted_def Let_def)
  have "knows n op n'"
    using observe_leader_knows [OF plain_inv [OF assms(2)] accept(1)] accept(2) eq plain_inv [OF assms(2)]
    by (auto intro: knows_same knows_none)
  with acc c show ?thesis by (auto simp: commits_def)
qed

lemma knows_run_op:
  assumes "run_op n op = Some (n', es)" and "plain n" and "quiet_op op"
  shows "commits n op n' \<and> knows n op n'"
proof (cases op)
  note inv = plain_inv [OF assms(2)]
  have same: "commits n op n' \<and> knows n op n'" if "n' = n" using that inv by (auto intro: commits_same knows_same)
  case (Op_Event ev)
  show ?thesis
  proof (cases "(n, ev)" rule: step.cases)
    case (1 m t)
    with assms(1) inv Op_Event on_tick_knows [of n t n' es op] show ?thesis by (auto intro: commits_same)
  next
    case (2 m sender r)
    with assms(1,2) Op_Event append_knows [of n r n' es] same show ?thesis by (auto split: if_splits)
  next
    case (4 m sender r)
    have "match_index n = Map.empty" if "role n \<noteq> Leader" using inv that by (auto simp: node_inv_def progress_ok_def)
    with 4 assms(1) inv Op_Event same show ?thesis
      by (auto split: if_splits elim!: on_request_vote_cases simp: step_down_def intro: commits_same knows_same knows_none)
  next
    case (5 m sender r)
    with assms(1) inv Op_Event same show ?thesis
      by (auto simp: on_request_vote_response_def Let_def step_down_def split: if_splits
          intro: commits_same knows_same knows_none dest!: become_leader_keeps)
  next
    case (6 m sender r)
    with assms(1,2) Op_Event response_knows [of n sender r n' es] same show ?thesis by (auto split: if_splits)
  qed (use assms(3) Op_Event in auto)
next
  case (Op_Propose cmd)
  with assms(1,2) show ?thesis by (auto simp: bind_eq_Some_conv intro: propose_knows)
next
  case (Op_Add_Learner i)
  with assms(1) have "n' = n \<or> role n = Leader \<and> commit_index n' = commit_index n \<and> current_term n' = current_term n \<and>
      match_index n' = (case match_index n i of None \<Rightarrow> (match_index n)(i \<mapsto> 0) | Some _ \<Rightarrow> match_index n)"
    by (simp add: add_learner_def run_simps split: if_splits) fastforce
  then have "n' = n \<or> role n = Leader \<and> commit_index n' = commit_index n \<and> current_term n' = current_term n \<and>
      (\<forall>p m. match_index n' p = Some m \<longrightarrow> m = 0 \<or> match_index n p = Some m)"
    by (cases "match_index n i") (auto split: if_splits)
  then show ?thesis
  proof
    assume "n' = n"
    with plain_inv [OF assms(2)] show ?thesis by (simp add: commits_same knows_same)
  next
    assume new: "role n = Leader \<and> commit_index n' = commit_index n \<and> current_term n' = current_term n \<and>
      (\<forall>p m. match_index n' p = Some m \<longrightarrow> m = 0 \<or> match_index n p = Some m)"
    then have "knows n op n'" unfolding knows_def using match_reported by blast
    with new show ?thesis by (simp add: commits_same)
  qed
next
  case (Op_Remove_Learner i)
  with assms(1) plain_inv [OF assms(2)] show ?thesis
    by (auto simp: remove_learner_def Let_def split: if_splits intro: commits_same knows_same)
qed (use assms(3) in simp_all)

section \<open>A crash inside the batch\<close>

text \<open>Apart from the messages a batch is at most one write, or a new term and the changed log.\<close>

definition few_writes :: "node \<Rightarrow> effect list \<Rightarrow> node \<Rightarrow> bool" where
  "few_writes n es n' \<longleftrightarrow> (\<exists>ws sends. es = ws @ sends \<and> (\<forall>e \<in> set sends. is_send e) \<and>
     (ws = [] \<or> (\<exists>e. ws = [e] \<and> \<not> is_send e) \<or>
      (\<exists>i xs. ws = [PersistHardState (current_term n') None, PersistLog i xs] \<and> current_term n < current_term n' \<and>
        voted_for n' = None)))"

lemma few_none: "\<forall>e \<in> set es. is_send e \<Longrightarrow> few_writes n es n'"
  unfolding few_writes_def by (intro exI [of _ "[]"] exI [of _ es]) simp

lemma few_one: "\<not> is_send e \<Longrightarrow> \<forall>e \<in> set es. is_send e \<Longrightarrow> few_writes n (e # es) n'"
  unfolding few_writes_def by (intro exI [of _ "[e]"] exI [of _ es]) simp

lemma few_if: "few_writes n ((if b then [PersistHardState t v] else []) @ [Send to m]) n'"
  by (cases b) (simp_all add: few_none few_one)

lemma few_start_election:
  assumes "start_election n t = Some (n', es)"
  shows "few_writes m es n'"
  using assms
proof (cases rule: start_election_cases)
  case (elected k es')
  with become_leader_sends [of k n' es'] show ?thesis by (simp add: few_one)
next
  case (campaign k es')
  then have "\<forall>e \<in> set es'. is_send e" by fastforce
  with campaign(6) show ?thesis by (simp add: few_one)
qed (simp add: few_none)

lemma few_request_vote: "on_request_vote n sender r = Some (n', es) \<Longrightarrow> few_writes m es n'"
  by (erule on_request_vote_cases) (simp_all add: reject_vote_def few_none few_if)

lemma few_request_vote_response:
  assumes "on_request_vote_response n sender r = Some (n', es)"
  shows "few_writes m es n'"
proof -
  from assms have "es = [] \<or> (\<exists>t v. es = [PersistHardState t v]) \<or> (\<exists>k. become_leader k = Some (n', es))"
    by (auto simp: on_request_vote_response_def Let_def split: if_splits)
  then show ?thesis using become_leader_sends by (auto intro: few_none few_one)
qed

lemma few_append:
  assumes "on_append_entries n sender r = Some (n', es)" and "node_inv n"
  shows "few_writes n es n'"
  using assms
proof (cases rule: on_append_entries_cases)
  case stale
  then show ?thesis by (simp add: few_none reject_append_entries_def)
next
  case (mismatch m)
  then show ?thesis
    by (simp add: persist_hard_state_def reject_append_entries_def few_none few_one)
next
  case (accept m)
  let ?reply = "Send sender (AppendEntriesResponse \<lparr>aer_term = current_term m, success = True,
      aer_match_index = prev_log_index r + length (entries r)\<rparr>)"
  have n': "current_term n' = current_term m" "voted_for n' = voted_for m"
    using accept(6) by (simp_all add: accepted_def Let_def)
  show ?thesis
  proof (cases "current_term n < ae_term r")
    case True
    with accept(2) have m: "current_term m = ae_term r" "voted_for m = None"
      by (simp_all add: observe_leader_def step_down_def)
    show ?thesis
    proof (cases "changed_from m (prev_log_index r) (entries r)")
      case None
      with True accept(8) show ?thesis by (simp add: persist_hard_state_def few_one)
    next
      case (Some i)
      with True accept(8) m n' show ?thesis
        unfolding few_writes_def by (intro exI [of _ "butlast es"] exI [of _ "[last es]"])
          (simp add: persist_hard_state_def)
    qed
  next
    case False
    with accept(8) show ?thesis
      by (cases "changed_from m (prev_log_index r) (entries r)")
         (simp_all add: persist_hard_state_def few_one few_none)
  qed
qed

lemma few_run_op:
  assumes "run_op n op = Some (n', es)" and "plain n" and "quiet_op op"
  shows "few_writes n es n'"
proof (cases op)
  case (Op_Event ev)
  show ?thesis
  proof (cases "(n, ev)" rule: step.cases)
    case (1 m t)
    show ?thesis
    proof (cases "role n = Leader")
      case True
      with 1 assms(1) Op_Event show ?thesis
        by (auto simp: on_tick_def on_leader_tick_def run_simps split: if_splits
            intro!: few_none dest: broadcast_sends [THEN bspec])
    next
      case False
      with 1 assms(1) Op_Event have "on_tick n t = Some (n', es)" by simp
      from on_tick_follower [OF this False] have "es = [] \<or> (\<exists>k. start_election k t = Some (n', es))" by blast
      then show ?thesis by (auto intro: few_start_election few_none)
    qed
  next
    case (2 m sender r)
    with assms(1) plain_inv [OF assms(2)] Op_Event show ?thesis
      by (auto split: if_splits intro: few_append few_none)
  next
    case (4 m sender r)
    with assms(1) Op_Event show ?thesis by (auto split: if_splits intro: few_request_vote few_none)
  next
    case (5 m sender r)
    with assms(1) Op_Event show ?thesis by (auto split: if_splits intro: few_request_vote_response few_none)
  next
    case (6 m sender r)
    with assms(1) Op_Event have "es = [] \<or> on_append_entries_response n sender r = Some (n', es)"
      by (auto split: if_splits)
    then show ?thesis
    proof
      assume "on_append_entries_response n sender r = Some (n', es)"
      from this plain_not_joint [OF assms(2)] show ?thesis
      proof (cases rule: append_response_cases)
        case (advance m)
        with continue_replication_frame [OF advance(6)] show ?thesis by (auto intro: few_none)
      next
        case (retry i)
        with continue_replication_frame [OF retry(6)] show ?thesis by (auto intro: few_none)
      qed (simp_all add: few_none few_one)
    qed (simp add: few_none)
  qed (use assms(3) Op_Event in auto)
next
  case (Op_Propose cmd)
  show ?thesis
  proof (cases "role n = Leader")
    case True
    let ?e = "\<lparr>entry_term = current_term n, payload = Command cmd\<rparr>"
    from True assms(1) Op_Propose obtain n1 es1 i where n1: "recompute_config (n\<lparr>log := log n @ [?e]\<rparr>) = Some n1"
      and adv: "advance_commit_index n1 = Some (n', es1)" and es: "es = PersistLog i [?e] # es1"
      by (auto simp: propose_def effects_of_def bind_eq_Some_conv Let_def)
    have cmds: "list_all is_command (log n @ [?e])" using assms(2) by (simp add: plain_def steady_def is_command_def)
    have "old_voters (current_config n1) = None"
      using recompute_config_eq_Some [OF n1] cmds replay_commands [OF cmds] assms(2)
      by (simp add: config_in_force_def plain_def steady_def)
    from advance_no_effects [OF adv this] es show ?thesis by (simp add: few_one)
  qed (use assms(1) Op_Propose in \<open>auto simp: propose_def effects_of_def intro: few_none\<close>)
next
  case (Op_Add_Learner i)
  with assms(1) show ?thesis by (auto simp: add_learner_def run_simps split: if_splits intro: few_none few_one)
next
  case (Op_Remove_Learner i)
  with assms(1) show ?thesis by (auto simp: remove_learner_def Let_def split: if_splits intro: few_none few_one)
qed (use assms(3) in simp_all)

text \<open>What is on disk when the node stops after \<open>k\<close> effects: everything, or the old log with at most a
  new term, and then nothing has been sent.\<close>

lemma crash_leaves:
  assumes run: "run_op n op = Some (n', es)" and "plain n" and "quiet_op op" and d: "persisted d n"
    and cut: "durable_apply_all d (take k es) = Some d'"
  obtains (all) "persisted d' n'"
  | (part) "\<And>e. e \<in> set (take k es) \<Longrightarrow> \<not> is_send e" "ds_log d' = ds_log d" "ds_snapshot d' = ds_snapshot d"
      "ds_hard_state d' = ds_hard_state d \<or> current_term n < current_term n' \<and>
        ds_hard_state d' = \<lparr>hs_current_term = current_term n', hs_voted_for = None\<rparr>"
proof -
  from few_run_op [OF assms(1-3)] obtain ws sends where es: "es = ws @ sends" and sends: "\<forall>e \<in> set sends. is_send e"
    and ws: "ws = [] \<or> (\<exists>e. ws = [e] \<and> \<not> is_send e) \<or>
      (\<exists>i xs. ws = [PersistHardState (current_term n') None, PersistLog i xs] \<and> current_term n < current_term n' \<and>
        voted_for n' = None)" unfolding few_writes_def by blast
  obtain dn where dn: "durable_apply_all d es = Some dn" "persisted dn n'"
    using persistsD [OF persists_run_op [OF run] d] plain_inv [OF assms(2)] by blast
  show thesis
  proof (cases "length ws \<le> k")
    case True
    then have "take k es = ws @ take (k - length ws) sends" by (simp add: es)
    moreover have "\<forall>e \<in> set (take (k - length ws) sends). is_send e" using sends by (auto dest: in_set_takeD)
    ultimately have "d' = dn" using cut dn(1) sends
      by (auto simp: es durable_apply_all_append durable_apply_all_sends bind_eq_Some_conv)
    with dn(2) show thesis by (intro all) simp
  next
    case False
    then have t: "take k es = take k ws" by (simp add: es)
    from False ws consider "k = 0"
      | i xs where "k = 1" "ws = [PersistHardState (current_term n') None, PersistLog i xs]"
        "current_term n < current_term n'"
      by (auto simp: not_le less_Suc_eq)
    then show thesis
    proof cases
      case 1
      with cut show thesis by (intro part) auto
    next
      case 2
      with cut t show thesis by (intro part) auto
    qed
  qed
qed

end
