(* ===== verification/Ledger_Refinement.thy ===== *)
theory Ledger_Refinement
  imports Raft_Moves
begin

text \<open>
  The nodes of \<^verbatim>\<open>crates/kurogane-raft/src/lib.rs\<close> refine the ledger: in a cluster of fixed membership
  that takes no snapshot, every operation and every crash is a sequence of ledger steps of the node
  it happens to. What the ledger guarantees thus holds of the nodes, their messages and
  everything they ever committed.
\<close>

section \<open>Sequences of ledger steps\<close>

abbreviation ledger_steps :: "(node_id set \<Rightarrow> bool) \<Rightarrow> node_id \<Rightarrow> ledger \<Rightarrow> ledger \<Rightarrow> bool" where
  "ledger_steps quorum i \<equiv> (ledger_step quorum i)\<^sup>*\<^sup>*"

lemma ledger_reachable_steps:
  "ledger_steps quorum i a b \<Longrightarrow> ledger_reachable quorum a \<Longrightarrow> ledger_reachable quorum b"
  by (induction rule: rtranclp_induct) (auto intro: ledger_reachable.intros)

lemma grows_trans:
  assumes "grows a b" and "grows b c"
  shows "grows a c"
proof -
  have "\<exists>xs. leader_log c t = leader_log a t @ xs \<and> ((\<exists>i. (t, i) \<in> led a) \<longrightarrow> (\<forall>e \<in> set xs. entry_term e = t))" for t
  proof -
    obtain xs where xs: "leader_log b t = leader_log a t @ xs" "(\<exists>i. (t, i) \<in> led a) \<longrightarrow> (\<forall>e \<in> set xs. entry_term e = t)"
      using assms(1) unfolding grows_def by blast
    obtain ys where ys: "leader_log c t = leader_log b t @ ys" "(\<exists>i. (t, i) \<in> led b) \<longrightarrow> (\<forall>e \<in> set ys. entry_term e = t)"
      using assms(2) unfolding grows_def by blast
    have "led a \<subseteq> led b" using assms(1) by (simp add: grows_def)
    with xs ys show ?thesis by (intro exI [of _ "xs @ ys"]) auto
  qed
  moreover have "terms a i \<le> terms c i" for i using assms unfolding grows_def by (meson le_trans)
  moreover have "stood a \<subseteq>\<^sub>m stood c" using assms unfolding grows_def by (meson map_le_trans)
  ultimately show ?thesis using assms unfolding grows_def by blast
qed

text \<open>What the other nodes see.\<close>

definition others_keep :: "node_id \<Rightarrow> ledger \<Rightarrow> ledger \<Rightarrow> bool" where
  "others_keep i a b \<longleftrightarrow> (\<forall>j. j \<noteq> i \<longrightarrow> terms b j = terms a j \<and> logs b j = logs a j \<and>
     (\<forall>t. (t, j) \<in> led b \<longrightarrow> (t, j) \<in> led a))"

lemma others_keep_step: "ledger_step quorum i a b \<Longrightarrow> others_keep i a b"
  by (erule ledger_step.cases) (auto simp: others_keep_def)

context ledger_quorum
begin

lemma ledger_inv_steps:
  assumes "ledger_steps quorum i a b" and "ledger_inv quorum a"
  shows "ledger_inv quorum b \<and> grows a b \<and> others_keep i a b"
  using assms(1)
proof (induction rule: rtranclp_induct)
  case base
  with assms(2) show ?case by (simp add: others_keep_def)
next
  case (step b c)
  have "grows b c" using step by (intro ledger_step_grows) (auto simp: ledger_inv_def)
  with step grows_trans ledger_inv_step others_keep_step [OF step.hyps(2)] show ?case
    by (fastforce simp: others_keep_def)
qed

end

section \<open>Clusters without snapshots\<close>

text \<open>What a node has committed, with its term, as index and entry.\<close>

definition decided :: "node \<Rightarrow> (u64 \<times> u64 \<times> log_entry) set" where
  "decided n = (\<lambda>k. (current_term n, Suc k, log n ! k)) ` {..< commit_index n}"

text \<open>The worlds of \<open>cluster\<close> in which no node compacts its log, with everything that was ever
  committed.\<close>

inductive log_cluster :: "node_id list \<Rightarrow> world \<Rightarrow> (u64 \<times> u64 \<times> log_entry) set \<Rightarrow> bool" for V where
  boot: "(\<And>i. i \<in> set V \<Longrightarrow> \<exists>timeout heartbeat. new_node i V timeout heartbeat = Some (Inr (N i))) \<Longrightarrow>
     (\<And>i. i \<notin> set V \<Longrightarrow> \<exists>timeout heartbeat. new_learner i timeout heartbeat = Inr (N i)) \<Longrightarrow>
     log_cluster V \<lparr>nodes = N, disks = (\<lambda>_. default_durable_state), sent = (\<lambda>_. {}), cast = {}, won = {}\<rparr> {}"
| operate: "log_cluster V w D \<Longrightarrow> authentic w i op \<Longrightarrow> (\<And>j data. op \<noteq> Op_Compact j data) \<Longrightarrow>
     run_op (nodes w i) op = Some (n', es) \<Longrightarrow> durable_apply_all (disks w i) es = Some d' \<Longrightarrow>
     log_cluster V (carry_out i n' d' es w) (D \<union> decided n')"
| crash: "log_cluster V w D \<Longrightarrow> authentic w i op \<Longrightarrow> (\<And>j data. op \<noteq> Op_Compact j data) \<Longrightarrow>
     run_op (nodes w i) op = Some (n', es) \<Longrightarrow> durable_apply_all (disks w i) (take k es) = Some d' \<Longrightarrow>
     image_ok d' \<Longrightarrow> recover_from d' i V timeout heartbeat = Some (Inr m) \<Longrightarrow>
     log_cluster V (carry_out i m d' (take k es) w) D"

lemma log_cluster_cluster: "log_cluster V w D \<Longrightarrow> cluster V w"
proof (induction rule: log_cluster.induct)
  case (boot N)
  then show ?case by (rule cluster.boot)
next
  case (operate w D i op n' es d')
  show ?case by (rule cluster.operate) (use operate in blast)+
next
  case (crash w D i op n' es k d' timeout heartbeat m)
  show ?case by (rule cluster.crash) (use crash in blast)+
qed

lemma log_cluster_distinct: "log_cluster V w D \<Longrightarrow> distinct V"
proof (induction rule: log_cluster.induct)
  case (boot N)
  show ?case
  proof (cases V)
    case (Cons i vs)
    with boot(1) [of i] obtain timeout heartbeat where "new_node i V timeout heartbeat = Some (Inr (N i))" by auto
    then have "sorted_wrt (<) V" unfolding new_node_def by (rule recover_Inr(3))
    then show ?thesis by (simp add: strict_sorted_iff)
  qed simp
qed

section \<open>The simulation\<close>

text \<open>The ledger of a world: it has the terms, logs and votes of the nodes.\<close>

definition ledger_of :: "world \<Rightarrow> ledger \<Rightarrow> bool" where
  "ledger_of w a \<longleftrightarrow> (\<forall>i. terms a i = current_term (nodes w i) \<and> logs a i = log (nodes w i)) \<and> ballots a = cast w"

definition standing :: "ledger \<Rightarrow> node_id \<Rightarrow> node \<Rightarrow> bool" where
  "standing a i n \<longleftrightarrow> (role n = Leader \<longrightarrow> (current_term n, i) \<in> led a) \<and>
     (role n = Candidate \<longrightarrow> stood a (current_term n, i) = Some (log n) \<and> (current_term n, i) \<notin> led a)"

definition node_ok :: "node_id list \<Rightarrow> ledger \<Rightarrow> node_id \<Rightarrow> node \<Rightarrow> bool" where
  "node_ok V a i n \<longleftrightarrow> standing a i n \<and>
     (\<forall>p m. match_index n p = Some m \<longrightarrow> m = 0 \<or> acked a p (current_term n) m) \<and>
     settled (majority V) a (current_term n) (commit_index n) (log n)"

fun message_ok :: "node_id list \<Rightarrow> ledger \<Rightarrow> node_id \<Rightarrow> effect \<Rightarrow> bool" where
  "message_ok V a i (Send to (AppendEntries r)) \<longleftrightarrow> (ae_term r, i) \<in> led a \<and>
     prev_log_index r + length (entries r) \<le> length (leader_log a (ae_term r)) \<and>
     fits_log r (leader_log a (ae_term r)) \<and>
     entries r = take (length (entries r)) (drop (prev_log_index r) (leader_log a (ae_term r))) \<and>
     leader_commit r \<le> prev_log_index r + length (entries r) \<and>
     settled (majority V) a (ae_term r) (leader_commit r) (leader_log a (ae_term r))"
| "message_ok V a i (Send to (AppendEntriesResponse q)) \<longleftrightarrow>
     (success q \<longrightarrow> acked a i (aer_term q) (aer_match_index q))"
| "message_ok V a i (Send to (RequestVote r)) \<longleftrightarrow> (\<exists>xs. stood a (rv_term r, i) = Some xs \<and>
     rv_last_log_index r = length xs \<and> rv_last_log_term r = newest xs)"
| "message_ok V a i (Send to (InstallSnapshot r)) \<longleftrightarrow> False"
| "message_ok V a i (Send to (InstallSnapshotResponse r)) \<longleftrightarrow> False"
| "message_ok V a i e \<longleftrightarrow> True"

definition world_ok :: "node_id list \<Rightarrow> world \<Rightarrow> ledger \<Rightarrow> (u64 \<times> u64 \<times> log_entry) set \<Rightarrow> bool" where
  "world_ok V w a D \<longleftrightarrow> ledger_reachable (majority V) a \<and> ledger_of w a \<and>
     (\<forall>i. plain (nodes w i) \<and> node_ok V a i (nodes w i) \<and> disk_vote i (disks w i) \<subseteq> cast w \<and>
        (\<forall>e \<in> sent w i. message_ok V a i e)) \<and>
     (\<forall>(t, k, e) \<in> D. 0 < k \<and> (\<exists>xs. settled (majority V) a t k xs \<and> xs ! (k - 1) = e))"

lemma acked_mono: "acked a p t k \<Longrightarrow> m \<le> k \<Longrightarrow> acked a p t m"
  by (auto simp: acked_def intro: le_trans)

lemma grows_fits: "grows a b \<Longrightarrow> fits_log r (leader_log a t) \<Longrightarrow> fits_log r (leader_log b t)"
  using grows_log [of a b t] by (cases "prev_log_index r") (auto simp: fits_log_def nth_append)

lemma grows_piece:
  "grows a b \<Longrightarrow> k + n \<le> length (leader_log a t) \<Longrightarrow>
     take n (drop k (leader_log b t)) = take n (drop k (leader_log a t))"
  using grows_log [of a b t] by auto

lemma grows_settled_log:
  assumes "grows a b" and "settled quorum a t k (leader_log a s)"
  shows "settled quorum b t k (leader_log b s)"
proof -
  have "shares k (leader_log a s) (leader_log b s)"
    using grows_log [OF assms(1), of s] settled_length [OF assms(2)] by (auto simp: shares_def)
  with grows_settled [OF assms order_refl] show ?thesis by (rule settled_shares)
qed

lemma grows_led: "grows a b \<Longrightarrow> x \<in> led a \<Longrightarrow> x \<in> led b"
  by (auto simp: grows_def)

lemma message_ok_grows:
  assumes "grows a b" and "message_ok V a i e"
  shows "message_ok V b i e"
proof (cases "(V, a, i, e)" rule: message_ok.cases)
  case (1 _ _ _ to r)
  with assms grows_length [OF assms(1), of "ae_term r"] show ?thesis
    by (auto simp: grows_piece intro: grows_fits grows_settled_log grows_led)
next
  case (2 _ _ _ to q)
  with assms show ?thesis by (auto intro: grows_acked)
next
  case (3 _ _ _ to r)
  with assms show ?thesis by (auto dest: grows_stood)
qed (use assms(2) in auto)

lemma node_ok_others:
  assumes "grows a b" and "others_keep i a b" and "j \<noteq> i" and "node_ok V a j n"
  shows "node_ok V b j n"
proof -
  from assms(2,3) have "(current_term n, j) \<notin> led a \<Longrightarrow> (current_term n, j) \<notin> led b"
    by (auto simp: others_keep_def)
  with assms(4) show ?thesis
    unfolding node_ok_def standing_def
    using grows_led [OF assms(1)] grows_stood [OF assms(1)] grows_acked [OF assms(1)]
      grows_settled [OF assms(1) _ order_refl] by blast
qed

text \<open>Every move is a sequence of ledger steps.\<close>

definition own_vote :: "node_id \<Rightarrow> node \<Rightarrow> (node_id \<times> u64 \<times> node_id) set" where
  "own_vote i n = (case voted_for n of None \<Rightarrow> {} | Some c \<Rightarrow> {(i, current_term n, c)})"

lemma disk_vote_own: "persisted d n \<Longrightarrow> disk_vote i d = own_vote i n"
  by (simp add: persisted_def disk_vote_def own_vote_def split: option.split)

lemma own_vote_same: "current_term n' = current_term n \<Longrightarrow> voted_for n' = voted_for n \<Longrightarrow> own_vote i n' = own_vote i n"
  by (simp add: own_vote_def split: option.split)

lemma own_vote_None: "voted_for n = None \<Longrightarrow> own_vote i n = {}"
  by (simp add: own_vote_def)

lemma own_vote_Some: "voted_for n = Some c \<Longrightarrow> own_vote i n = {(i, current_term n, c)}"
  by (simp add: own_vote_def)

text \<open>What a sequence of steps has to reach for a node that moved to \<open>n'\<close>.\<close>

definition reaches :: "node_id list \<Rightarrow> node_id \<Rightarrow> ledger \<Rightarrow> operation \<Rightarrow> node \<Rightarrow> node \<Rightarrow> ledger \<Rightarrow> bool" where
  "reaches V i a op n n' b \<longleftrightarrow> ledger_steps (majority V) i a b \<and> ballots b = ballots a \<union> own_vote i n' \<and>
     terms b i = current_term n' \<and> logs b i = log n' \<and> standing b i n' \<and>
     (\<forall>r. accepts n op r n' \<longrightarrow> (i, current_term n', prev_log_index r + length (entries r)) \<in> acks b)"

lemma reaches_accept:
  assumes a: "terms a i = current_term n" "logs a i = log n"
    and own: "own_vote i n \<subseteq> ballots a" and stands: "standing a i n"
    and msg: "message_ok V a (ae_leader_id r) (Send i (AppendEntries r))"
    and acc: "accepts n op r n'"
  shows "\<exists>b. reaches V i a op n n' b"
proof -
  let ?t = "ae_term r" and ?k = "prev_log_index r" and ?n = "length (entries r)"
  let ?b = "a\<lparr>terms := (terms a)(i := ?t)\<rparr>"
  let ?xs = "append_at (logs ?b i) ?k (take ?n (drop ?k (leader_log ?b ?t)))"
  let ?c = "?b\<lparr>logs := (logs ?b)(i := ?xs), acks := insert (i, ?t, ?k + ?n) (acks ?b)\<rparr>"
  have t: "current_term n \<le> ?t" "current_term n' = ?t" "fits_log r (log n)"
    and log: "log n' = append_at (log n) ?k (entries r)"
    using acc by (simp_all add: accepts_def)
  have "ledger_step (majority V) i a ?b" using a(1) t(1) by (intro ledger_step.raise) simp
  moreover have "ledger_step (majority V) i ?b ?c"
    using msg t(3) a(2) by (intro ledger_step.accept [of _ _ _ "ae_leader_id r"]) (auto simp: fits_log_def)
  ultimately have "ledger_steps (majority V) i a ?c" by (meson r_into_rtranclp rtranclp_trans)
  moreover have "ballots ?c = ballots a \<union> own_vote i n'"
    using acc own t(1) own_vote_same [of n' n i] own_vote_None [of n' i] by (cases "current_term n < ?t") (auto simp: accepts_def)
  moreover have "?xs = log n'" using msg a(2) log by simp
  moreover have "standing ?c i n'"
    using acc stands t by (auto simp: accepts_def standing_def)
  moreover have "r' = r" if "accepts n op r' n'" for r' using that acc by (simp add: accepts_def)
  ultimately have "reaches V i a op n n' ?c" using t(2) unfolding reaches_def by auto
  then show ?thesis ..
qed

lemma reaches_grant:
  assumes a: "terms a i = current_term n" "logs a i = log n" and stands: "standing a i n"
    and msg: "message_ok V a (candidate_id r) (Send i (RequestVote r))"
    and op: "op = Op_Event (Step (candidate_id r) (RequestVote r))"
    and n': "log n' = log n" "current_term n \<le> rv_term r" "current_term n' = rv_term r"
      "log_is_up_to_date r (newest (log n)) (length (log n))" "voted_for n' = Some (candidate_id r)"
      "role n' = Follower \<or> role n' = role n \<and> current_term n' = current_term n"
    and unique: "\<And>c. (i, rv_term r, c) \<in> ballots a \<Longrightarrow> c = candidate_id r"
  shows "\<exists>b. reaches V i a op n n' b"
proof -
  let ?t = "rv_term r" and ?c = "candidate_id r"
  let ?b = "a\<lparr>terms := (terms a)(i := ?t)\<rparr>"
  let ?d = "?b\<lparr>ballots := insert (i, ?t, ?c) (ballots ?b)\<rparr>"
  from msg obtain xs where xs: "stood a (?t, ?c) = Some xs" "rv_last_log_index r = length xs"
    "rv_last_log_term r = newest xs" by auto
  have "ledger_step (majority V) i a ?b" using a(1) n'(2) by (intro ledger_step.raise) simp
  moreover have "ledger_step (majority V) i ?b ?d"
    using xs n'(4) a(2) unique
    by (intro ledger_step.vote [of _ _ _ _ xs]) (auto simp: log_is_up_to_date_def at_least_as_new_def)
  ultimately have "ledger_steps (majority V) i a ?d" by (meson r_into_rtranclp rtranclp_trans)
  moreover have "standing ?d i n'" using n'(1,6) stands by (auto simp: standing_def)
  moreover have "\<not> accepts n op r' n'" for r' using op by (simp add: accepts_def)
  ultimately have "reaches V i a op n n' ?d"
    using a(2) n' own_vote_Some [OF n'(5)] unfolding reaches_def by auto
  then show ?thesis ..
qed

text \<open>A node comes to power: it has stood with its log and has its quorum.\<close>

lemma lead_step:
  assumes "terms a i = t" and "stood a (t, i) = Some (logs a i)" and "(t, i) \<notin> led a"
    and "majority V Q" and "\<forall>v \<in> Q. (v, t, i) \<in> ballots a"
  shows "\<exists>b. ledger_step (majority V) i a b \<and> ballots b = ballots a \<and> terms b = terms a \<and> logs b = logs a \<and> (t, i) \<in> led b"
  using ledger_step.lead [OF assms(1-3), of "majority V"] assms(4,5)
  by (intro exI) (auto simp: backed_def)

lemma reaches_crown:
  assumes a: "terms a i = current_term n" "logs a i = log n"
    and own: "own_vote i n \<subseteq> ballots a" and stands: "standing a i n"
    and n': "log n' = log n" "current_term n' = current_term n" "voted_for n' = voted_for n"
      "role n = Candidate" "role n' = Leader" "\<And>r. \<not> accepts n op r n'"
    and camp: "campaign_sound V (ballots a \<union> own_vote i n') i n'"
  shows "\<exists>b. reaches V i a op n n' b"
proof -
  have votes: "ballots a \<union> own_vote i n' = ballots a" using own own_vote_same [OF n'(2,3)] by auto
  have "\<exists>b. ledger_step (majority V) i a b \<and> ballots b = ballots a \<and> terms b = terms a \<and> logs b = logs a \<and>
      (current_term n, i) \<in> led b"
    using camp votes n' stands a
    by (intro lead_step [of _ _ _ _ "votes_granted n'"]) (auto simp: standing_def campaign_sound_def)
  then obtain b where b: "ledger_step (majority V) i a b" "ballots b = ballots a" "terms b = terms a"
    "logs b = logs a" "(current_term n, i) \<in> led b" by blast
  then have "reaches V i a op n n' b"
    using a n' votes unfolding reaches_def by (auto simp: standing_def)
  then show ?thesis ..
qed

lemma reaches_campaign:
  assumes inv: "ledger_inv (majority V) a"
    and a: "terms a i = current_term n" "logs a i = log n" "nid n = i"
    and n': "log n' = log n" "current_term n' = Suc (current_term n)" "voted_for n' = Some (nid n)"
      "role n' \<noteq> Follower" "\<And>r. \<not> accepts n op r n'"
    and camp: "campaign_sound V (ballots a \<union> own_vote i n') i n'"
  shows "\<exists>b. reaches V i a op n n' b"
proof -
  let ?t = "current_term n'"
  let ?b = "a\<lparr>terms := (terms a)(i := ?t), stood := (stood a)((?t, i) \<mapsto> logs a i),
      ballots := insert (i, ?t, i) (ballots a)\<rparr>"
  have step: "ledger_step (majority V) i a ?b" using a(1) n'(2) by (intro ledger_step.stand) simp
  have votes: "ballots ?b = ballots a \<union> own_vote i n'" using own_vote_Some [OF n'(3)] a(3) by simp
  have vacant: "(?t, i) \<notin> led a"
  proof
    assume "(?t, i) \<in> led a"
    then have "?t \<le> terms a i" using inv by (simp add: ledger_inv_def bounded_def)
    with a(1) n'(2) show False by simp
  qed
  show ?thesis
  proof (cases "role n' = Leader")
    case False
    with n'(4) have "role n' = Candidate" by (cases "role n'") auto
    with vacant step votes n' a have "reaches V i a op n n' ?b"
      unfolding reaches_def by (auto simp: standing_def)
    then show ?thesis ..
  next
    case True
    have "\<exists>c. ledger_step (majority V) i ?b c \<and> ballots c = ballots ?b \<and> terms c = terms ?b \<and> logs c = logs ?b \<and>
        (?t, i) \<in> led c"
      using camp votes True vacant
      by (intro lead_step [of _ _ _ _ "votes_granted n'"]) (auto simp: campaign_sound_def)
    then obtain c where c: "ledger_step (majority V) i ?b c" "ballots c = ballots ?b" "terms c = terms ?b"
      "logs c = logs ?b" "(?t, i) \<in> led c" by blast
    have "ledger_steps (majority V) i a c" using step c(1) by (meson r_into_rtranclp rtranclp_trans)
    moreover have "logs c i = log n'" "terms c i = ?t" using c(3,4) a n' by simp_all
    moreover have "ballots c = ballots a \<union> own_vote i n'" using c(2) votes by simp
    ultimately have "reaches V i a op n n' c" using c(5) True n'(5) unfolding reaches_def by (simp add: standing_def)
    then show ?thesis ..
  qed
qed

lemma move_reaches:
  assumes inv: "ledger_inv (majority V) a"
    and a: "terms a i = current_term n" "logs a i = log n" "nid n = i"
    and own: "own_vote i n \<subseteq> ballots a" and stands: "standing a i n"
    and msg: "\<And>j m. op = Op_Event (Step j m) \<Longrightarrow> message_ok V a j (Send i m)"
    and mv: "move n op n'"
    and unique: "\<And>c c'. (i, current_term n', c) \<in> ballots a \<union> own_vote i n' \<Longrightarrow>
      (i, current_term n', c') \<in> ballots a \<union> own_vote i n' \<Longrightarrow> c = c'"
    and camp: "campaign_sound V (ballots a \<union> own_vote i n') i n'"
  shows "\<exists>b. reaches V i a op n n' b"
proof (cases "\<exists>r. accepts n op r n'")
  case True
  then obtain r where r: "accepts n op r n'" by blast
  then have "message_ok V a (ae_leader_id r) (Send i (AppendEntries r))" by (intro msg) (simp add: accepts_def)
  from reaches_accept [OF a(1,2) own stands this r] show ?thesis .
next
  case False
  then have no: "\<not> accepts n op r n'" for r by blast
  from mv show ?thesis
  proof cases
    case hold
    have "own_vote i n' = own_vote i n" using hold by (intro own_vote_same)
    with own have "ballots a \<union> own_vote i n' = ballots a" by auto
    with hold a stands no have "reaches V i a op n n' a"
      unfolding reaches_def by (auto simp: standing_def)
    then show ?thesis ..
  next
    case lift
    let ?b = "a\<lparr>terms := (terms a)(i := current_term n')\<rparr>"
    have "ledger_step (majority V) i a ?b" using a(1) lift by (intro ledger_step.raise) simp
    then have "ledger_steps (majority V) i a ?b" by blast
    with lift a no own_vote_None [OF lift(3)] have "reaches V i a op n n' ?b"
      unfolding reaches_def by (auto simp: standing_def)
    then show ?thesis ..
  next
    case campaign
    show ?thesis by (rule reaches_campaign [OF inv a campaign(1-4) no camp])
  next
    case (grant r)
    have "message_ok V a (candidate_id r) (Send i (RequestVote r))" by (rule msg [OF grant(1)])
    moreover have "c = candidate_id r" if "(i, rv_term r, c) \<in> ballots a" for c
      using unique [of c "candidate_id r"] that grant(4) own_vote_Some [OF grant(6)] by simp
    ultimately show ?thesis by (intro reaches_grant [OF a(1,2) stands _ grant]) auto
  next
    case crown
    show ?thesis by (rule reaches_crown [OF a(1,2) own stands crown no camp])
  next
    case (push e)
    let ?t = "current_term n"
    let ?b = "a\<lparr>logs := (logs a)(i := logs a i @ [e]), leader_log := (leader_log a)(?t := leader_log a ?t @ [e])\<rparr>"
    have "ledger_step (majority V) i a ?b"
      using stands push a(1) by (intro ledger_step.extend) (auto simp: standing_def)
    then have "ledger_steps (majority V) i a ?b" by blast
    moreover have "own_vote i n' = own_vote i n" using push by (intro own_vote_same)
    with own have "ballots a \<union> own_vote i n' = ballots a" by auto
    ultimately have "reaches V i a op n n' ?b"
      using push a stands no unfolding reaches_def by (auto simp: standing_def)
    then show ?thesis ..
  qed (use no in blast)
qed

text \<open>The log after an accepted batch, against the log of the leader that sent it.\<close>

lemma accepted_batch:
  assumes "ledger_inv (majority V) a" and "logs a i = log n"
    and "message_ok V a (ae_leader_id r) (Send i (AppendEntries r))" and "accepts n op r n'"
  shows "shares (prev_log_index r + length (entries r)) (log n') (leader_log a (ae_term r))"
    and "shares k (log n) (leader_log a (ae_term r)) \<Longrightarrow> shares k (log n') (leader_log a (ae_term r))"
proof -
  let ?ys = "leader_log a (ae_term r)"
  have c: "coherent a (log n)" "coherent a ?ys"
    using assms(1,2) log_belowD(1,2) [of a] unfolding ledger_inv_def log_below_def by metis+
  have "take (length (entries r)) (drop (prev_log_index r) ?ys) = entries r" using assms(3) by simp
  then have "log n' = append_at (log n) (prev_log_index r) (take (length (entries r)) (drop (prev_log_index r) ?ys))"
    using assms(4) by (simp add: accepts_def)
  moreover have "prev_log_index r + length (entries r) \<le> length ?ys" "prev_log_index r \<le> length (log n)"
    "prev_log_index r = 0 \<or> entry_term (log n ! (prev_log_index r - 1)) = entry_term (?ys ! (prev_log_index r - 1))"
    using assms(3,4) by (auto simp: accepts_def fits_log_def)
  note m = coherent_merges [OF c this]
  ultimately show "shares (prev_log_index r + length (entries r)) (log n') ?ys"
    "shares k (log n) ?ys \<Longrightarrow> shares k (log n') ?ys" using m(2,3) by simp_all
qed

text \<open>What the node knows and has committed is right in the ledger it reaches.\<close>

lemma settled_step:
  assumes inv: "ledger_inv (majority V) a" and b: "grows a b" and a: "logs a i = log n"
    and settled: "settled (majority V) a (current_term n) k (log n)"
    and msg: "\<And>j m. op = Op_Event (Step j m) \<Longrightarrow> message_ok V a j (Send i m)"
    and mv: "move n op n'" and t: "current_term n \<le> current_term n'"
  shows "settled (majority V) b (current_term n') k (log n')"
proof -
  have "shares k (log n) (log n')"
  proof (cases "\<exists>r. accepts n op r n'")
    case False
    have "\<exists>xs. log n' = log n @ xs" using mv by cases (use False in auto)
    then show ?thesis using settled_length [OF settled] by (auto simp: shares_def)
  next
    case True
    then obtain r where acc: "accepts n op r n'" by blast
    then have m: "message_ok V a (ae_leader_id r) (Send i (AppendEntries r))" by (intro msg) (simp add: accepts_def)
    then have led: "(ae_term r, ae_leader_id r) \<in> led a" by simp
    have "current_term n \<le> ae_term r" using acc by (simp add: accepts_def)
    from majority_ledger.settled_leader [OF inv settled led this]
    have sh: "shares k (log n) (leader_log a (ae_term r))" .
    from accepted_batch(2) [OF inv a m acc sh] sh show ?thesis by (blast intro: shares_trans shares_sym)
  qed
  with grows_settled [OF b settled t] show ?thesis by (rule settled_shares)
qed

lemma move_term: "move n op n' \<Longrightarrow> current_term n \<le> current_term n'"
  by (erule move.cases) (auto simp: accepts_def)

lemma reported_acked:
  assumes "node_ok V a i n" and "\<And>j m. op = Op_Event (Step j m) \<Longrightarrow> message_ok V a j (Send i m)"
    and "m \<le> reported n op p" and "0 < m"
  shows "acked a p (current_term n) m"
proof -
  from assms(3,4) consider k where "match_index n p = Some k" "m \<le> k"
    | r where "op = Op_Event (Step p (AppendEntriesResponse r))" "success r" "aer_term r = current_term n"
        "m \<le> aer_match_index r"
    by (auto simp: reported_def le_max_iff_disj split: option.splits operation.splits event.splits message.splits if_splits)
  then show ?thesis
  proof cases
    case 1
    with assms(1,4) show ?thesis unfolding node_ok_def by (metis acked_mono le_zero_eq not_gr0)
  next
    case 2
    with assms(2) [OF 2(1)] show ?thesis by (auto intro: acked_mono)
  qed
qed

lemma majority_filter:
  assumes "distinct V" and "majority_reached V P"
  shows "majority V {p \<in> set V. P p}"
proof -
  have "card {p \<in> set V. P p} = length (filter P V)"
    using distinct_card [of "filter P V"] assms(1) by simp
  with assms(2) show ?thesis by (auto simp: majority_def majority_reached_def)
qed

lemma settledI:
  "committed_in quorum a s m \<Longrightarrow> s \<le> t \<Longrightarrow> k \<le> m \<Longrightarrow> shares k xs (leader_log a s) \<Longrightarrow> settled quorum a t k xs"
  unfolding settled_def by blast

lemma node_ok_reaches:
  assumes inv: "ledger_inv (majority V) a" and reach: "reaches V i a op n n' b" and ok: "node_ok V a i n"
    and a: "logs a i = log n" "nid n = i"
    and msg: "\<And>j m. op = Op_Event (Step j m) \<Longrightarrow> message_ok V a j (Send i m)"
    and mv: "move n op n'" and know: "knows n op n'" and commit: "commits n op n'"
    and V: "distinct V" "role n = Leader \<Longrightarrow> voters (current_config n) = V" and plain: "plain n'"
  shows "node_ok V b i n'"
proof -
  have steps: "ledger_steps (majority V) i a b" and b: "terms b i = current_term n'" "logs b i = log n'" "standing b i n'"
    using reach by (simp_all add: reaches_def)
  from majority_ledger.ledger_inv_steps [OF steps inv] have invb: "ledger_inv (majority V) b" and g: "grows a b" by simp_all
  have reported: "acked b p (current_term n) m" if "m \<le> reported n op p" "0 < m" for p m
    by (rule grows_acked [OF g reported_acked [OF ok msg that]])
  have "m = 0 \<or> acked b p (current_term n') m" if "match_index n' p = Some m" for p m
  proof (cases "m = 0")
    case False
    with know that have "current_term n' = current_term n" "m \<le> reported n op p" unfolding knows_def by blast+
    with reported [of m p] False show ?thesis by simp
  qed simp
  moreover have "settled (majority V) b (current_term n') (commit_index n') (log n')"
  proof -
    let ?k = "commit_index n'"
    from commit consider "?k = commit_index n"
      | r where "accepts n op r n'" "?k \<le> leader_commit r"
      | "role n = Leader" "current_term n' = current_term n" "log_term_at n' ?k = Some (current_term n)"
        "majority_reached (voters (current_config n)) (\<lambda>p. p = nid n \<or> ?k \<le> reported n op p)"
      unfolding commits_def by fastforce
    then show ?thesis
    proof cases
      case 1
      with settled_step [OF inv g a(1) _ msg mv move_term [OF mv]] ok show ?thesis by (simp add: node_ok_def)
    next
      case (2 r)
      then have m: "message_ok V a (ae_leader_id r) (Send i (AppendEntries r))" by (intro msg) (simp add: accepts_def)
      let ?ys = "leader_log a (ae_term r)"
      have t: "ae_term r = current_term n'" using 2(1) by (simp add: accepts_def)
      have "settled (majority V) a (ae_term r) ?k ?ys" using m 2(2) settled_mono by auto
      from grows_settled [OF g this] t have "settled (majority V) b (current_term n') ?k ?ys" by simp
      moreover have "shares ?k (log n') ?ys"
        using accepted_batch(1) [OF inv a(1) m 2(1)] 2(2) m by (auto elim: shares_mono)
      ultimately show ?thesis by (blast intro: settled_shares shares_sym)
    next
      case 3
      have led: "(current_term n, i) \<in> led b"
        using ok 3(1) grows_led [OF g] by (auto simp: node_ok_def standing_def)
      have log: "log n' = leader_log b (current_term n)"
        using invb log_belowD(5) [of b "current_term n" i] led b 3(2) by (simp add: ledger_inv_def)
      have k: "0 < ?k" "?k \<le> length (log n')" "entry_term (log n' ! (?k - 1)) = current_term n"
        using 3(3) plain by (auto simp: log_term_at_def log_entry_at_def split: if_splits)
      have "acked b p (current_term n) ?k" if "p = nid n \<or> ?k \<le> reported n op p" for p
        using that reported [of ?k p] k led log a(2) by (auto simp: acked_def)
      with majority_filter [OF V(1), of "\<lambda>p. p = nid n \<or> ?k \<le> reported n op p"] 3(1,4) V(2) k log
      have "committed_in (majority V) b (current_term n) ?k"
        unfolding committed_in_def vital_def by auto
      moreover have "shares ?k (log n') (leader_log b (current_term n))" using k(2) log by simp
      ultimately show ?thesis using 3(2) by (intro settledI [of _ _ "current_term n" ?k]) simp_all
    qed
  qed
  ultimately show ?thesis using b(3) by (simp add: node_ok_def)
qed

lemma message_ok_reaches:
  assumes inv: "ledger_inv (majority V) a" and reach: "reaches V i a op n n' b" and ok: "node_ok V b i n'"
    and id: "nid n' = i" and tell: "tells n op n' e"
  shows "message_ok V b i e"
proof -
  have steps: "ledger_steps (majority V) i a b" and b: "terms b i = current_term n'" "logs b i = log n'"
    and acks: "\<And>r. accepts n op r n' \<Longrightarrow> (i, current_term n', prev_log_index r + length (entries r)) \<in> acks b"
    using reach by (simp_all add: reaches_def)
  from majority_ledger.ledger_inv_steps [OF steps inv] have invb: "ledger_inv (majority V) b" by simp
  show ?thesis
  proof (cases "(n, op, n', e)" rule: tells.cases)
    case (1 _ _ _ to r)
    with tell have r: "role n' = Leader" "ae_term r = current_term n'" "fits_log r (log n')"
      "entries r = drop (prev_log_index r) (log n')" "leader_commit r = commit_index n'" by auto
    have led: "(current_term n', i) \<in> led b" using ok r(1) by (simp add: node_ok_def standing_def)
    have log: "leader_log b (current_term n') = log n'"
      using invb log_belowD(5) [OF _ led] b by (simp add: ledger_inv_def)
    have "settled (majority V) b (current_term n') (commit_index n') (log n')" using ok by (simp add: node_ok_def)
    with 1 r led log settled_length [OF this] show ?thesis by (simp add: fits_log_def)
  next
    case (2 _ _ _ to r)
    with tell ok show ?thesis by (auto simp: node_ok_def standing_def)
  next
    case (3 _ _ _ to q)
    with tell acks show ?thesis by (auto simp: acked_def)
  qed (use tell in auto)
qed

text \<open>The world after a step.\<close>

lemma world_okD:
  assumes "world_ok V w a D"
  shows "ledger_inv (majority V) a" and "terms a i = current_term (nodes w i)" and "logs a i = log (nodes w i)"
    and "ballots a = cast w" and "plain (nodes w i)" and "node_ok V a i (nodes w i)"
    and "disk_vote i (disks w i) \<subseteq> cast w" and "e \<in> sent w i \<Longrightarrow> message_ok V a i e"
    and "(t, k, x) \<in> D \<Longrightarrow> 0 < k \<and> (\<exists>xs. settled (majority V) a t k xs \<and> xs ! (k - 1) = x)"
proof -
  show "ledger_inv (majority V) a"
    using assms by (simp add: world_ok_def majority_ledger.ledger_reachable_inv)
  show "terms a i = current_term (nodes w i)" "logs a i = log (nodes w i)" "ballots a = cast w"
    using assms by (simp_all add: world_ok_def ledger_of_def)
  show "plain (nodes w i)" "node_ok V a i (nodes w i)" "disk_vote i (disks w i) \<subseteq> cast w"
    "e \<in> sent w i \<Longrightarrow> message_ok V a i e"
    using assms by (simp_all add: world_ok_def)
  show "0 < k \<and> (\<exists>xs. settled (majority V) a t k xs \<and> xs ! (k - 1) = x)" if "(t, k, x) \<in> D"
    using assms that by (auto simp: world_ok_def)
qed

lemma world_ok_carry_out:
  assumes ok: "world_ok V w a D" and steps: "ledger_steps (majority V) i a b"
    and x: "terms b i = current_term x" "logs b i = log x" "plain x" "node_ok V b i x"
    and votes: "ballots b = cast w \<union> disk_vote i d'"
    and msgs: "\<And>e. e \<in> set es \<Longrightarrow> is_send e \<Longrightarrow> message_ok V b i e"
  shows "world_ok V (carry_out i x d' es w) b D"
proof -
  have g: "grows a b" and keep: "others_keep i a b"
    using majority_ledger.ledger_inv_steps [OF steps world_okD(1) [OF ok]] by simp_all
  have inv: "ledger_reachable (majority V) b"
    using ok steps by (auto simp: world_ok_def intro: ledger_reachable_steps)
  have others: "node_ok V b j (nodes w j)" if "j \<noteq> i" for j
    using node_ok_others [OF g keep that world_okD(6) [OF ok]] .
  have "ledger_of (carry_out i x d' es w) b"
    using world_okD(2,3) [OF ok] keep x(1,2) votes by (auto simp: ledger_of_def carry_out_def others_keep_def)
  moreover have "message_ok V b j e" if "e \<in> sent (carry_out i x d' es w) j" for j e
    using that msgs message_ok_grows [OF g world_okD(8) [OF ok, of e j]]
    by (auto simp: carry_out_def split: if_splits)
  moreover have "0 < k \<and> (\<exists>xs. settled (majority V) b t k xs \<and> xs ! (k - 1) = e)" if "(t, k, e) \<in> D" for t k e
    using world_okD(9) [OF ok that] grows_settled [OF g _ order_refl] by blast
  moreover have "disk_vote j (disks (carry_out i x d' es w) j) \<subseteq> cast (carry_out i x d' es w)" for j
    using world_okD(7) [OF ok, of j] by (auto simp: carry_out_def)
  moreover have "plain (nodes (carry_out i x d' es w) j) \<and> node_ok V b j (nodes (carry_out i x d' es w) j)" for j
    using others x world_okD(5) [OF ok, of j] by (simp add: carry_out_def)
  ultimately show ?thesis
    using inv unfolding world_ok_def by blast
qed

lemma authentic_message:
  assumes "world_ok V w a D" and "authentic w i op" and "op = Op_Event (Step j m)"
  shows "message_ok V a j (Send i m)"
  using assms(2,3) by (intro world_okD(8) [OF assms(1)]) simp

lemma authentic_quiet:
  assumes "world_ok V w a D" and "authentic w i op" and "\<And>j data. op \<noteq> Op_Compact j data"
  shows "quiet_op op"
proof (cases op rule: quiet_op.cases)
  case (1 j r)
  with authentic_message [OF assms(1,2)] show ?thesis by fastforce
next
  case (2 j r)
  with authentic_message [OF assms(1,2)] show ?thesis by fastforce
qed (use assms in auto)

lemma plain_step:
  assumes "cluster_inv V w" and "world_ok V w a D" and "authentic w i op" and "quiet_op op"
    and "run_op (nodes w i) op = Some (n', es)"
  shows "plain n'" and "nid n' = i"
  using node_sound_run_op [OF assms(1,3,5)] snapshot_run_op [OF assms(5) world_okD(5) [OF assms(2)] assms(4)]
    world_okD(5) [OF assms(2), of i] by (simp_all add: node_sound_def plain_def)

lemma world_step:
  assumes cinv: "cluster_inv V w" and ok: "world_ok V w a D" and auth: "authentic w i op" and quiet: "quiet_op op"
    and run: "run_op (nodes w i) op = Some (n', es)" and V: "distinct V" and d': "persisted d' n'"
    and unique: "\<And>c c'. (i, current_term n', c) \<in> cast w \<union> disk_vote i d' \<Longrightarrow>
      (i, current_term n', c') \<in> cast w \<union> disk_vote i d' \<Longrightarrow> c = c'"
  shows "\<exists>b. ledger_steps (majority V) i a b \<and> terms b i = current_term n' \<and>
    logs b i = log n' \<and> ballots b = cast w \<union> disk_vote i d' \<and> node_ok V b i n' \<and>
    (\<forall>e \<in> set es. message_ok V b i e)"
proof -
  let ?n = "nodes w i"
  note ok' = world_okD [OF ok] and n = cluster_inv_node [OF cinv, of i]
  note plain = ok'(5) [of i] and msg = authentic_message [OF ok auth]
  have nid: "nid ?n = i" using n by (simp add: node_sound_def)
  have disk: "disk_vote i d' = own_vote i n'" "disk_vote i (disks w i) = own_vote i ?n"
    using disk_vote_own d' n by blast+
  have mv: "move ?n op n'" by (rule move_run_op [OF run plain quiet])
  have "\<exists>b. reaches V i a op ?n n' b"
  proof (rule move_reaches [OF ok'(1-3) nid _ _ msg mv])
    show "own_vote i ?n \<subseteq> ballots a" using ok'(4) ok'(7) [of i] disk by simp
    show "standing a i ?n" using ok'(6) by (simp add: node_ok_def)
    show "campaign_sound V (ballots a \<union> own_vote i n') i n'"
      using campaign_sound_run_op [OF cinv auth run d'] ok'(4) disk by simp
  qed (use unique ok'(4) disk in auto)
  then obtain b where b: "reaches V i a op ?n n' b" by blast
  then have facts: "ledger_steps (majority V) i a b" "ballots b = ballots a \<union> own_vote i n'"
    "terms b i = current_term n'" "logs b i = log n'" by (simp_all add: reaches_def)
  have voters: "voters (current_config ?n) = V" if "role ?n = Leader"
    using n that node_sound_config [of V i ?n] by (auto simp: campaign_sound_def)
  have know: "commits ?n op n'" "knows ?n op n'" using knows_run_op [OF run plain quiet] by blast+
  note p' = plain_step [OF cinv ok auth quiet run]
  have node: "node_ok V b i n'"
    by (rule node_ok_reaches [OF ok'(1) b ok'(6,3) nid msg mv know(2,1) V voters p'(1)])
  have "message_ok V b i e" if "e \<in> set es" for e
    by (rule message_ok_reaches [OF ok'(1) b node p'(2) tells_run_op [OF run plain quiet that]])
  with facts node disk ok'(4) show ?thesis by (intro exI [of _ b]) auto
qed

section \<open>Every world has its ledger\<close>

lemma recovered_blank:
  assumes "recover_from d i V timeout heartbeat = Some (Inr m)" and "ds_snapshot d = default_metadata"
  shows "role m = Follower \<and> commit_index m = 0 \<and> match_index m = Map.empty \<and>
    current_term m = hs_current_term (ds_hard_state d) \<and> log m = ds_log d \<and> snapshot m = default_metadata"
  using assms unfolding recover_from_def
  by (auto dest!: recover_Inr(1) simp: recovered_def durable_snapshot_def default_metadata_def Let_def)

lemma blank_ok:
  "role m = Follower \<and> commit_index m = 0 \<and> match_index m = Map.empty \<and> P \<Longrightarrow> node_ok V a i m"
  by (simp add: node_ok_def standing_def settled_def)

lemma boot_blank:
  assumes "(\<exists>timeout heartbeat. new_node i V timeout heartbeat = Some (Inr n)) \<or>
    (\<exists>timeout heartbeat. new_learner i timeout heartbeat = Inr n)"
  shows "role n = Follower \<and> commit_index n = 0 \<and> match_index n = Map.empty \<and>
    current_term n = 0 \<and> log n = [] \<and> snapshot n = default_metadata"
  using assms
proof (elim disjE exE)
  fix timeout heartbeat assume "new_node i V timeout heartbeat = Some (Inr n)"
  then have "recover_from default_durable_state i V timeout heartbeat = Some (Inr n)"
    by (simp add: new_node_recover_from)
  from recovered_blank [OF this] show ?thesis
    by (simp add: default_durable_state_def default_hard_state_def)
qed (auto simp: new_learner_def Let_def split: if_splits)

lemma world_ok_boot:
  assumes "\<And>i. i \<in> set V \<Longrightarrow> \<exists>timeout heartbeat. new_node i V timeout heartbeat = Some (Inr (N i))"
    and "\<And>i. i \<notin> set V \<Longrightarrow> \<exists>timeout heartbeat. new_learner i timeout heartbeat = Inr (N i)"
  shows "world_ok V \<lparr>nodes = N, disks = (\<lambda>_. default_durable_state), sent = (\<lambda>_. {}), cast = {}, won = {}\<rparr>
    empty_ledger {}"
proof -
  have blank: "role (N i) = Follower \<and> commit_index (N i) = 0 \<and> match_index (N i) = Map.empty \<and>
      current_term (N i) = 0 \<and> log (N i) = [] \<and> snapshot (N i) = default_metadata" for i
    using assms [of i] by (intro boot_blank [of i V]) blast
  have "steady (N i)" for i
    using cluster_inv_boot [OF assms] cluster_inv_node [of V _ i] by (fastforce simp: node_sound_def)
  moreover have "node_ok V empty_ledger i (N i)" for i by (rule blank_ok [OF blank])
  ultimately show ?thesis
    using blank ledger_reachable.start [of "majority V"]
    by (simp add: world_ok_def ledger_of_def plain_def empty_ledger_def disk_vote_def default_durable_state_def
        default_hard_state_def)
qed

lemma cast_once:
  assumes "cluster_inv V w" and "(i, t, c) \<in> cast w" and "(i, t, c') \<in> cast w"
  shows "c = c'"
  using assms unfolding cluster_inv_def votes_sound_def by blast

lemma world_ok_more:
  assumes "world_ok V w b D"
    and "\<forall>(t, k, e) \<in> D'. 0 < k \<and> (\<exists>xs. settled (majority V) b t k xs \<and> xs ! (k - 1) = e)"
  shows "world_ok V w b (D \<union> D')"
  using assms unfolding world_ok_def ball_Un by (elim conjE, intro conjI) assumption+

lemma world_ok_operate:
  assumes cinv: "cluster_inv V w" and ok: "world_ok V w a D" and auth: "authentic w i op" and quiet: "quiet_op op"
    and run: "run_op (nodes w i) op = Some (n', es)" and V: "distinct V" 
    and disk: "durable_apply_all (disks w i) es = Some d'"
  shows "\<exists>b. world_ok V (carry_out i n' d' es w) b (D \<union> decided n')"
proof -
  have d': "persisted d' n'"
    using persistsD [OF persists_run_op [OF run], of "disks w i"] cluster_inv_node [OF cinv, of i] disk by auto
  have once: "c = c'" if "(i, current_term n', c) \<in> cast w \<union> disk_vote i d'"
    "(i, current_term n', c') \<in> cast w \<union> disk_vote i d'" for c c'
    using cast_once [OF cluster_inv_operate [OF cinv auth run disk], of i "current_term n'" c c'] that by (simp add: carry_out_def)
  obtain b where b: "ledger_steps (majority V) i a b" "terms b i = current_term n'"
    "logs b i = log n'" "ballots b = cast w \<union> disk_vote i d'" "node_ok V b i n'"
    "\<forall>e \<in> set es. message_ok V b i e"
    using world_step [OF cinv ok auth quiet run V d' once] by blast
  have w: "world_ok V (carry_out i n' d' es w) b D"
    by (rule world_ok_carry_out [OF ok b(1-3) plain_step(1) [OF cinv ok auth quiet run] b(5,4)]) (use b(6) in blast)
  have "0 < k \<and> (\<exists>xs. settled (majority V) b t k xs \<and> xs ! (k - 1) = e)" if "(t, k, e) \<in> decided n'" for t k e
  proof -
    from that obtain j where j: "j < commit_index n'" "t = current_term n'" "k = Suc j" "e = log n' ! j"
      by (auto simp: decided_def)
    have "settled (majority V) b (current_term n') (commit_index n') (log n')" using b(5) by (simp add: node_ok_def)
    then have "settled (majority V) b t k (log n')" unfolding j(2,3) by (rule settled_mono) (use j(1) in simp)
    with j(3,4) show ?thesis by (intro conjI exI [of _ "log n'"]) simp_all
  qed
  then have "\<forall>(t, k, e) \<in> decided n'. 0 < k \<and> (\<exists>xs. settled (majority V) b t k xs \<and> xs ! (k - 1) = e)" by blast
  from world_ok_more [OF w this] show ?thesis ..
qed

lemma world_ok_crash:
  assumes cinv: "cluster_inv V w" and ok: "world_ok V w a D" and auth: "authentic w i op" and quiet: "quiet_op op"
    and run: "run_op (nodes w i) op = Some (n', es)" and V: "distinct V"
    and disk: "durable_apply_all (disks w i) (take k es) = Some d'" and image: "image_ok d'"
    and rec: "recover_from d' i V timeout heartbeat = Some (Inr m)"
  shows "\<exists>b. world_ok V (carry_out i m d' (take k es) w) b D"
proof -
  have next_inv: "cluster_inv V (carry_out i m d' (take k es) w)"
    by (rule cluster_inv_crash [OF cinv auth run disk image rec])
  then have once: "c = c'" if "(i, current_term n', c) \<in> cast w \<union> disk_vote i d'"
    "(i, current_term n', c') \<in> cast w \<union> disk_vote i d'" for c c'
    using cast_once [of V "carry_out i m d' (take k es) w" i "current_term n'" c c'] that by (simp add: carry_out_def)
  note n = cluster_inv_node [OF cinv, of i] and plain = world_okD(5) [OF ok, of i]
  have pm: "persisted d' m" by (rule persisted_recover_from [OF rec])
  have steady: "steady m"
    using cluster_inv_node [OF next_inv, of i] by (simp add: carry_out_def node_sound_def)
  have old: "ds_snapshot (disks w i) = default_metadata" using n plain by (simp add: persisted_def plain_def)
  have d: "persisted (disks w i) (nodes w i)" using n by blast
  from run plain quiet d disk show ?thesis
  proof (cases rule: crash_leaves)
    case all
    have snap: "ds_snapshot d' = default_metadata"
      using all plain_step(1) [OF cinv ok auth quiet run] by (simp add: persisted_def plain_def)
    note blank = recovered_blank [OF rec this]
    obtain b where b: "ledger_steps (majority V) i a b" "terms b i = current_term n'"
      "logs b i = log n'" "ballots b = cast w \<union> disk_vote i d'" "node_ok V b i n'"
      "\<forall>e \<in> set es. message_ok V b i e"
      using world_step [OF cinv ok auth quiet run V all once] by blast
    have "world_ok V (carry_out i m d' (take k es) w) b D"
    proof (rule world_ok_carry_out [OF ok b(1)])
      show "terms b i = current_term m" "logs b i = log m" using b(2,3) blank all by (simp_all add: persisted_def)
      show "plain m" using steady blank by (simp add: plain_def)
      show "node_ok V b i m" by (rule blank_ok [OF blank])
      show "message_ok V b i e" if "e \<in> set (take k es)" "is_send e" for e using b(6) in_set_takeD [OF that(1)] by blast
    qed (rule b(4))
    then show ?thesis ..
  next
    case part
    have snap: "ds_snapshot d' = default_metadata" using part(3) old by simp
    note blank = recovered_blank [OF rec this]
    let ?t = "hs_current_term (ds_hard_state d')"
    let ?b = "a\<lparr>terms := (terms a)(i := ?t)\<rparr>"
    have t: "terms a i \<le> ?t" using part(4) world_okD(2) [OF ok, of i] d by (auto simp: persisted_def)
    have step: "ledger_step (majority V) i a ?b" by (rule ledger_step.raise [OF t])
    then have steps: "ledger_steps (majority V) i a ?b" by blast
    have "disk_vote i d' \<subseteq> cast w"
      using part(4)
    proof
      assume "ds_hard_state d' = ds_hard_state (disks w i)"
      then have "disk_vote i d' = disk_vote i (disks w i)" by (simp only: disk_vote_def)
      with world_okD(7) [OF ok, of i] show ?thesis by simp
    qed (simp add: disk_vote_def)
    then have votes: "ballots ?b = cast w \<union> disk_vote i d'" using world_okD(4) [OF ok] by auto
    have "world_ok V (carry_out i m d' (take k es) w) ?b D"
    proof (rule world_ok_carry_out [OF ok steps])
      show "terms ?b i = current_term m" "logs ?b i = log m"
        using blank part(2) world_okD(3) [OF ok, of i] d by (simp_all add: persisted_def)
      show "plain m" using steady blank by (simp add: plain_def)
      show "node_ok V ?b i m" by (rule blank_ok [OF blank])
      show "message_ok V ?b i e" if "e \<in> set (take k es)" "is_send e" for e using part(1) that by blast
    qed (rule votes)
    then show ?thesis ..
  qed
qed

lemma log_cluster_refines: "log_cluster V w D \<Longrightarrow> \<exists>a. world_ok V w a D"
proof (induction rule: log_cluster.induct)
  case (boot N)
  from world_ok_boot [OF boot] show ?case by blast
next
  case (operate w D i op n' es d')
  then obtain a where ok: "world_ok V w a D" by blast
  have cinv: "cluster_inv V w" by (rule cluster_cluster_inv [OF log_cluster_cluster [OF operate.hyps(1)]])
  have quiet: "quiet_op op" by (rule authentic_quiet [OF ok operate.hyps(2,3)])
  show ?case
    by (rule world_ok_operate [OF cinv ok operate.hyps(2) quiet operate.hyps(4) log_cluster_distinct [OF operate.hyps(1)] operate.hyps(5)])
next
  case (crash w D i op n' es k d' timeout heartbeat m)
  then obtain a where ok: "world_ok V w a D" by blast
  have cinv: "cluster_inv V w" by (rule cluster_cluster_inv [OF log_cluster_cluster [OF crash.hyps(1)]])
  have quiet: "quiet_op op" by (rule authentic_quiet [OF ok crash.hyps(2,3)])
  show ?case
    by (rule world_ok_crash [OF cinv ok crash.hyps(2) quiet crash.hyps(4) log_cluster_distinct [OF crash.hyps(1)] crash.hyps(5-7)])
qed

section \<open>What holds in every world\<close>

lemma decided_settled:
  assumes "world_ok V w a D" and "(t, k, e) \<in> D"
  obtains xs where "0 < k" "settled (majority V) a t k xs" "xs ! (k - 1) = e"
  using world_okD(9) [OF assms] by blast

lemma node_settled: "world_ok V w a D \<Longrightarrow>
    settled (majority V) a (current_term (nodes w i)) (commit_index (nodes w i)) (log (nodes w i))"
  using world_okD(6) by (fastforce simp: node_ok_def)

lemma node_log:
  "world_ok V w a D \<Longrightarrow> coherent a (log (nodes w i))"
  using world_okD(1,3) log_belowD(1) unfolding ledger_inv_def log_below_def by metis

lemma leader_holds_log:
  assumes "world_ok V w a D" and "role (nodes w i) = Leader"
  shows "(current_term (nodes w i), i) \<in> led a" and "leader_log a (current_term (nodes w i)) = log (nodes w i)"
proof -
  show led: "(current_term (nodes w i), i) \<in> led a"
    using world_okD(6) [OF assms(1), of i] assms(2) by (simp add: node_ok_def standing_def)
  show "leader_log a (current_term (nodes w i)) = log (nodes w i)"
    using world_okD(1-3) [OF assms(1)] log_belowD(5) [OF _ led] by (simp add: ledger_inv_def)
qed

lemma shares_last: "shares k xs ys \<Longrightarrow> 0 < k \<Longrightarrow> k \<le> length ys \<and> ys ! (k - 1) = xs ! (k - 1)"
  using shares_nth [of k xs ys "k - 1"] by (simp add: shares_def)

lemma decided_majority:
  assumes ok: "world_ok V w a D" and D: "(t, k, e) \<in> D"
  shows "\<exists>Q. majority V Q \<and> (\<forall>v \<in> Q. k \<le> length (log (nodes w v)) \<and> log (nodes w v) ! (k - 1) = e)"
proof -
  note inv = world_okD(1) [OF ok]
  from decided_settled [OF ok D] obtain xs where k: "0 < k" and xs: "settled (majority V) a t k xs" "xs ! (k - 1) = e" .
  then obtain s m where sm: "k \<le> m" "committed_in (majority V) a s m" "shares k xs (leader_log a s)"
    unfolding settled_def by auto
  then obtain Q where Q: "majority V Q" "\<forall>v \<in> Q. acked a v s m" unfolding committed_in_def by blast
  have "k \<le> length (log (nodes w v)) \<and> log (nodes w v) ! (k - 1) = e" if "v \<in> Q" for v
  proof -
    have "kept a s m (logs a v) (Suc (terms a v))"
      using inv Q(2) that by (auto simp: ledger_inv_def acks_kept_def)
    moreover have "\<not> strays a s m r" for r
      using majority_ledger.committed_kept [OF inv sm(2)] by (auto simp: strays_def)
    ultimately have "shares m (leader_log a s) (log (nodes w v))"
      using world_okD(3) [OF ok, of v] by (simp add: kept_def)
    then have "shares k (leader_log a s) (log (nodes w v))" using sm(1) by (rule shares_mono)
    with sm(3) have "shares k xs (log (nodes w v))" by (rule shares_trans)
    from shares_last [OF this k] xs(2) show ?thesis by simp
  qed
  with Q(1) show ?thesis by blast
qed

end
