(* ===== verification/Kv_Codec.thy ===== *)
theory Kv_Codec
  imports Prelude
begin

text \<open>
  The wire format of \<^verbatim>\<open>crates/kurogane-kv/src/lib.rs\<close>: \<^verbatim>\<open>Command::encode\<close>,
  \<^verbatim>\<open>Command::decode\<close>, \<^verbatim>\<open>encode_bytes\<close> and \<^verbatim>\<open>ByteReader\<close>. The locale \<open>prefix_code\<close> is the
  contract between a field format and what is composed of it; the length-prefixed byte string,
  the key/value pair of a snapshot and the command are its instances.
\<close>

unbundle bit_operations_syntax

section \<open>Big-endian lengths\<close>

definition to_be_bytes :: "32 word \<Rightarrow> bytes" where
  "to_be_bytes w = [ucast (drop_bit 24 w), ucast (drop_bit 16 w), ucast (drop_bit 8 w), ucast w]"

fun from_be_bytes :: "bytes \<Rightarrow> 32 word" where
  "from_be_bytes [a, b, c, d] =
     push_bit 24 (ucast a) OR push_bit 16 (ucast b) OR push_bit 8 (ucast c) OR ucast d"
| "from_be_bytes _ = 0"

lemma length_to_be_bytes [simp]: "length (to_be_bytes w) = 4"
  by (simp add: to_be_bytes_def)

lemma from_be_bytes_to_be_bytes [simp]: "from_be_bytes (to_be_bytes w) = w"
proof (rule bit_word_eqI)
  fix n assume "n < LENGTH(32)"
  then consider "n < 8" | "8 \<le> n" "n < 16" | "16 \<le> n" "n < 24" | "24 \<le> n" "n < 32"
    by fastforce
  then show "bit (from_be_bytes (to_be_bytes w)) n = bit w n"
    by cases (auto simp: to_be_bytes_def bit_simps)
qed

section \<open>Reading and writing length-prefixed byte strings\<close>

datatype decode_error = Truncated | UnknownTag byte

text \<open>\<^verbatim>\<open>value.len() as u32\<close> keeps the low 32 bits of the length.\<close>

definition encode_bytes :: "bytes \<Rightarrow> bytes \<Rightarrow> bytes" where
  "encode_bytes buf value = buf @ to_be_bytes (word_of_nat (length value)) @ value"

record byte_reader =
  rd_bytes :: bytes
  position :: nat

definition new_reader :: "bytes \<Rightarrow> byte_reader" where
  "new_reader bs = \<lparr>rd_bytes = bs, position = 0\<rparr>"

text \<open>\<^verbatim>\<open>bytes.get(from..to)\<close>.\<close>

definition slice :: "bytes \<Rightarrow> nat \<Rightarrow> nat \<Rightarrow> bytes option" where
  "slice bs from_pos to_pos =
     (if from_pos \<le> to_pos \<and> to_pos \<le> length bs
      then Some (take (to_pos - from_pos) (drop from_pos bs)) else None)"

definition read_u8 :: "byte_reader \<Rightarrow> decode_error + byte \<times> byte_reader" where
  "read_u8 r =
     (if position r < length (rd_bytes r)
      then Inr (rd_bytes r ! position r, r\<lparr>position := position r + 1\<rparr>)
      else Inl Truncated)"

definition read_bytes :: "byte_reader \<Rightarrow> decode_error + bytes \<times> byte_reader" where
  "read_bytes r =
     (case slice (rd_bytes r) (position r) (position r + 4) of
        None \<Rightarrow> Inl Truncated
      | Some length_bytes \<Rightarrow>
          (let len = unat (from_be_bytes length_bytes); start = position r + 4 in
           case slice (rd_bytes r) start (start + len) of
             None \<Rightarrow> Inl Truncated
           | Some value \<Rightarrow> Inr (value, r\<lparr>position := start + len\<rparr>)))"

definition is_at_end :: "byte_reader \<Rightarrow> bool" where
  "is_at_end r \<longleftrightarrow> length (rd_bytes r) \<le> position r"

section \<open>Commands\<close>

datatype command =
    Set bytes bytes
  | Delete bytes
  | Get bytes

definition SET_TAG :: byte where "SET_TAG = 0"
definition DELETE_TAG :: byte where "DELETE_TAG = 1"
definition GET_TAG :: byte where "GET_TAG = 2"

fun encode :: "command \<Rightarrow> bytes" where
  "encode (Set key value) = encode_bytes (encode_bytes [SET_TAG] key) value"
| "encode (Delete key) = encode_bytes [DELETE_TAG] key"
| "encode (Get key) = encode_bytes [GET_TAG] key"

definition decode_from :: "byte_reader \<Rightarrow> decode_error + command \<times> byte_reader" where
  "decode_from reader = and_then (read_u8 reader) (\<lambda>(tag, r).
     if tag = SET_TAG then
       and_then (read_bytes r) (\<lambda>(key, r'). and_then (read_bytes r') (\<lambda>(value, r'').
         Inr (Set key value, r'')))
     else if tag = DELETE_TAG then and_then (read_bytes r) (\<lambda>(key, r'). Inr (Delete key, r'))
     else if tag = GET_TAG then and_then (read_bytes r) (\<lambda>(key, r'). Inr (Get key, r'))
     else Inl (UnknownTag tag))"

definition decode :: "bytes \<Rightarrow> decode_error + command" where
  "decode bs = and_then (decode_from (new_reader bs)) (\<lambda>(c, _). Inr c)"

section \<open>Prefix codes\<close>

text \<open>What a field format promises: a reader standing before an encoded item reads it back and
  stops behind it, whatever follows, and finds every proper prefix truncated.\<close>

locale prefix_code =
  fixes enc :: "'a \<Rightarrow> bytes"
    and rd :: "byte_reader \<Rightarrow> decode_error + 'a \<times> byte_reader"
    and ok :: "'a \<Rightarrow> bool"
  assumes reads: "ok x \<Longrightarrow> rd \<lparr>rd_bytes = pre @ enc x @ post, position = length pre\<rparr> =
      Inr (x, \<lparr>rd_bytes = pre @ enc x @ post, position = length pre + length (enc x)\<rparr>)"
    and truncates: "ok x \<Longrightarrow> k < length (enc x) \<Longrightarrow>
      rd \<lparr>rd_bytes = pre @ take k (enc x), position = length pre\<rparr> = Inl Truncated"
begin

lemma reads_start: "ok x \<Longrightarrow> rd (new_reader (enc x @ post)) =
    Inr (x, \<lparr>rd_bytes = enc x @ post, position = length (enc x)\<rparr>)"
  using reads [of x "[]" post] by (simp add: new_reader_def)

lemma uniquely_decodable:
  assumes "ok x" "ok y" and "enc x @ s = enc y @ t"
  shows "x = y \<and> s = t"
proof -
  have "Inr (x, \<lparr>rd_bytes = enc x @ s, position = length (enc x)\<rparr>) =
      (Inr (y, \<lparr>rd_bytes = enc y @ t, position = length (enc y)\<rparr>) :: decode_error + _)"
    using reads_start [OF assms(1), of s] reads_start [OF assms(2), of t] assms(3) by simp
  with assms(3) show ?thesis by simp
qed

lemma injective: "ok x \<Longrightarrow> ok y \<Longrightarrow> enc x = enc y \<Longrightarrow> x = y"
  using uniquely_decodable [of x y "[]" "[]"] by simp

lemma truncates_start: "ok x \<Longrightarrow> k < length (enc x) \<Longrightarrow>
    rd (new_reader (take k (enc x))) = Inl Truncated"
  using truncates [of x k "[]"] by (simp add: new_reader_def)

end

text \<open>Two fields in a row form a prefix code again.\<close>

definition read_pair ::
    "(byte_reader \<Rightarrow> decode_error + 'a \<times> byte_reader) \<Rightarrow>
     (byte_reader \<Rightarrow> decode_error + 'b \<times> byte_reader) \<Rightarrow>
     byte_reader \<Rightarrow> decode_error + ('a \<times> 'b) \<times> byte_reader" where
  "read_pair rd1 rd2 r =
     and_then (rd1 r) (\<lambda>(x, r'). and_then (rd2 r') (\<lambda>(y, r''). Inr ((x, y), r'')))"

lemma prefix_code_pair:
  assumes "prefix_code e1 r1 ok1" and "prefix_code e2 r2 ok2"
  shows "prefix_code (\<lambda>(x, y). e1 x @ e2 y) (read_pair r1 r2) (\<lambda>(x, y). ok1 x \<and> ok2 y)"
proof unfold_locales
  fix xy pre post assume ok: "case xy of (x, y) \<Rightarrow> ok1 x \<and> ok2 y"
  obtain x y where xy: "xy = (x, y)" by fastforce
  show "read_pair r1 r2 \<lparr>rd_bytes = pre @ (case xy of (x, y) \<Rightarrow> e1 x @ e2 y) @ post,
      position = length pre\<rparr> =
    Inr (xy, \<lparr>rd_bytes = pre @ (case xy of (x, y) \<Rightarrow> e1 x @ e2 y) @ post,
      position = length pre + length (case xy of (x, y) \<Rightarrow> e1 x @ e2 y)\<rparr>)"
    using ok prefix_code.reads [OF assms(1), of x pre "e2 y @ post"]
      prefix_code.reads [OF assms(2), of y "pre @ e1 x" post]
    by (simp add: xy read_pair_def and_then_def add.assoc)
next
  fix xy k pre assume ok: "case xy of (x, y) \<Rightarrow> ok1 x \<and> ok2 y"
    and k: "k < length (case xy of (x, y) \<Rightarrow> e1 x @ e2 y)"
  obtain x y where xy: "xy = (x, y)" by fastforce
  show "read_pair r1 r2 \<lparr>rd_bytes = pre @ take k (case xy of (x, y) \<Rightarrow> e1 x @ e2 y),
      position = length pre\<rparr> = Inl Truncated"
  proof (cases "k < length (e1 x)")
    case True
    with ok prefix_code.truncates [OF assms(1), of x k pre] show ?thesis
      by (simp add: xy read_pair_def and_then_def)
  next
    case False
    with ok k prefix_code.reads [OF assms(1), of x pre "take (k - length (e1 x)) (e2 y)"]
      prefix_code.truncates [OF assms(2), of y "k - length (e1 x)" "pre @ e1 x"]
    show ?thesis by (simp add: xy read_pair_def and_then_def)
  qed
qed

section \<open>The instances\<close>

definition short :: "bytes \<Rightarrow> bool" where
  "short bs \<longleftrightarrow> length bs < 2 ^ 32"

definition field :: "bytes \<Rightarrow> bytes" where
  "field value = encode_bytes [] value"

lemma encode_bytes_field: "encode_bytes buf value = buf @ field value"
  by (simp add: field_def encode_bytes_def)

lemma length_field [simp]: "length (field value) = 4 + length value"
  by (simp add: field_def encode_bytes_def)

lemma unat_length_short: "short bs \<Longrightarrow> unat (word_of_nat (length bs) :: 32 word) = length bs"
  by (simp add: short_def unat_of_nat)

lemma slice_middle [simp]:
  "slice (pre @ mid @ post) (length pre) (length pre + length mid) = Some mid"
  by (simp add: slice_def)

lemma slice_short: "length bs < to_pos \<Longrightarrow> slice bs from_pos to_pos = None"
  by (simp add: slice_def)

interpretation field_code: prefix_code field read_bytes short
proof
  fix x pre post assume x: "short x"
  let ?len = "to_be_bytes (word_of_nat (length x))"
  have "slice (pre @ ?len @ x @ post) (length pre) (length pre + 4) = Some ?len"
    using slice_middle [of pre ?len "x @ post"] by simp
  moreover have "slice (pre @ ?len @ x @ post) (length pre + 4) (length pre + 4 + length x) = Some x"
    using slice_middle [of "pre @ ?len" x post] by simp
  ultimately show "read_bytes \<lparr>rd_bytes = pre @ field x @ post, position = length pre\<rparr> =
      Inr (x, \<lparr>rd_bytes = pre @ field x @ post, position = length pre + length (field x)\<rparr>)"
    using unat_length_short [OF x]
    by (simp add: read_bytes_def field_def encode_bytes_def Let_def add.assoc)
next
  fix x k pre assume x: "short x" and k: "k < length (field x)"
  let ?len = "to_be_bytes (word_of_nat (length x))"
  have bs: "take k (field x) = take k ?len @ take (k - 4) x"
    by (simp add: field_def encode_bytes_def)
  show "read_bytes \<lparr>rd_bytes = pre @ take k (field x), position = length pre\<rparr> = Inl Truncated"
  proof (cases "k < 4")
    case True
    then show ?thesis by (simp add: read_bytes_def bs slice_short)
  next
    case False
    then have "slice (pre @ ?len @ take (k - 4) x) (length pre) (length pre + 4) = Some ?len"
      using slice_middle [of pre ?len "take (k - 4) x"] by simp
    moreover have "slice (pre @ ?len @ take (k - 4) x) (length pre + 4)
        (length pre + 4 + length x) = None"
      using k False by (intro slice_short) simp
    ultimately show ?thesis
      using False unat_length_short [OF x] by (simp add: read_bytes_def bs Let_def)
  qed
qed

text \<open>A key and its value, as a snapshot and the body of \<open>Set\<close> hold them.\<close>

definition pair_field :: "bytes \<times> bytes \<Rightarrow> bytes" where
  "pair_field = (\<lambda>(key, value). field key @ field value)"

definition short_pair :: "bytes \<times> bytes \<Rightarrow> bool" where
  "short_pair = (\<lambda>(key, value). short key \<and> short value)"

interpretation pair_code: prefix_code pair_field "read_pair read_bytes read_bytes" short_pair
  unfolding pair_field_def short_pair_def
  by (rule prefix_code_pair) (rule field_code.prefix_code_axioms)+

fun short_command :: "command \<Rightarrow> bool" where
  "short_command (Set key value) = (short key \<and> short value)"
| "short_command (Delete key) = short key"
| "short_command (Get key) = short key"

text \<open>A tag in front of a prefix code leaves a prefix code.\<close>

lemma read_u8_tag: "read_u8 \<lparr>rd_bytes = pre @ tag # post, position = length pre\<rparr> =
    Inr (tag, \<lparr>rd_bytes = pre @ tag # post, position = length (pre @ [tag])\<rparr>)"
  by (simp add: read_u8_def)

lemma read_u8_end: "read_u8 \<lparr>rd_bytes = pre, position = length pre\<rparr> = Inl Truncated"
  by (simp add: read_u8_def)

lemmas tags = SET_TAG_def DELETE_TAG_def GET_TAG_def

fun body :: "command \<Rightarrow> bytes" where
  "body (Set key value) = pair_field (key, value)"
| "body (Delete key) = field key"
| "body (Get key) = field key"

fun tag_of :: "command \<Rightarrow> byte" where
  "tag_of (Set key value) = SET_TAG"
| "tag_of (Delete key) = DELETE_TAG"
| "tag_of (Get key) = GET_TAG"

lemma encode_tag_body: "encode c = tag_of c # body c"
  by (cases c) (simp_all add: encode_bytes_field pair_field_def)

lemma decode_from_tag:
  "decode_from \<lparr>rd_bytes = pre @ tag_of c # bs, position = length pre\<rparr> =
     (let r = \<lparr>rd_bytes = (pre @ [tag_of c]) @ bs, position = length (pre @ [tag_of c])\<rparr> in
      case c of
        Set _ _ \<Rightarrow> and_then (read_pair read_bytes read_bytes r)
          (\<lambda>((key, value), r'). Inr (Set key value, r'))
      | Delete _ \<Rightarrow> and_then (read_bytes r) (\<lambda>(key, r'). Inr (Delete key, r'))
      | Get _ \<Rightarrow> and_then (read_bytes r) (\<lambda>(key, r'). Inr (Get key, r')))"
  by (cases c)
     (auto simp: decode_from_def read_u8_tag tags read_pair_def and_then_def Let_def split: sum.splits)

interpretation command_code: prefix_code encode decode_from short_command
proof
  fix c pre post assume "short_command c"
  then show "decode_from \<lparr>rd_bytes = pre @ encode c @ post, position = length pre\<rparr> =
      Inr (c, \<lparr>rd_bytes = pre @ encode c @ post, position = length pre + length (encode c)\<rparr>)"
    using field_code.reads [of _ "pre @ [tag_of c]" post]
      pair_code.reads [of _ "pre @ [tag_of c]" post] decode_from_tag [of pre c "body c @ post"]
    by (cases c) (auto simp: encode_tag_body short_pair_def Let_def)
next
  fix c k pre assume c: "short_command c" and k: "k < length (encode c)"
  show "decode_from \<lparr>rd_bytes = pre @ take k (encode c), position = length pre\<rparr> = Inl Truncated"
  proof (cases k)
    case 0
    then show ?thesis by (simp add: decode_from_def read_u8_end)
  next
    case (Suc j)
    with c k show ?thesis
      using field_code.truncates [of _ j "pre @ [tag_of c]"]
        pair_code.truncates [of _ j "pre @ [tag_of c]"] decode_from_tag [of pre c "take j (body c)"]
      by (cases c) (auto simp: encode_tag_body short_pair_def Let_def)
  qed
qed

lemma decode_encode: "short_command c \<Longrightarrow> decode (encode c @ post) = Inr c"
  by (simp add: decode_def command_code.reads_start)

lemma decode_truncated:
  "short_command c \<Longrightarrow> k < length (encode c) \<Longrightarrow> decode (take k (encode c)) = Inl Truncated"
  by (simp add: decode_def command_code.truncates_start)

text \<open>Decoding accepts nothing else: what it reads was a complete encoding.\<close>

lemma to_be_bytes_from_be_bytes: "length bs = 4 \<Longrightarrow> to_be_bytes (from_be_bytes bs) = bs"
proof -
  assume "length bs = 4"
  then obtain a b c d where bs: "bs = [a, b, c, d]" by (auto simp: length_Suc_conv numeral_eq_Suc)
  have beyond: "8 \<le> m \<Longrightarrow> \<not> bit x m" for x :: byte and m
    using bit_imp_le_length [of x m] by auto
  have "ucast (drop_bit 24 (from_be_bytes bs)) = a" "ucast (drop_bit 16 (from_be_bytes bs)) = b"
    "ucast (drop_bit 8 (from_be_bytes bs)) = c" "ucast (from_be_bytes bs) = d"
    by (auto intro!: bit_word_eqI simp: bs bit_simps beyond)
  then show ?thesis by (simp add: to_be_bytes_def bs)
qed

lemma slice_SomeD: "slice bs i j = Some v \<Longrightarrow> i \<le> j \<and> j \<le> length bs \<and> length v = j - i \<and>
    drop i bs = v @ drop j bs"
  by (auto simp: slice_def min_def split: if_splits)
     (metis append_take_drop_id drop_drop le_add_diff_inverse2)

lemma read_bytes_InrD:
  assumes "read_bytes r = Inr (v, r')"
  shows "short v" and "r' = r\<lparr>position := position r + length (field v)\<rparr>"
    and "position r' \<le> length (rd_bytes r)"
    and "drop (position r) (rd_bytes r) = field v @ drop (position r') (rd_bytes r)"
proof -
  from assms obtain lb where lb: "slice (rd_bytes r) (position r) (position r + 4) = Some lb"
    and v: "slice (rd_bytes r) (position r + 4) (position r + 4 + unat (from_be_bytes lb)) = Some v"
    and r': "r' = r\<lparr>position := position r + 4 + unat (from_be_bytes lb)\<rparr>"
    by (auto simp: read_bytes_def Let_def split: option.splits)
  note lb' = slice_SomeD [OF lb] and v' = slice_SomeD [OF v]
  have len: "length v = unat (from_be_bytes lb)" using v' by simp
  then have "word_of_nat (length v) = from_be_bytes lb" by simp
  with lb' have f: "field v = lb @ v"
    by (simp add: field_def encode_bytes_def to_be_bytes_from_be_bytes)
  show "short v" using unsigned_less [of "from_be_bytes lb"] by (simp add: short_def len)
  show "r' = r\<lparr>position := position r + length (field v)\<rparr>" by (simp add: r' len)
  show "position r' \<le> length (rd_bytes r)" using v' by (simp add: r')
  show "drop (position r) (rd_bytes r) = field v @ drop (position r') (rd_bytes r)"
    using lb' v' by (simp add: f r')
qed

lemma decode_InrD:
  assumes "decode bs = Inr c"
  shows "short_command c" and "\<exists>post. bs = encode c @ post"
proof -
  from assms obtain tag bs' where bs: "bs = tag # bs'"
    by (cases bs) (auto simp: decode_def decode_from_def read_u8_def new_reader_def)
  let ?r = "\<lambda>tag. \<lparr>rd_bytes = tag # bs', position = Suc 0\<rparr>"
  have u8: "read_u8 (new_reader bs) = Inr (tag, ?r tag)"
    by (simp add: read_u8_def new_reader_def bs)
  have one: "short v \<and> (\<exists>post. bs' = field v @ post)" if "read_bytes (?r t) = Inr (v, r')" for t v r'
    using read_bytes_InrD [OF that] by auto
  have two: "short k \<and> short v \<and> (\<exists>post. bs' = field k @ field v @ post)"
    if "read_bytes (?r t) = Inr (k, r')" "read_bytes r' = Inr (v, r'')" for t k v r' r''
    using read_bytes_InrD [OF that(1)] read_bytes_InrD [OF that(2)] by auto
  from assms u8 have "short_command c \<and> (\<exists>post. bs = encode c @ post)"
    by (auto simp: decode_def decode_from_def and_then_eq_Inr bs encode_tag_body pair_field_def
        split: if_splits dest: one two)
  then show "short_command c" "\<exists>post. bs = encode c @ post" by auto
qed

end
