(* ===== verification/Ordered_Map.thy ===== *)
theory Ordered_Map
  imports Prelude
begin

text \<open>
  Rust's \<^verbatim>\<open>BTreeMap\<close> where its iteration order is visible: the key/value store, the nodes and
  the inbox of the simulator, the replicas of the verification harness. A map is an association
  list with strictly increasing keys. The locale \<open>ordered_map\<close> is the contract its clients use.
\<close>

section \<open>The contract\<close>

locale ordered_map =
  fixes empty :: "'m"
    and insert :: "'k::linorder \<Rightarrow> 'v \<Rightarrow> 'm \<Rightarrow> 'm"
    and remove :: "'k \<Rightarrow> 'm \<Rightarrow> 'm"
    and lookup :: "'m \<Rightarrow> 'k \<rightharpoonup> 'v"
    and items :: "'m \<Rightarrow> ('k \<times> 'v) list"
    and ordered :: "'m \<Rightarrow> bool"
  assumes ordered_empty: "ordered empty"
    and ordered_insert: "ordered m \<Longrightarrow> ordered (insert k v m)"
    and ordered_remove: "ordered m \<Longrightarrow> ordered (remove k m)"
    and lookup_empty: "lookup empty = Map.empty"
    and lookup_insert: "ordered m \<Longrightarrow> lookup (insert k v m) = (lookup m)(k \<mapsto> v)"
    and lookup_remove: "ordered m \<Longrightarrow> lookup (remove k m) = (lookup m)(k := None)"
    and items_sorted: "ordered m \<Longrightarrow> sorted_wrt (<) (map fst (items m))"
    and items_lookup: "ordered m \<Longrightarrow> map_of (items m) = lookup m"
    and extensional: "ordered m \<Longrightarrow> ordered m' \<Longrightarrow> lookup m = lookup m' \<Longrightarrow> m = m'"
begin

definition rebuild :: "('k \<times> 'v) list \<Rightarrow> 'm" where
  "rebuild kvs = foldl (\<lambda>m (k, v). insert k v m) empty kvs"

lemma rebuild_snoc: "rebuild (kvs @ [kv]) = insert (fst kv) (snd kv) (rebuild kvs)"
  by (simp add: rebuild_def case_prod_beta)

lemma ordered_rebuild: "ordered (rebuild kvs)"
  by (induction kvs rule: rev_induct)
     (simp_all add: rebuild_snoc ordered_insert, simp add: rebuild_def ordered_empty)

lemma lookup_rebuild: "lookup (rebuild kvs) = map_of (rev kvs)"
  by (induction kvs rule: rev_induct)
     (auto simp: rebuild_snoc lookup_insert ordered_rebuild,
      simp add: rebuild_def lookup_empty)

lemma rebuild_items: "ordered m \<Longrightarrow> rebuild (items m) = m"
proof (rule extensional)
  assume m: "ordered m"
  then have "distinct (map fst (items m))"
    using items_sorted by (simp add: strict_sorted_iff)
  then show "lookup (rebuild (items m)) = lookup m"
    using map_of_inject_set [of "rev (items m)" "items m"]
    by (simp add: lookup_rebuild items_lookup [OF m] flip: rev_map)
qed (simp_all add: ordered_rebuild)

lemma insert_same: "ordered m \<Longrightarrow> lookup m k = Some v \<Longrightarrow> insert k v m = m"
  by (rule extensional) (auto simp: ordered_insert lookup_insert)

lemma insert_insert: "ordered m \<Longrightarrow> insert k v (insert k w m) = insert k v m"
  by (rule extensional) (simp_all add: ordered_insert lookup_insert)

lemma insert_commute:
  "ordered m \<Longrightarrow> k \<noteq> l \<Longrightarrow> insert k v (insert l w m) = insert l w (insert k v m)"
  by (rule extensional) (auto simp: ordered_insert lookup_insert)

lemma remove_insert: "ordered m \<Longrightarrow> remove k (insert k v m) = remove k m"
  by (rule extensional) (simp_all add: ordered_insert ordered_remove lookup_insert lookup_remove)

end

section \<open>Sorted association lists\<close>

type_synonym ('k, 'v) btree = "('k \<times> 'v) list"

fun bt_insert :: "'k::linorder \<Rightarrow> 'v \<Rightarrow> ('k, 'v) btree \<Rightarrow> ('k, 'v) btree" where
  "bt_insert k v [] = [(k, v)]"
| "bt_insert k v ((a, b) # m) =
     (if k < a then (k, v) # (a, b) # m
      else if k = a then (k, v) # m
      else (a, b) # bt_insert k v m)"

definition bt_remove :: "'k::linorder \<Rightarrow> ('k, 'v) btree \<Rightarrow> ('k, 'v) btree" where
  "bt_remove k m = filter (\<lambda>(a, _). a \<noteq> k) m"

definition bt_ordered :: "('k::linorder, 'v) btree \<Rightarrow> bool" where
  "bt_ordered m \<longleftrightarrow> sorted_wrt (<) (map fst m)"

lemma bt_ordered_Nil [simp]: "bt_ordered []"
  by (simp add: bt_ordered_def)

lemma bt_ordered_Cons [simp]:
  "bt_ordered (kv # m) \<longleftrightarrow> (\<forall>k \<in> fst ` set m. fst kv < k) \<and> bt_ordered m"
  by (simp add: bt_ordered_def)

lemma keys_bt_insert [simp]: "fst ` set (bt_insert k v m) = insert k (fst ` set m)"
  by (induction m rule: bt_insert.induct) auto

lemma bt_ordered_insert [simp]: "bt_ordered m \<Longrightarrow> bt_ordered (bt_insert k v m)"
  by (induction k v m rule: bt_insert.induct) auto

lemma bt_ordered_filter [simp]: "bt_ordered m \<Longrightarrow> bt_ordered (filter P m)"
  by (induction m) auto

lemma bt_ordered_distinct: "bt_ordered m \<Longrightarrow> distinct (map fst m)"
  by (simp add: bt_ordered_def strict_sorted_iff)

lemma map_of_bt_insert [simp]: "bt_ordered m \<Longrightarrow> map_of (bt_insert k v m) = (map_of m)(k \<mapsto> v)"
  by (induction k v m rule: bt_insert.induct) (auto simp: fun_eq_iff)

lemma map_of_bt_remove [simp]: "map_of (bt_remove k m) = (map_of m)(k := None)"
  by (induction m) (auto simp: bt_remove_def fun_eq_iff)

lemma map_of_filter_key: "map_of (filter (\<lambda>(k, _). P k) m) k = (if P k then map_of m k else None)"
  by (induction m) auto

lemma bt_extensional:
  assumes "bt_ordered m" "bt_ordered m'" and "map_of m = map_of m'"
  shows "m = m'"
proof -
  have "set m = set m'"
    using assms by (metis map_of_eqI map_of_inject_set bt_ordered_distinct)
  moreover have "sorted (map fst m)" "sorted (map fst m')" "inj_on fst (set m \<union> set m')"
    using assms \<open>set m = set m'\<close> bt_ordered_distinct [of m]
    by (auto simp: bt_ordered_def strict_sorted_iff distinct_map)
  ultimately show ?thesis
    using map_sorted_distinct_set_unique [of fst m m'] bt_ordered_distinct assms by blast
qed

lemma set_bt_insert: "set (bt_insert k v m) \<subseteq> insert (k, v) (set m)"
  by (induction k v m rule: bt_insert.induct) auto

lemma map_of_above: "\<forall>a \<in> fst ` set m. k < a \<Longrightarrow> map_of m (k :: 'k::linorder) = None"
  by (auto simp: map_of_eq_None_iff)

lemma bt_insert_known: "map_of m k \<noteq> None \<Longrightarrow> bt_ordered m \<Longrightarrow> map fst (bt_insert k v m) = map fst m"
proof (induction k v m rule: bt_insert.induct)
  case (2 k v a b m)
  have "k < a \<Longrightarrow> map_of m k = None" using 2(3) by (intro map_of_above) auto
  with 2 show ?case by (auto split: if_splits)
qed simp

lemma bt_ordered_remove [simp]: "bt_ordered m \<Longrightarrow> bt_ordered (bt_remove k m)"
  by (simp add: bt_remove_def)

interpretation btree_map: ordered_map "[]" bt_insert bt_remove map_of "\<lambda>m. m" bt_ordered
  by unfold_locales (simp_all add: bt_extensional, simp add: bt_ordered_def)

end
