(* ===== verification/Kv_State_Machine.thy ===== *)
theory Kv_State_Machine
  imports Kv_Codec Ordered_Map
begin

text \<open>
  \<^verbatim>\<open>StateMachine\<close> of \<^verbatim>\<open>crates/kurogane-kv/src/lib.rs\<close>: the replicated map, its application
  cursor, and the snapshot format. \<open>sm_inv\<close> is its invariant; \<open>restore_snapshot\<close> says a snapshot
  restores the map it was taken from, through the contracts \<open>prefix_code\<close> and \<open>ordered_map\<close>;
  \<open>restore_accepts\<close> says which bytes are a snapshot.
\<close>

section \<open>The state machine\<close>

datatype apply_result =
    SetResult "bytes option"
  | DeleteResult "bytes option"
  | GetResult "bytes option"

record state_machine =
  kv_entries :: "(bytes, bytes) btree"
  last_applied :: u64

definition new_state_machine :: state_machine where
  "new_state_machine = \<lparr>kv_entries = [], last_applied = 0\<rparr>"

definition sm_get :: "state_machine \<Rightarrow> bytes \<Rightarrow> bytes option" where
  "sm_get sm key = map_of (kv_entries sm) key"

definition apply_command ::
    "state_machine \<Rightarrow> command \<Rightarrow> (state_machine \<times> apply_result) option" where
  "apply_command sm c = do {
     i \<leftarrow> add64 (last_applied sm) 1;
     let sm' = sm\<lparr>last_applied := i\<rparr>;
     Some (case c of
       Set key value \<Rightarrow>
         (sm'\<lparr>kv_entries := bt_insert key value (kv_entries sm)\<rparr>,
          SetResult (map_of (kv_entries sm) key))
     | Delete key \<Rightarrow>
         (sm'\<lparr>kv_entries := bt_remove key (kv_entries sm)\<rparr>,
          DeleteResult (map_of (kv_entries sm) key))
     | Get key \<Rightarrow> (sm', GetResult (map_of (kv_entries sm) key)))
   }"

definition skip :: "state_machine \<Rightarrow> state_machine option" where
  "skip sm = do { i \<leftarrow> add64 (last_applied sm) 1; Some (sm\<lparr>last_applied := i\<rparr>) }"

definition sm_snapshot :: "state_machine \<Rightarrow> bytes" where
  "sm_snapshot sm =
     foldl (\<lambda>bytes (key, value). encode_bytes (encode_bytes bytes key) value) [] (kv_entries sm)"

text \<open>The loop of \<^verbatim>\<open>restore\<close>; every round reads at least two length prefixes, so it ends.\<close>

lemma read_bytes_advances:
  "read_bytes r = Inr (v, r') \<Longrightarrow> length (rd_bytes r') - position r' < length (rd_bytes r) - position r"
  using read_bytes_InrD(2,3) [of r v r'] by simp

function restore_loop ::
    "byte_reader \<Rightarrow> (bytes, bytes) btree \<Rightarrow> decode_error + (bytes, bytes) btree" where
  "restore_loop r kvs =
     (if is_at_end r then Inr kvs
      else and_then (read_bytes r) (\<lambda>(key, r').
        and_then (read_bytes r') (\<lambda>(value, r'').
          restore_loop r'' (bt_insert key value kvs))))"
  by pat_completeness auto
termination
  by (relation "measure (\<lambda>(r, _). length (rd_bytes r) - position r)")
     (auto dest!: read_bytes_advances)

declare restore_loop.simps [simp del]

definition restore ::
    "state_machine \<Rightarrow> u64 \<Rightarrow> bytes \<Rightarrow> decode_error + state_machine" where
  "restore sm i bs = and_then (restore_loop (new_reader bs) []) (\<lambda>kvs.
     Inr (sm\<lparr>kv_entries := kvs, last_applied := i\<rparr>))"


section \<open>Snapshots round-trip\<close>

definition sm_inv :: "state_machine \<Rightarrow> bool" where
  "sm_inv sm \<longleftrightarrow> bt_ordered (kv_entries sm) \<and> (\<forall>kv \<in> set (kv_entries sm). short_pair kv)"

lemma sm_snapshot_concat: "sm_snapshot sm = concat (map pair_field (kv_entries sm))"
proof -
  have "foldl (\<lambda>bs (key, value). encode_bytes (encode_bytes bs key) value) buf kvs =
      buf @ concat (map pair_field kvs)" for buf kvs
    by (induction kvs arbitrary: buf) (auto simp: encode_bytes_field pair_field_def)
  then show ?thesis by (simp add: sm_snapshot_def)
qed

lemma pair_field_pos: "0 < length (pair_field kv)"
  by (cases kv) (simp add: pair_field_def field_def encode_bytes_def to_be_bytes_def)

lemma restore_loop_pairs:
  "\<forall>kv \<in> set kvs. short_pair kv \<Longrightarrow>
     restore_loop \<lparr>rd_bytes = pre @ concat (map pair_field kvs), position = length pre\<rparr> m =
       Inr (foldl (\<lambda>m (k, v). bt_insert k v m) m kvs)"
proof (induction kvs arbitrary: pre m)
  case Nil
  then show ?case by (simp add: restore_loop.simps is_at_end_def)
next
  case (Cons kv kvs)
  obtain k v where kv: "kv = (k, v)" by fastforce
  let ?rest = "concat (map pair_field kvs)"
  have "short_pair kv" using Cons.prems by simp
  from pair_code.reads [OF this, of pre ?rest]
  have "read_pair read_bytes read_bytes
      \<lparr>rd_bytes = pre @ pair_field kv @ ?rest, position = length pre\<rparr> =
    Inr ((k, v), \<lparr>rd_bytes = (pre @ pair_field kv) @ ?rest, position = length (pre @ pair_field kv)\<rparr>)"
    by (simp add: kv)
  then obtain r' where
    "read_bytes \<lparr>rd_bytes = pre @ pair_field kv @ ?rest, position = length pre\<rparr> = Inr (k, r')"
    "read_bytes r' = Inr (v,
       \<lparr>rd_bytes = (pre @ pair_field kv) @ ?rest, position = length (pre @ pair_field kv)\<rparr>)"
    by (auto simp: read_pair_def and_then_eq_Inr)
  then show ?case
    using Cons.IH [of "pre @ pair_field kv" "bt_insert k v m"] Cons.prems pair_field_pos [of kv]
    by (subst restore_loop.simps) (simp add: is_at_end_def kv)
qed

lemma restore_snapshot:
  assumes "sm_inv sm"
  shows "restore sm' i (sm_snapshot sm) = Inr (sm'\<lparr>kv_entries := kv_entries sm, last_applied := i\<rparr>)"
proof -
  have "bt_ordered (kv_entries sm)" using assms by (simp add: sm_inv_def)
  then have "foldl (\<lambda>m (k, v). bt_insert k v m) [] (kv_entries sm) = kv_entries sm"
    using btree_map.rebuild_items by (simp add: btree_map.rebuild_def)
  then show ?thesis
    using assms restore_loop_pairs [of "kv_entries sm" "[]" "[]"]
    by (simp add: restore_def sm_snapshot_concat new_reader_def sm_inv_def)
qed

lemma sm_inv_new: "sm_inv new_state_machine"
  by (simp add: sm_inv_def new_state_machine_def)

lemma sm_inv_apply:
  assumes "apply_command sm c = Some (sm', res)" and "sm_inv sm" and "short_command c"
  shows "sm_inv sm'"
proof (cases c)
  case (Set k v)
  with assms set_bt_insert [of k v "kv_entries sm"] show ?thesis
    by (auto simp: apply_command_def sm_inv_def run_simps short_pair_def)
qed (use assms in \<open>auto simp: apply_command_def sm_inv_def run_simps bt_remove_def\<close>)

lemma restore_loop_inv:
  "restore_loop r kvs = Inr kvs' \<Longrightarrow> bt_ordered kvs \<Longrightarrow> (\<forall>kv \<in> set kvs. short_pair kv) \<Longrightarrow>
     bt_ordered kvs' \<and> (\<forall>kv \<in> set kvs'. short_pair kv)"
proof (induction r kvs rule: restore_loop.induct)
  case (1 r kvs)
  show ?case
  proof (cases "is_at_end r")
    case True
    with 1 show ?thesis by (simp add: restore_loop.simps)
  next
    case False
    with 1(2) obtain k r' v r'' where kv: "read_bytes r = Inr (k, r')" "read_bytes r' = Inr (v, r'')"
      and rest: "restore_loop r'' (bt_insert k v kvs) = Inr kvs'"
      by (subst (asm) restore_loop.simps) (auto simp: and_then_eq_Inr)
    have "\<forall>kv \<in> set (bt_insert k v kvs). short_pair kv"
      using set_bt_insert [of k v kvs] 1(4) read_bytes_InrD(1) [OF kv(1)] read_bytes_InrD(1) [OF kv(2)]
      by (auto simp: short_pair_def)
    with 1(1) [OF False kv(1) _ kv(2) _ rest] 1(3) show ?thesis by simp
  qed
qed

lemma sm_inv_restore: "restore sm i bs = Inr sm' \<Longrightarrow> sm_inv sm'"
  by (auto simp: restore_def and_then_eq_Inr sm_inv_def dest: restore_loop_inv)

lemma restore_loop_InrD:
  "restore_loop r kvs = Inr kvs' \<Longrightarrow> position r \<le> length (rd_bytes r) \<Longrightarrow>
     \<exists>ps. list_all short_pair ps \<and> drop (position r) (rd_bytes r) = concat (map pair_field ps) \<and>
       kvs' = foldl (\<lambda>m (k, v). bt_insert k v m) kvs ps"
proof (induction r kvs rule: restore_loop.induct)
  case (1 r kvs)
  show ?case
  proof (cases "is_at_end r")
    case True
    with 1(2,3) show ?thesis by (intro exI [of _ "[]"]) (simp add: restore_loop.simps is_at_end_def)
  next
    case False
    with 1(2) obtain k r' v r'' where kv: "read_bytes r = Inr (k, r')" "read_bytes r' = Inr (v, r'')"
      and rest: "restore_loop r'' (bt_insert k v kvs) = Inr kvs'"
      by (subst (asm) restore_loop.simps) (auto simp: and_then_eq_Inr)
    note k = read_bytes_InrD [OF kv(1)] and v = read_bytes_InrD [OF kv(2)]
    have same: "rd_bytes r' = rd_bytes r" "rd_bytes r'' = rd_bytes r" by (simp_all add: v(2) k(2))
    from 1(1) [OF False kv(1) _ kv(2) _ rest] v(3) same obtain ps where ps: "list_all short_pair ps"
      "drop (position r'') (rd_bytes r'') = concat (map pair_field ps)"
      "kvs' = foldl (\<lambda>m (k, v). bt_insert k v m) (bt_insert k v kvs) ps" by fastforce
    from same k(4) v(4) ps(2) have "drop (position r) (rd_bytes r) = pair_field (k, v) @ concat (map pair_field ps)"
      by (simp add: pair_field_def)
    with ps(1,3) k(1) v(1) show ?thesis
      by (intro exI [of _ "(k, v) # ps"]) (simp add: short_pair_def)
  qed
qed

text \<open>\<^verbatim>\<open>restore\<close> accepts exactly the concatenations of encoded pairs; the last value of a key counts.\<close>

lemma restore_accepts:
  "restore old i bs = Inr new \<longleftrightarrow> (\<exists>ps. list_all short_pair ps \<and> bs = concat (map pair_field ps) \<and>
     sm_inv new \<and> sm_get new = map_of (rev ps) \<and> last_applied new = i)"
proof -
  let ?new = "\<lambda>ps. old\<lparr>kv_entries := btree_map.rebuild ps, last_applied := i\<rparr>"
  have built: "restore old i bs = Inr new \<longleftrightarrow>
      (\<exists>ps. list_all short_pair ps \<and> bs = concat (map pair_field ps) \<and> new = ?new ps)" for new
  proof
    assume "restore old i bs = Inr new"
    then obtain kvs where kvs: "restore_loop (new_reader bs) [] = Inr kvs" "new = old\<lparr>kv_entries := kvs, last_applied := i\<rparr>"
      by (auto simp: restore_def and_then_eq_Inr)
    from restore_loop_InrD [OF kvs(1)] kvs(2)
    show "\<exists>ps. list_all short_pair ps \<and> bs = concat (map pair_field ps) \<and> new = ?new ps"
      by (auto simp: new_reader_def btree_map.rebuild_def)
  next
    assume "\<exists>ps. list_all short_pair ps \<and> bs = concat (map pair_field ps) \<and> new = ?new ps"
    then obtain ps where ps: "\<forall>p \<in> set ps. short_pair p" "bs = concat (map pair_field ps)" "new = ?new ps"
      by (auto simp: list_all_iff)
    from restore_loop_pairs [OF ps(1), of "[]" "[]"] show "restore old i bs = Inr new"
      by (simp add: restore_def new_reader_def ps(2,3) btree_map.rebuild_def)
  qed
  have looked_up: "sm_get (old\<lparr>kv_entries := btree_map.rebuild ps, last_applied := i\<rparr>) = map_of (rev ps)" for ps
    by (simp add: sm_get_def btree_map.lookup_rebuild fun_eq_iff)
  have unique: "new = old\<lparr>kv_entries := btree_map.rebuild ps, last_applied := i\<rparr>"
    if "sm_inv new" "sm_get new = map_of (rev ps)" "last_applied new = i" for ps
  proof -
    have "kv_entries new = btree_map.rebuild ps"
      using that(1,2) by (intro bt_extensional) (simp_all add: sm_inv_def btree_map.ordered_rebuild
          btree_map.lookup_rebuild sm_get_def fun_eq_iff)
    with that(3) show ?thesis by simp
  qed
  show ?thesis
  proof
    assume r: "restore old i bs = Inr new"
    then obtain ps where "list_all short_pair ps" "bs = concat (map pair_field ps)" "new = ?new ps"
      unfolding built by blast
    with looked_up [of ps] sm_inv_restore [OF r]
    show "\<exists>ps. list_all short_pair ps \<and> bs = concat (map pair_field ps) \<and> sm_inv new \<and>
        sm_get new = map_of (rev ps) \<and> last_applied new = i"
      by (intro exI [of _ ps]) simp
  next
    assume "\<exists>ps. list_all short_pair ps \<and> bs = concat (map pair_field ps) \<and> sm_inv new \<and>
        sm_get new = map_of (rev ps) \<and> last_applied new = i"
    with unique show "restore old i bs = Inr new" unfolding built by blast
  qed
qed

end
