(* ===== verification/Kv_Replica.thy ===== *)
theory Kv_Replica
  imports Raft_Votes Kv_State_Machine
begin

text \<open>
  \<^verbatim>\<open>Replica\<close> of \<^verbatim>\<open>crates/kurogane-kv/src/lib.rs\<close>: a node with the state machine it feeds. Every
  operation of the node is followed by \<^verbatim>\<open>drain_committed\<close>; \<^verbatim>\<open>compact\<close> hands the serialized map
  to the node. \<open>replica_consistent\<close> says the map is the snapshot with the applied log executed on
  it; draining and compaction keep it, and a restart rebuilds the same map.
\<close>

section \<open>Executing commands on the map\<close>

fun exec_command :: "(bytes, bytes) btree \<Rightarrow> command \<Rightarrow> (bytes, bytes) btree" where
  "exec_command kvs (Set k v) = bt_insert k v kvs"
| "exec_command kvs (Delete k) = bt_remove k kvs"
| "exec_command kvs (Get k) = kvs"

fun result_of :: "(bytes, bytes) btree \<Rightarrow> command \<Rightarrow> apply_result" where
  "result_of kvs (Set k v) = SetResult (map_of kvs k)"
| "result_of kvs (Delete k) = DeleteResult (map_of kvs k)"
| "result_of kvs (Get k) = GetResult (map_of kvs k)"

lemma apply_command_eq_Some:
  "apply_command sm c = Some (sm', res) \<longleftrightarrow> fits64 (last_applied sm + 1) \<and>
     sm' = sm\<lparr>last_applied := last_applied sm + 1, kv_entries := exec_command (kv_entries sm) c\<rparr> \<and>
     res = result_of (kv_entries sm) c"
  by (cases c) (auto simp: apply_command_def run_simps)

text \<open>The last write of a key decides its value, so replaying a suffix of the history on the
  final map leaves the map as it is.\<close>

fun last_write :: "command list \<Rightarrow> bytes \<Rightarrow> bytes option option" where
  "last_write [] k = None"
| "last_write (c # cs) k =
     (case last_write cs k of
        Some w \<Rightarrow> Some w
      | None \<Rightarrow> (case c of
          Set k' v \<Rightarrow> if k = k' then Some (Some v) else None
        | Delete k' \<Rightarrow> if k = k' then Some None else None
        | Get _ \<Rightarrow> None))"

lemma ordered_exec_command [simp]: "bt_ordered kvs \<Longrightarrow> bt_ordered (exec_command kvs c)"
  by (cases c) auto

lemma ordered_exec [simp]: "bt_ordered kvs \<Longrightarrow> bt_ordered (foldl exec_command kvs cs)"
  by (induction cs arbitrary: kvs) auto

lemma lookup_exec:
  "bt_ordered kvs \<Longrightarrow> map_of (foldl exec_command kvs cs) k =
     (case last_write cs k of Some w \<Rightarrow> w | None \<Rightarrow> map_of kvs k)"
proof (induction cs arbitrary: kvs)
  case (Cons c cs)
  then show ?case by (cases c) (auto split: option.split)
qed simp

lemma exec_idempotent:
  assumes "bt_ordered kvs"
  shows "foldl exec_command (foldl exec_command kvs cs) cs = foldl exec_command kvs cs"
  using assms
  by (intro btree_map.extensional) (auto simp: fun_eq_iff lookup_exec split: option.split)

section \<open>The replica\<close>

record replica =
  rp_node :: node
  rp_state_machine :: state_machine
  rp_results :: "u64 \<rightharpoonup> apply_result"

definition expect :: "'e + 'a \<Rightarrow> 'a option" where
  "expect r = (case r of Inl _ \<Rightarrow> None | Inr x \<Rightarrow> Some x)"

lemma expect_eq_Some [run_simps]: "expect r = Some x \<longleftrightarrow> r = Inr x"
  by (simp add: expect_def split: sum.split)

definition recover_replica :: "node \<Rightarrow> replica option" where
  "recover_replica n = do {
     sm \<leftarrow> (if 0 < boundary n then expect (restore new_state_machine (boundary n) (snapshot_data n))
            else Some new_state_machine);
     Some \<lparr>rp_node = n, rp_state_machine = sm, rp_results = Map.empty\<rparr>
   }"

definition new_replica :: "node \<Rightarrow> replica option" where
  "new_replica n = recover_replica n"

definition applied_result :: "replica \<Rightarrow> u64 \<Rightarrow> apply_result option" where
  "applied_result r index = rp_results r index"

definition drain_entry ::
    "node \<Rightarrow> state_machine \<times> (u64 \<rightharpoonup> apply_result) \<Rightarrow> (state_machine \<times> (u64 \<rightharpoonup> apply_result)) option" where
  "drain_entry n = (\<lambda>(sm, results). do {
     index \<leftarrow> add64 (last_applied sm) 1;
     found \<leftarrow> entry_at n index;
     entry \<leftarrow> found;
     case payload entry of
       Command bs \<Rightarrow> do {
         c \<leftarrow> expect (decode bs);
         (sm', result) \<leftarrow> apply_command sm c;
         Some (sm', results(index \<mapsto> result))
       }
     | Configuration _ \<Rightarrow> do { sm' \<leftarrow> skip sm; Some (sm', results) }
   })"

text \<open>What one round does to the map, as a specification.\<close>

definition exec_entry :: "(bytes, bytes) btree \<Rightarrow> log_entry \<Rightarrow> (bytes, bytes) btree" where
  "exec_entry kvs e = (case payload e of
     Command bs \<Rightarrow> (case decode bs of Inr c \<Rightarrow> exec_command kvs c | Inl _ \<Rightarrow> kvs)
   | Configuration _ \<Rightarrow> kvs)"

definition decodable :: "log_entry \<Rightarrow> bool" where
  "decodable e \<longleftrightarrow> (case payload e of Command bs \<Rightarrow> (\<exists>c. decode bs = Inr c) | Configuration _ \<Rightarrow> True)"

lemma drain_entry_eq:
  assumes "drain_entry n (sm, rs) = Some (sm', rs')"
  obtains e where "log_entry_at n (last_applied sm + 1) = Some e" "decodable e"
    "sm' = sm\<lparr>last_applied := last_applied sm + 1, kv_entries := exec_entry (kv_entries sm) e\<rparr>"
    "rs' = (case payload e of
       Command bs \<Rightarrow> rs(last_applied sm + 1 \<mapsto> result_of (kv_entries sm) (projr (decode bs)))
     | Configuration _ \<Rightarrow> rs)"
proof -
  from assms obtain e where e: "log_entry_at n (last_applied sm + 1) = Some e"
    by (auto simp: drain_entry_def run_simps)
  show thesis
  proof (cases "payload e")
    case (Command bs)
    with assms e show thesis
      by (intro that [OF e])
         (auto simp: drain_entry_def run_simps apply_command_eq_Some exec_entry_def decodable_def)
  next
    case (Configuration c)
    with assms e show thesis
      by (intro that [OF e])
         (auto simp: drain_entry_def run_simps skip_def exec_entry_def decodable_def)
  qed
qed

lemma drain_entry_advances:
  "drain_entry n (sm, rs) = Some (sm', rs') \<Longrightarrow> last_applied sm' = last_applied sm + 1"
  by (erule drain_entry_eq) simp

function drain_loop ::
    "node \<Rightarrow> state_machine \<times> (u64 \<rightharpoonup> apply_result) \<Rightarrow> (state_machine \<times> (u64 \<rightharpoonup> apply_result)) option" where
  "drain_loop n s =
     (if last_applied (fst s) < commit_index n then do {
        s' \<leftarrow> drain_entry n s;
        drain_loop n s'
      } else Some s)"
  by pat_completeness auto
termination
  by (relation "measure (\<lambda>(n, s). commit_index n - last_applied (fst s))")
     (auto dest!: drain_entry_advances)

declare drain_loop.simps [simp del]

text \<open>The first part of \<^verbatim>\<open>drain_committed\<close>: a boundary ahead of the cursor came with an installed
  snapshot.\<close>

definition catch_up :: "replica \<Rightarrow> (state_machine \<times> (u64 \<rightharpoonup> apply_result)) option" where
  "catch_up r =
     (let n = rp_node r; sm = rp_state_machine r; results = rp_results r in
      if last_applied sm < boundary n then do {
        sm' \<leftarrow> expect (restore sm (boundary n) (snapshot_data n));
        Some (sm', \<lambda>index. if boundary n < index then results index else None)
      } else Some (sm, results))"

definition drain_committed :: "replica \<Rightarrow> replica option" where
  "drain_committed r = do {
     s \<leftarrow> catch_up r;
     (sm, results) \<leftarrow> drain_loop (rp_node r) s;
     Some (r\<lparr>rp_state_machine := sm, rp_results := results\<rparr>)
   }"

definition replica_propose ::
    "replica \<Rightarrow> command \<Rightarrow> (replica \<times> (u64 \<times> effect list) option) option" where
  "replica_propose r c = do {
     (n, res) \<leftarrow> propose (rp_node r) (encode c);
     case res of
       None \<Rightarrow> Some (r\<lparr>rp_node := n\<rparr>, None)
     | Some (index, effects) \<Rightarrow> do {
         r' \<leftarrow> drain_committed (r\<lparr>rp_node := n\<rparr>);
         Some (r', Some (index, effects))
       }
   }"

definition replica_step :: "replica \<Rightarrow> event \<Rightarrow> (replica \<times> effect list) option" where
  "replica_step r ev = do {
     (n, effects) \<leftarrow> step (rp_node r) ev;
     r' \<leftarrow> drain_committed (r\<lparr>rp_node := n\<rparr>);
     Some (r', effects)
   }"

definition replica_propose_config_change ::
    "replica \<Rightarrow> node_id list \<Rightarrow> (replica \<times> (u64 \<times> effect list) option) option" where
  "replica_propose_config_change r vs = do {
     (n, res) \<leftarrow> propose_config_change (rp_node r) vs;
     case res of
       None \<Rightarrow> Some (r\<lparr>rp_node := n\<rparr>, None)
     | Some (index, effects) \<Rightarrow> do {
         r' \<leftarrow> drain_committed (r\<lparr>rp_node := n\<rparr>);
         Some (r', Some (index, effects))
       }
   }"

definition replica_add_learner :: "replica \<Rightarrow> node_id \<Rightarrow> (replica \<times> effect list) option" where
  "replica_add_learner r i = do {
     (n, effects) \<leftarrow> add_learner (rp_node r) i;
     r' \<leftarrow> drain_committed (r\<lparr>rp_node := n\<rparr>);
     Some (r', effects)
   }"

definition replica_remove_learner :: "replica \<Rightarrow> node_id \<Rightarrow> (replica \<times> effect list) option" where
  "replica_remove_learner r i = do {
     let (n, effects) = remove_learner (rp_node r) i;
     r' \<leftarrow> drain_committed (r\<lparr>rp_node := n\<rparr>);
     Some (r', effects)
   }"

definition replica_compact :: "replica \<Rightarrow> u64 \<Rightarrow> (replica \<times> effect list option) option" where
  "replica_compact r retain =
     (let up_to_index = last_applied (rp_state_machine r) - retain in
      if up_to_index = 0 \<or> up_to_index \<le> boundary (rp_node r) then Some (r, None)
      else do {
        let data = sm_snapshot (rp_state_machine r);
        (n, res) \<leftarrow> compact (rp_node r) up_to_index data;
        effects \<leftarrow> expect res;
        Some (r\<lparr>rp_node := n\<rparr>, Some effects)
      })"

section \<open>What draining computes\<close>

text \<open>The entries with an index above \<open>a\<close> and at most \<open>b\<close>.\<close>

definition log_between :: "node \<Rightarrow> u64 \<Rightarrow> u64 \<Rightarrow> log_entry list" where
  "log_between n a b = take (b - a) (drop (a - boundary n) (log n))"

lemma log_between_Cons:
  assumes "boundary n \<le> a" and "a < b" and "log_entry_at n (a + 1) = Some e"
  shows "log_between n a b = e # log_between n (a + 1) b"
proof -
  from assms(1,3) have k: "a - boundary n < length (log n)" "e = log n ! (a - boundary n)"
    by (auto simp: log_entry_at_def split: if_splits)
  then have "drop (a - boundary n) (log n) = e # drop (a + 1 - boundary n) (log n)"
    using assms(1) by (simp add: Cons_nth_drop_Suc Suc_diff_le)
  with assms(2) show ?thesis by (simp add: log_between_def take_Cons' Suc_diff_Suc)
qed

lemma log_between_empty [simp]: "b \<le> a \<Longrightarrow> log_between n a b = []"
  by (simp add: log_between_def)

lemma drain_loop_state:
  assumes "drain_loop n (sm, rs) = Some (sm', rs')" and "boundary n \<le> last_applied sm"
  shows "last_applied sm' = max (last_applied sm) (commit_index n)" (is ?A)
    and "kv_entries sm' = foldl exec_entry (kv_entries sm)
      (log_between n (last_applied sm) (commit_index n))" (is ?B)
    and "length (log_between n (last_applied sm) (commit_index n)) = commit_index n - last_applied sm" (is ?C)
    and "list_all decodable (log_between n (last_applied sm) (commit_index n))" (is ?D)
proof -
  have "?A \<and> ?B \<and> ?C \<and> ?D"
    using assms
  proof (induction n "(sm, rs)" arbitrary: sm rs rule: drain_loop.induct)
    case (1 n sm rs)
    show ?case
    proof (cases "last_applied sm < commit_index n")
      case False
      with 1(2) show ?thesis by (simp add: drain_loop.simps)
    next
      case True
      with 1(2) obtain sm1 rs1 where e: "drain_entry n (sm, rs) = Some (sm1, rs1)"
        and l: "drain_loop n (sm1, rs1) = Some (sm', rs')"
        by (subst (asm) drain_loop.simps) (auto simp: bind_eq_Some_conv)
      from e obtain x where x: "log_entry_at n (last_applied sm + 1) = Some x" "decodable x"
        and sm1: "sm1 = sm\<lparr>last_applied := last_applied sm + 1, kv_entries := exec_entry (kv_entries sm) x\<rparr>"
        by (rule drain_entry_eq) auto
      from 1(1) [OF _ e l] True 1(3) log_between_Cons [OF 1(3) True x(1)] x(2) show ?thesis
        by (auto simp: sm1)
    qed
  qed
  then show ?A ?B ?C ?D by auto
qed

lemma apply_command_total: "fits64 (last_applied sm + 1) \<Longrightarrow> apply_command sm c =
    Some (sm\<lparr>last_applied := last_applied sm + 1, kv_entries := exec_command (kv_entries sm) c\<rparr>,
      result_of (kv_entries sm) c)"
  by (simp add: apply_command_eq_Some)

lemma drain_loop_results:
  assumes "drain_loop n (sm, rs) = Some (sm', rs')" and "boundary n \<le> last_applied sm"
  shows "rs' i = (if last_applied sm < i \<and> i \<le> commit_index n then
      (case payload (the (log_entry_at n i)) of
         Command bs \<Rightarrow> Some (result_of
           (foldl exec_entry (kv_entries sm) (log_between n (last_applied sm) (i - 1)))
           (projr (decode bs)))
       | Configuration _ \<Rightarrow> rs i)
    else rs i)"
  using assms
proof (induction n "(sm, rs)" arbitrary: sm rs rule: drain_loop.induct)
  case (1 n sm rs)
  show ?case
  proof (cases "last_applied sm < commit_index n")
    case False
    with 1(2) show ?thesis by (auto simp: drain_loop.simps)
  next
    case True
    with 1(2) obtain sm1 rs1 where e: "drain_entry n (sm, rs) = Some (sm1, rs1)"
      and l: "drain_loop n (sm1, rs1) = Some (sm', rs')"
      by (subst (asm) drain_loop.simps) (auto simp: bind_eq_Some_conv)
    from e obtain x where x: "log_entry_at n (last_applied sm + 1) = Some x"
      and sm1: "sm1 = sm\<lparr>last_applied := last_applied sm + 1, kv_entries := exec_entry (kv_entries sm) x\<rparr>"
      and rs1: "rs1 = (case payload x of
         Command bs \<Rightarrow> rs(last_applied sm + 1 \<mapsto> result_of (kv_entries sm) (projr (decode bs)))
       | Configuration _ \<Rightarrow> rs)"
      by (rule drain_entry_eq) auto
    note IH = 1(1) [OF _ e l]
    consider "i \<le> last_applied sm" | "i = last_applied sm + 1" | "last_applied sm + 1 < i"
      by linarith
    then show ?thesis
    proof cases
      case 3
      then have "log_between n (last_applied sm) (i - 1) = x # log_between n (last_applied sm + 1) (i - 1)"
        using 1(3) x by (intro log_between_Cons) auto
      with 3 IH 1(3) True show ?thesis by (auto simp: sm1 rs1 split: log_payload.split)
    qed (use IH 1(3) True x in \<open>auto simp: sm1 rs1 split: log_payload.split\<close>)
  qed
qed

lemma drain_entry_total:
  assumes "log_entry_at n (last_applied sm + 1) = Some e" and "decodable e"
    and "fits64 (last_applied sm + 1)"
  shows "\<exists>s'. drain_entry n (sm, rs) = Some s'"
  using assms
  by (cases "payload e")
     (auto simp: drain_entry_def decodable_def add64_fits expect_def skip_def apply_command_total)

lemma drain_loop_total:
  assumes "boundary n \<le> last_applied sm" and "commit_index n \<le> boundary n + length (log n)"
    and "list_all decodable (log_between n (last_applied sm) (commit_index n))"
    and "fits64 (commit_index n)"
  shows "\<exists>s'. drain_loop n (sm, rs) = Some s'"
  using assms
proof (induction n "(sm, rs)" arbitrary: sm rs rule: drain_loop.induct)
  case (1 n sm rs)
  show ?case
  proof (cases "last_applied sm < commit_index n")
    case False
    then show ?thesis by (simp add: drain_loop.simps)
  next
    case True
    then obtain x where x: "log_entry_at n (last_applied sm + 1) = Some x"
      using 1(2,3) by (auto simp: log_entry_at_def)
    note b = log_between_Cons [OF 1(2) True x]
    have "decodable x" "fits64 (last_applied sm + 1)"
      using 1(4,5) b True by (auto elim: fits64_mono)
    from drain_entry_total [OF x this, of rs]
    obtain sm1 rs1 where e: "drain_entry n (sm, rs) = Some (sm1, rs1)" by auto
    from e have la: "last_applied sm1 = last_applied sm + 1" by (rule drain_entry_advances)
    have "\<exists>s'. drain_loop n (sm1, rs1) = Some s'"
      using 1(2-5) la b True by (intro 1(1) [OF _ e]) auto
    with True e show ?thesis by (simp add: drain_loop.simps [of n "(sm, rs)"])
  qed
qed

section \<open>Consistency of a replica\<close>

text \<open>The map is what the snapshot holds with the applied part of the log executed on it.\<close>

definition snapshot_map :: "node \<Rightarrow> (bytes, bytes) btree option" where
  "snapshot_map n =
     (if boundary n = 0 then Some []
      else expect (restore_loop (new_reader (snapshot_data n)) []))"

definition replica_consistent :: "replica \<Rightarrow> bool" where
  "replica_consistent r \<longleftrightarrow>
     (let n = rp_node r; sm = rp_state_machine r; applied = log_between n (boundary n) (last_applied sm)
      in node_inv n \<and> sm_inv sm \<and> boundary n \<le> last_applied sm \<and> last_applied sm \<le> commit_index n \<and>
         last_applied sm \<le> boundary n + length (log n) \<and> list_all decodable applied \<and>
         map_option (\<lambda>base. foldl exec_entry base applied) (snapshot_map n) = Some (kv_entries sm))"

lemma snapshot_map_inv:
  "snapshot_map n = Some base \<Longrightarrow> bt_ordered base \<and> (\<forall>kv \<in> set base. short_pair kv)"
  by (auto simp: snapshot_map_def run_simps split: if_splits dest: restore_loop_inv)

lemma sm_inv_exec_entry:
  assumes "sm_inv sm"
  shows "sm_inv (sm\<lparr>last_applied := i, kv_entries := exec_entry (kv_entries sm) e\<rparr>)"
proof -
  have "sm_inv (sm\<lparr>last_applied := i, kv_entries := exec_command (kv_entries sm) c\<rparr>)"
    if "short_command c" for c
  proof (cases c)
    case (Set k v)
    with that assms set_bt_insert [of k v "kv_entries sm"] show ?thesis
      by (auto simp: sm_inv_def short_pair_def)
  qed (use assms in \<open>auto simp: sm_inv_def bt_remove_def\<close>)
  moreover have "sm_inv (sm\<lparr>last_applied := i, kv_entries := kv_entries sm\<rparr>)"
    using assms by (simp add: sm_inv_def)
  ultimately show ?thesis
    by (auto simp: exec_entry_def dest: decode_InrD(1) split: log_payload.split sum.split)
qed

lemma sm_inv_drain_loop:
  assumes "drain_loop n (sm, rs) = Some (sm', rs')" and "sm_inv sm"
  shows "sm_inv sm'"
  using assms
proof (induction n "(sm, rs)" arbitrary: sm rs rule: drain_loop.induct)
  case (1 n sm rs)
  show ?case
  proof (cases "last_applied sm < commit_index n")
    case False
    with 1 show ?thesis by (simp add: drain_loop.simps)
  next
    case True
    with 1(2) obtain sm1 rs1 where e: "drain_entry n (sm, rs) = Some (sm1, rs1)"
      and l: "drain_loop n (sm1, rs1) = Some (sm', rs')"
      by (subst (asm) drain_loop.simps) (auto simp: bind_eq_Some_conv)
    from e have "sm_inv sm1" by (rule drain_entry_eq) (simp add: sm_inv_exec_entry 1(3))
    with 1(1) [OF _ e l] True show ?thesis by simp
  qed
qed

lemma log_between_append:
  assumes "boundary n \<le> a" and "a \<le> b" and "b \<le> c"
  shows "log_between n a c = log_between n a b @ log_between n b c"
proof -
  have "b - a + (a - boundary n) = b - boundary n" and "c - a = (b - a) + (c - b)"
    using assms by auto
  then show ?thesis by (simp add: log_between_def take_add)
qed

definition commands :: "log_entry list \<Rightarrow> command list" where
  "commands es = List.map_filter (\<lambda>e. case payload e of
     Command bs \<Rightarrow> (case decode bs of Inr c \<Rightarrow> Some c | Inl _ \<Rightarrow> None)
   | Configuration _ \<Rightarrow> None) es"

lemma exec_entries: "foldl exec_entry kvs es = foldl exec_command kvs (commands es)"
  by (induction es arbitrary: kvs)
     (auto simp: commands_def exec_entry_def List.map_filter_def split: log_payload.split sum.split)

lemma drain_committed_consistent:
  assumes "replica_consistent r" and "node_inv n'"
    and "boundary n' \<le> last_applied (rp_state_machine r) \<Longrightarrow>
      snapshot_map n' = snapshot_map (rp_node r) \<and> boundary n' = boundary (rp_node r) \<and>
      log_between n' (boundary n') (last_applied (rp_state_machine r)) =
        log_between (rp_node r) (boundary n') (last_applied (rp_state_machine r)) \<and>
      last_applied (rp_state_machine r) \<le> commit_index n'"
    and "drain_committed (r\<lparr>rp_node := n'\<rparr>) = Some r'"
  shows "replica_consistent r'" and "rp_node r' = n'"
    and "last_applied (rp_state_machine r') = commit_index n'"
proof -
  let ?la = "last_applied (rp_state_machine r)"
  from assms(4) obtain sm rs sm' rs' where
    s: "catch_up (r\<lparr>rp_node := n'\<rparr>) = Some (sm, rs)"
    and l: "drain_loop n' (sm, rs) = Some (sm', rs')"
    and r': "r' = r\<lparr>rp_node := n', rp_state_machine := sm', rp_results := rs'\<rparr>"
    by (auto simp: drain_committed_def bind_eq_Some_conv)
  show "rp_node r' = n'" by (simp add: r')
  have base: "sm_inv sm \<and> boundary n' \<le> last_applied sm \<and> last_applied sm \<le> commit_index n' \<and>
      list_all decodable (log_between n' (boundary n') (last_applied sm)) \<and>
      length (log_between n' (boundary n') (last_applied sm)) = last_applied sm - boundary n' \<and>
      map_option (\<lambda>base. foldl exec_entry base (log_between n' (boundary n') (last_applied sm)))
        (snapshot_map n') = Some (kv_entries sm)"
  proof (cases "?la < boundary n'")
    case True
    with s have "restore (rp_state_machine r) (boundary n') (snapshot_data n') = Inr sm"
      by (auto simp: catch_up_def run_simps)
    then show ?thesis
      using True assms(2) sm_inv_restore [of "rp_state_machine r" "boundary n'" _ sm]
      by (auto simp: restore_def and_then_eq_Inr snapshot_map_def expect_def node_inv_def)
  next
    case False
    with s have "sm = rp_state_machine r" by (simp add: catch_up_def)
    with False assms(1,3) show ?thesis
      by (auto simp: replica_consistent_def Let_def) (auto simp: log_between_def)
  qed
  have b: "boundary n' \<le> last_applied sm" "last_applied sm \<le> commit_index n'" using base by auto
  note d = drain_loop_state [OF l b(1)]
  show la: "last_applied (rp_state_machine r') = commit_index n'"
    using d(1) b by (simp add: r')
  have split: "log_between n' (boundary n') (commit_index n') =
      log_between n' (boundary n') (last_applied sm) @ log_between n' (last_applied sm) (commit_index n')"
    using b by (intro log_between_append) auto
  have "commit_index n' \<le> boundary n' + length (log n')"
  proof -
    have "commit_index n' - boundary n' = length (log_between n' (boundary n') (commit_index n'))"
      using base d(3) b by (simp add: split)
    also have "\<dots> \<le> length (log n')" by (simp add: log_between_def)
    finally show ?thesis by simp
  qed
  then show "replica_consistent r'"
    using base d assms(2) la sm_inv_drain_loop [OF l]
    by (auto simp: replica_consistent_def Let_def r' split)
qed

lemma log_between_compacted:
  assumes "boundary n < i" and "i \<le> a"
  shows "log_between (compacted n i data) a b = log_between n a b"
  using assms by (simp add: log_between_def compacted_def Let_def)

lemma replica_compact_consistent:
  assumes "replica_compact r retain = Some (r', Some effects)" and "replica_consistent r"
  shows "replica_consistent r'" and "rp_state_machine r' = rp_state_machine r"
    and "rp_results r' = rp_results r"
    and "boundary (rp_node r') = last_applied (rp_state_machine r) - retain"
proof -
  let ?n = "rp_node r" and ?sm = "rp_state_machine r"
  let ?la = "last_applied ?sm"
  define i where "i = ?la - retain"
  from assms(1) obtain n where c: "compact ?n i (sm_snapshot ?sm) = Some (n, Inr effects)"
    and i: "0 < i" "boundary ?n < i" and r': "r' = r\<lparr>rp_node := n\<rparr>"
    by (auto simp: replica_compact_def Let_def run_simps i_def split: if_splits)
  have inv: "node_inv ?n" "sm_inv ?sm" "boundary ?n \<le> ?la" "?la \<le> commit_index ?n"
    "?la \<le> boundary ?n + length (log ?n)"
    and dec: "list_all decodable (log_between ?n (boundary ?n) ?la)"
    using assms(2) by (auto simp: replica_consistent_def Let_def)
  obtain base where base: "snapshot_map ?n = Some base"
    and kv: "kv_entries ?sm = foldl exec_entry base (log_between ?n (boundary ?n) ?la)"
    using assms(2) by (auto simp: replica_consistent_def Let_def)
  from c i have n: "n = compacted ?n i (sm_snapshot ?sm)" and ile: "i \<le> boundary ?n + length (log ?n)"
    by (auto elim: compact_cases)
  have la: "i \<le> ?la" by (simp add: i_def)
  have bn: "boundary n = i" by (simp add: n compacted_def Let_def)
  have split: "log_between ?n (boundary ?n) ?la = log_between ?n (boundary ?n) i @ log_between ?n i ?la"
    using i la by (intro log_between_append) auto
  have lb: "log_between n i ?la = log_between ?n i ?la"
    unfolding n using i(2) by (rule log_between_compacted) simp
  have "restore ?sm 0 (sm_snapshot ?sm) = Inr (?sm\<lparr>kv_entries := kv_entries ?sm, last_applied := 0\<rparr>)"
    by (rule restore_snapshot [OF inv(2)])
  then have "restore_loop (new_reader (sm_snapshot ?sm)) [] = Inr (kv_entries ?sm)"
    by (cases "restore_loop (new_reader (sm_snapshot ?sm)) []")
       (auto simp: restore_def dest: arg_cong [of _ _ kv_entries])
  moreover have "snapshot_data n = sm_snapshot ?sm" by (simp add: n compacted_def Let_def)
  ultimately have map_n: "snapshot_map n = Some (kv_entries ?sm)"
    using i by (simp add: snapshot_map_def bn expect_def)
  have "bt_ordered base" using snapshot_map_inv [OF base] by simp
  then have "foldl exec_entry (kv_entries ?sm) (log_between ?n i ?la) = kv_entries ?sm"
    unfolding kv split by (simp add: exec_entries exec_idempotent)
  moreover have "node_inv n" by (rule node_inv_compact [OF c inv(1)])
  moreover have "commit_index n = commit_index ?n" "i + length (log n) = boundary ?n + length (log ?n)"
    using i(2) ile by (simp_all add: n compacted_def Let_def)
  ultimately show "replica_consistent r'"
    using inv la dec lb map_n by (simp add: replica_consistent_def Let_def r' bn split)
  show "rp_state_machine r' = ?sm" "rp_results r' = rp_results r" by (simp_all add: r')
  show "boundary (rp_node r') = ?la - retain" using bn by (simp add: r' i_def)
qed

section \<open>Restart of a replica\<close>

lemma recover_replica_consistent:
  assumes "recover_replica m = Some r" and "node_inv m"
  shows "replica_consistent r" and "rp_node r = m" and "last_applied (rp_state_machine r) = boundary m"
    and "snapshot_map m = Some (kv_entries (rp_state_machine r))"
proof -
  from assms(1) obtain sm where
    sm: "(if 0 < boundary m then expect (restore new_state_machine (boundary m) (snapshot_data m))
            else Some new_state_machine) = Some sm"
    and r: "r = \<lparr>rp_node = m, rp_state_machine = sm, rp_results = Map.empty\<rparr>"
    by (auto simp: recover_replica_def bind_eq_Some_conv)
  have "sm_inv sm"
    using sm by (auto simp: run_simps sm_inv_new intro: sm_inv_restore split: if_splits)
  moreover have "last_applied sm = boundary m"
    using sm by (auto simp: run_simps restore_def and_then_eq_Inr new_state_machine_def split: if_splits)
  moreover have "snapshot_map m = Some (kv_entries sm)"
    using sm by (auto simp: run_simps restore_def and_then_eq_Inr new_state_machine_def
        snapshot_map_def split: if_splits)
  ultimately show "replica_consistent r" "rp_node r = m"
    "last_applied (rp_state_machine r) = boundary m"
    "snapshot_map m = Some (kv_entries (rp_state_machine r))"
    using assms(2) by (simp_all add: r replica_consistent_def node_inv_def)
qed

text \<open>A restarted replica that has heard of the same commit index again holds the same map.\<close>

lemma recover_replica_same_map:
  assumes "replica_consistent r" and "node_inv m"
    and "snapshot m = snapshot (rp_node r)" "snapshot_data m = snapshot_data (rp_node r)"
    and "log m = log (rp_node r)"
    and "commit_index m = boundary m"
    and "m' = m\<lparr>commit_index := last_applied (rp_state_machine r)\<rparr>"
  shows "\<exists>r0 r1. recover_replica m = Some r0 \<and> drain_committed (r0\<lparr>rp_node := m'\<rparr>) = Some r1 \<and>
    kv_entries (rp_state_machine r1) = kv_entries (rp_state_machine r) \<and>
    last_applied (rp_state_machine r1) = last_applied (rp_state_machine r)"
proof -
  let ?n = "rp_node r" and ?la = "last_applied (rp_state_machine r)"
  have same: "boundary m = boundary ?n" "\<And>a b. log_between m' a b = log_between ?n a b"
    "snapshot_map m = snapshot_map ?n" "snapshot_map m' = snapshot_map ?n"
    by (simp_all add: assms log_between_def snapshot_map_def)
  have inv: "boundary ?n \<le> ?la" "?la \<le> boundary ?n + length (log ?n)"
    and dec: "list_all decodable (log_between ?n (boundary ?n) ?la)"
    using assms(1) by (auto simp: replica_consistent_def Let_def)
  obtain base where base: "snapshot_map ?n = Some base"
    and kv: "kv_entries (rp_state_machine r) = foldl exec_entry base (log_between ?n (boundary ?n) ?la)"
    using assms(1) by (auto simp: replica_consistent_def Let_def)
  have "\<exists>r0. recover_replica m = Some r0"
    using base same(3) by (auto simp: recover_replica_def snapshot_map_def restore_def expect_def
        split: if_splits sum.splits)
  then obtain r0 where r0: "recover_replica m = Some r0" ..
  note rec = recover_replica_consistent [OF r0 assms(2)]
  have m': "boundary m' = boundary ?n" "commit_index m' = ?la" "log m' = log ?n" "node_inv m'"
    using assms(2,5,6,7) same(1) inv by (auto intro: node_inv_commit)
  have "\<exists>s. drain_loop m' (rp_state_machine r0, rp_results r0) = Some s"
    using rec(3) same m' inv dec assms(2)
    by (intro drain_loop_total) (auto simp: node_inv_def elim: fits64_mono)
  then obtain r1 where r1: "drain_committed (r0\<lparr>rp_node := m'\<rparr>) = Some r1"
    using rec(3) m'(1) same(1) by (auto simp: drain_committed_def catch_up_def Let_def)
  have cond: "snapshot_map m' = snapshot_map (rp_node r0) \<and> boundary m' = boundary (rp_node r0) \<and>
      log_between m' (boundary m') (last_applied (rp_state_machine r0)) =
        log_between (rp_node r0) (boundary m') (last_applied (rp_state_machine r0)) \<and>
      last_applied (rp_state_machine r0) \<le> commit_index m'"
    using rec same m' inv by simp
  note d = drain_committed_consistent [OF rec(1) m'(4) cond r1]
  from d(1) have "map_option (\<lambda>b. foldl exec_entry b (log_between m' (boundary m') ?la))
      (snapshot_map m') = Some (kv_entries (rp_state_machine r1))"
    using d(2,3) m'(2) by (simp add: replica_consistent_def Let_def)
  with base same m'(1) kv have "kv_entries (rp_state_machine r1) = kv_entries (rp_state_machine r)"
    by simp
  with r0 r1 d(3) m'(2) show ?thesis by auto
qed

section \<open>Replica operations are node operations\<close>

lemma drain_committed_node: "drain_committed r = Some r' \<Longrightarrow> rp_node r' = rp_node r"
  by (auto simp: drain_committed_def bind_eq_Some_conv)

lemma replica_step_run_op:
  "replica_step r ev = Some (r', es) \<Longrightarrow> run_op (rp_node r) (Op_Event ev) = Some (rp_node r', es)"
  by (auto simp: replica_step_def bind_eq_Some_conv dest: drain_committed_node)

lemma replica_propose_run_op:
  "replica_propose r c = Some (r', res) \<Longrightarrow>
     run_op (rp_node r) (Op_Propose (encode c)) = Some (rp_node r', effects_of res)"
  by (cases "propose (rp_node r) (encode c)")
     (auto simp: replica_propose_def bind_eq_Some_conv effects_of_def split: option.splits
       dest!: drain_committed_node)

lemma replica_propose_config_change_run_op:
  "replica_propose_config_change r vs = Some (r', res) \<Longrightarrow>
     run_op (rp_node r) (Op_Config_Change vs) = Some (rp_node r', effects_of res)"
  by (cases "propose_config_change (rp_node r) vs")
     (auto simp: replica_propose_config_change_def bind_eq_Some_conv effects_of_def
       split: option.splits dest!: drain_committed_node)

lemma replica_add_learner_run_op:
  "replica_add_learner r i = Some (r', es) \<Longrightarrow>
     run_op (rp_node r) (Op_Add_Learner i) = Some (rp_node r', es)"
  by (auto simp: replica_add_learner_def bind_eq_Some_conv dest!: drain_committed_node)

lemma replica_remove_learner_run_op:
  "replica_remove_learner r i = Some (r', es) \<Longrightarrow>
     run_op (rp_node r) (Op_Remove_Learner i) = Some (rp_node r', es)"
  by (auto simp: replica_remove_learner_def bind_eq_Some_conv Let_def split: prod.splits
      dest!: drain_committed_node)

end
