(* ===== verification/Kv_Properties.thy ===== *)
theory Kv_Properties
  imports Kv_Replica Raft_Samples
begin

text \<open>
  The properties of the key-value layer: the command codec, the state machine and its snapshots,
  and a replica that applies the committed log, compacts it and restarts.
\<close>

section \<open>A small replica\<close>

text \<open>A follower that has applied nothing and knows two committed commands.\<close>

definition set_x :: command where
  "set_x = Set [1] [2]"

definition get_x :: command where
  "get_x = Get [1]"

definition fresh_node :: node where
  "fresh_node = recovered (NodeId 2) trio 5 1 \<lparr>hs_current_term = 1, hs_voted_for = None\<rparr>
     [\<lparr>entry_term = 1, payload = Command (encode set_x)\<rparr>,
      \<lparr>entry_term = 1, payload = Command (encode get_x)\<rparr>] default_snapshot []"

definition fresh_replica :: replica where
  "fresh_replica = \<lparr>rp_node = fresh_node, rp_state_machine = new_state_machine, rp_results = Map.empty\<rparr>"

definition informed_replica :: replica where
  "informed_replica = fresh_replica\<lparr>rp_node := fresh_node\<lparr>commit_index := 2\<rparr>\<rparr>"

lemma short_x: "short_command set_x" "short_command get_x"
  by (simp_all add: set_x_def get_x_def short_def)

lemma fresh_node_inv: "node_inv fresh_node"
  unfolding fresh_node_def
  by (rule node_inv_recovered) (simp add: default_snapshot_def default_metadata_def fits64_def)

lemma fresh_recovered: "recover_replica fresh_node = Some fresh_replica"
  by (simp add: recover_replica_def fresh_replica_def fresh_node_def recovered_def Let_def
      default_snapshot_def default_metadata_def)

lemma fresh_consistent: "replica_consistent fresh_replica"
  by (rule recover_replica_consistent(1) [OF fresh_recovered fresh_node_inv])

lemma informed_log: "log_between (rp_node informed_replica) 0 2 =
    [\<lparr>entry_term = 1, payload = Command (encode set_x)\<rparr>, \<lparr>entry_term = 1, payload = Command (encode get_x)\<rparr>]"
  "boundary (rp_node informed_replica) = 0" "commit_index (rp_node informed_replica) = 2"
  "length (log (rp_node informed_replica)) = 2" "last_applied (rp_state_machine informed_replica) = 0"
  "kv_entries (rp_state_machine informed_replica) = []"
  by (simp_all add: informed_replica_def fresh_replica_def fresh_node_def recovered_def Let_def
      log_between_def default_snapshot_def default_metadata_def new_state_machine_def)

lemma informed_decodable: "list_all decodable (log_between (rp_node informed_replica) 0 2)"
  using decode_encode [OF short_x(1), of "[]"] decode_encode [OF short_x(2), of "[]"]
  by (simp add: informed_log decodable_def)

lemma informed_commands: "commands (log_between (rp_node informed_replica) 0 2) = [set_x, get_x]"
  using decode_encode [OF short_x(1), of "[]"] decode_encode [OF short_x(2), of "[]"]
  by (simp add: informed_log commands_def List.map_filter_def)

text \<open>Draining as a whole, for a replica whose cursor is at or above its boundary.\<close>

lemma drain_committed_loop:
  assumes "boundary (rp_node r) \<le> last_applied (rp_state_machine r)"
  shows "drain_committed r = map_option (\<lambda>(sm, results). r\<lparr>rp_state_machine := sm, rp_results := results\<rparr>)
    (drain_loop (rp_node r) (rp_state_machine r, rp_results r))"
  using assms
  by (cases "drain_loop (rp_node r) (rp_state_machine r, rp_results r)")
     (auto simp: drain_committed_def catch_up_def Let_def)

lemma drain_committed_total:
  assumes "boundary (rp_node r) \<le> last_applied (rp_state_machine r)"
    and "commit_index (rp_node r) \<le> boundary (rp_node r) + length (log (rp_node r))"
    and "list_all decodable
      (log_between (rp_node r) (last_applied (rp_state_machine r)) (commit_index (rp_node r)))"
    and "fits64 (commit_index (rp_node r))"
  shows "\<exists>r'. drain_committed r = Some r'"
  using drain_loop_total [OF assms] by (auto simp: drain_committed_loop [OF assms(1)])

lemma informed_drains: "\<exists>r. drain_committed informed_replica = Some r"
  using informed_decodable by (intro drain_committed_total) (simp_all add: informed_log)

lemma informed_consistent: "replica_consistent informed_replica"
  using fresh_consistent informed_log(2) node_inv_commit [OF fresh_node_inv, of 2]
  by (auto simp: replica_consistent_def informed_replica_def fresh_replica_def Let_def
      new_state_machine_def log_between_def snapshot_map_def fresh_node_def recovered_def)

lemma informed_drained: "\<exists>r. drain_committed informed_replica = Some r \<and> replica_consistent r \<and>
    rp_node r = rp_node informed_replica \<and> last_applied (rp_state_machine r) = 2"
proof -
  obtain r where r: "drain_committed informed_replica = Some r" using informed_drains by blast
  then have r': "drain_committed (informed_replica\<lparr>rp_node := rp_node informed_replica\<rparr>) = Some r" by simp
  have "node_inv (rp_node informed_replica)" using informed_consistent by (simp add: replica_consistent_def Let_def)
  from drain_committed_consistent [OF informed_consistent this _ r'] r
  show ?thesis by (auto simp: informed_log(2-6))
qed

text \<open>It can then compact, keeping one entry.\<close>

lemma informed_compacts:
  "\<exists>r r' es. drain_committed informed_replica = Some r \<and> replica_consistent r \<and>
     last_applied (rp_state_machine r) = 2 \<and> boundary (rp_node r) = 0 \<and>
     replica_compact r 1 = Some (r', Some es) \<and>
     (\<exists>t data c lg. es = [PersistSnapshot 1 t data c, PersistLog 2 lg])"
proof -
  obtain r where r: "drain_committed informed_replica = Some r" "replica_consistent r"
    "rp_node r = rp_node informed_replica" "last_applied (rp_state_machine r) = 2"
    using informed_drained by blast
  let ?c = "compact (rp_node informed_replica) 1 (sm_snapshot (rp_state_machine r))"
  have ok: "case ?c of Some (_, res) \<Rightarrow> \<not> isl res | None \<Rightarrow> False" by code_simp
  then obtain n res where "?c = Some (n, res)" "\<not> isl res"
    by (auto split: option.splits)
  then obtain es where c: "compact (rp_node r) 1 (sm_snapshot (rp_state_machine r)) = Some (n, Inr es)"
    by (cases res) (auto simp: r(3))
  then have "replica_compact r 1 = Some (r\<lparr>rp_node := n\<rparr>, Some es)"
    using r(3,4) by (simp add: replica_compact_def informed_log(2-6) expect_def)
  moreover from c have "\<exists>t data c lg. es = [PersistSnapshot 1 t data c, PersistLog 2 lg]"
    by (cases rule: compact_cases) (simp_all add: r(3) informed_log(2-6))
  ultimately show ?thesis using r informed_log(2) by auto
qed

section \<open>The command codec\<close>

text \<open>C34. The decoder accepts exactly the byte strings that begin with the encoding of a command whose
  fields have lengths below \<open>2^32\<close>, and it returns that command: encoding and decoding are inverse,
  trailing bytes are ignored, and no two commands share an encoding.\<close>

theorem decode_accepts_exactly_encodings:
  "decode bs = Inr c \<longleftrightarrow> short_command c \<and> (\<exists>post. bs = encode c @ post)"
  using decode_InrD [of bs c] decode_encode [of c] by auto

section \<open>The state machine\<close>

text \<open>C35. The state machine refines a finite map from keys to values. Every command whose cursor still fits
  succeeds, moves the cursor by one, updates the map as the command says, at its key only, and answers
  with the value the key had; a well-formed machine stays well-formed under encodable commands.
  A snapshot restores the same map, and \<^verbatim>\<open>restore\<close> accepts exactly the concatenations of encoded pairs,
  where the last value of a key counts.\<close>

theorem state_machine_refines_a_map:
  assumes "sm_inv sm" and "fits64 (last_applied sm + 1)"
  shows "(\<exists>sm' res. apply_command sm c = Some (sm', res) \<and> last_applied sm' = last_applied sm + 1 \<and>
      (case c of
         Set k v \<Rightarrow> sm_get sm' = (sm_get sm)(k \<mapsto> v) \<and> res = SetResult (sm_get sm k)
       | Delete k \<Rightarrow> sm_get sm' = (sm_get sm)(k := None) \<and> res = DeleteResult (sm_get sm k)
       | Get k \<Rightarrow> sm_get sm' = sm_get sm \<and> res = GetResult (sm_get sm k)) \<and>
      (short_command c \<longrightarrow> sm_inv sm')) \<and>
    (\<exists>new. restore old i (sm_snapshot sm) = Inr new \<and> sm_get new = sm_get sm \<and> last_applied new = i) \<and>
    (restore old i bs = Inr new \<longleftrightarrow> (\<exists>ps. list_all short_pair ps \<and> bs = concat (map pair_field ps) \<and>
      sm_inv new \<and> sm_get new = map_of (rev ps) \<and> last_applied new = i))"
proof (intro conjI)
  obtain sm' res where run: "apply_command sm c = Some (sm', res)"
    using apply_command_total [OF assms(2)] by blast
  have "bt_ordered (kv_entries sm)" using assms(1) by (simp add: sm_inv_def)
  with run sm_inv_apply [OF run assms(1)]
  show "\<exists>sm' res. apply_command sm c = Some (sm', res) \<and> last_applied sm' = last_applied sm + 1 \<and>
      (case c of
         Set k v \<Rightarrow> sm_get sm' = (sm_get sm)(k \<mapsto> v) \<and> res = SetResult (sm_get sm k)
       | Delete k \<Rightarrow> sm_get sm' = (sm_get sm)(k := None) \<and> res = DeleteResult (sm_get sm k)
       | Get k \<Rightarrow> sm_get sm' = sm_get sm \<and> res = GetResult (sm_get sm k)) \<and>
      (short_command c \<longrightarrow> sm_inv sm')"
    by (cases c) (auto simp: apply_command_eq_Some sm_get_def fun_eq_iff)
  show "\<exists>new. restore old i (sm_snapshot sm) = Inr new \<and> sm_get new = sm_get sm \<and> last_applied new = i"
    by (simp add: restore_snapshot [OF assms(1)] sm_get_def fun_eq_iff)
qed (rule restore_accepts)

theorem state_machine_refines_a_map_witness:
  "\<exists>sm sm' res. apply_command new_state_machine set_x = Some (sm, SetResult None) \<and>
     apply_command sm (Delete [1]) = Some (sm', res) \<and> res = DeleteResult (Some [2]) \<and>
     sm_get sm [1] = Some [2] \<and> sm_get sm' [1] = None \<and> last_applied sm' = 2"
proof -
  have fits: "fits64 (last_applied new_state_machine + 1)" "fits64 2"
    by (simp_all add: new_state_machine_def fits64_def)
  from state_machine_refines_a_map [OF sm_inv_new fits(1), of set_x, THEN conjunct1] short_x(1) obtain sm where
    sm: "apply_command new_state_machine set_x = Some (sm, SetResult None)" "sm_get sm = Map.empty([1] \<mapsto> [2])"
      "sm_inv sm" "last_applied sm = 1"
    by (auto simp: set_x_def new_state_machine_def sm_get_def [abs_def])
  from state_machine_refines_a_map [OF sm(3), of "Delete [1]", THEN conjunct1] fits(2) sm(2,4)
  obtain sm' where "apply_command sm (Delete [1]) = Some (sm', DeleteResult (Some [2]))" "sm_get sm' [1] = None"
    "last_applied sm' = 2" by (auto simp: numeral_2_eq_2)
  with sm show ?thesis by auto
qed

section \<open>Applying the log\<close>

text \<open>C31. Draining the committed entries moves the cursor to the commit point, and a key then has the
  value of its last write among the drained commands, or the old value when none wrote it:
  configuration entries and reads change nothing.\<close>

theorem draining_applies_the_log:
  assumes "drain_committed r = Some r'" and "boundary (rp_node r) \<le> last_applied (rp_state_machine r)"
    and "sm_inv (rp_state_machine r)"
  shows "last_applied (rp_state_machine r') = max (last_applied (rp_state_machine r)) (commit_index (rp_node r)) \<and>
    (\<forall>k. sm_get (rp_state_machine r') k =
       (case last_write (commands
           (log_between (rp_node r) (last_applied (rp_state_machine r)) (commit_index (rp_node r)))) k of
          Some w \<Rightarrow> w
        | None \<Rightarrow> sm_get (rp_state_machine r) k))"
proof -
  obtain sm results where loop: "drain_loop (rp_node r) (rp_state_machine r, rp_results r) = Some (sm, results)"
    and r': "rp_state_machine r' = sm"
    using assms(1) by (auto simp: drain_committed_loop [OF assms(2)])
  note st = drain_loop_state [OF loop assms(2)]
  have "bt_ordered (kv_entries (rp_state_machine r))" using assms(3) by (simp add: sm_inv_def)
  from lookup_exec [OF this] st(1,2) show ?thesis
    by (simp add: r' sm_get_def exec_entries cong: option.case_cong)
qed

theorem draining_applies_the_log_witness:
  "\<exists>r. drain_committed informed_replica = Some r \<and> last_applied (rp_state_machine r) = 2 \<and>
     sm_get (rp_state_machine r) [1] = Some [2]"
proof -
  obtain r where run: "drain_committed informed_replica = Some r" using informed_drains by blast
  have "sm_inv (rp_state_machine informed_replica)"
    using informed_log(6) by (simp add: sm_inv_def)
  from draining_applies_the_log [OF run _ this] run show ?thesis
    by (simp add: informed_log(2-6) informed_commands) (simp add: set_x_def get_x_def)
qed



text \<open>Draining never panics on a replica whose cursor is between its boundary and the end of its log
  and whose committed entries decode.\<close>

lemma draining_never_panics:
  assumes "replica_consistent r"
    and "commit_index (rp_node r) \<le> boundary (rp_node r) + length (log (rp_node r))"
    and "list_all decodable
      (log_between (rp_node r) (last_applied (rp_state_machine r)) (commit_index (rp_node r)))"
  shows "\<exists>r'. drain_committed r = Some r' \<and> rp_node r' = rp_node r"
proof -
  have "boundary (rp_node r) \<le> last_applied (rp_state_machine r)" "node_inv (rp_node r)"
    using assms(1) by (simp_all add: replica_consistent_def Let_def)
  moreover have "fits64 (commit_index (rp_node r))"
    using \<open>node_inv (rp_node r)\<close> assms(2) by (auto simp: node_inv_def elim: fits64_mono)
  ultimately show ?thesis
    using drain_committed_total [of r] assms(2,3) drain_committed_node by blast
qed

lemma draining_never_panics_witness:
  "\<exists>r. drain_committed informed_replica = Some r \<and> rp_node r = rp_node informed_replica"
proof -
  from draining_never_panics [OF informed_consistent] informed_decodable show ?thesis by (simp add: informed_log(2-6))
qed

section \<open>Compaction and restart of a replica\<close>

text \<open>C33. Compaction keeps a replica consistent, its map equal to its snapshot with the applied part of
  the log executed on it, also when entries are retained below the cursor the snapshot was taken
  at; the map and the recorded results stay and the boundary moves to the requested index.\<close>

theorem compaction_keeps_consistency:
  assumes "replica_compact r retain = Some (r', Some effects)" and "replica_consistent r"
  shows "replica_consistent r' \<and> rp_state_machine r' = rp_state_machine r \<and>
    rp_results r' = rp_results r \<and>
    boundary (rp_node r') = last_applied (rp_state_machine r) - retain"
  using replica_compact_consistent [OF assms] by blast

theorem compaction_keeps_consistency_witness:
  "\<exists>r r' es. drain_committed informed_replica = Some r \<and> replica_compact r 1 = Some (r', Some es) \<and>
     replica_consistent r' \<and> boundary (rp_node r') = 1"
proof -
  obtain r r' es where r: "drain_committed informed_replica = Some r" "replica_consistent r"
    "last_applied (rp_state_machine r) = 2" "replica_compact r 1 = Some (r', Some es)"
    using informed_compacts by blast
  from compaction_keeps_consistency [OF r(4,2)] r show ?thesis by auto
qed

text \<open>C30. Restart: recovering a consistent replica from its own snapshot and log, and hearing of the old cursor
  as committed again, rebuilds the same map.\<close>

theorem restart_rebuilds_the_map:
  assumes "replica_consistent r" and "node_inv m"
    and "snapshot m = snapshot (rp_node r)" and "snapshot_data m = snapshot_data (rp_node r)"
    and "log m = log (rp_node r)" and "commit_index m = boundary m"
  shows "\<exists>r0 r1. recover_replica m = Some r0 \<and>
    drain_committed (r0\<lparr>rp_node := m\<lparr>commit_index := last_applied (rp_state_machine r)\<rparr>\<rparr>) = Some r1 \<and>
    kv_entries (rp_state_machine r1) = kv_entries (rp_state_machine r) \<and>
    last_applied (rp_state_machine r1) = last_applied (rp_state_machine r)"
  using recover_replica_same_map [OF assms refl] .

theorem restart_rebuilds_the_map_witness:
  "\<exists>r r0 r1. drain_committed informed_replica = Some r \<and> recover_replica fresh_node = Some r0 \<and>
     drain_committed (r0\<lparr>rp_node := fresh_node\<lparr>commit_index := 2\<rparr>\<rparr>) = Some r1 \<and>
     kv_entries (rp_state_machine r1) = kv_entries (rp_state_machine r)"
proof -
  obtain r where r: "drain_committed informed_replica = Some r" "replica_consistent r"
    "rp_node r = rp_node informed_replica" "last_applied (rp_state_machine r) = 2"
    using informed_drained by blast
  have "commit_index fresh_node = boundary fresh_node"
    by (simp add: fresh_node_def recovered_def Let_def)
  with restart_rebuilds_the_map [OF r(2) fresh_node_inv] r show ?thesis
    by (auto simp: informed_replica_def)
qed

end
