(* ===== verification/Raft_Log_Properties.thy ===== *)
theory Raft_Log_Properties
  imports Ledger_Refinement Kv_Properties
begin

text \<open>
  The safety of the replicated log, in clusters of fixed membership that take no snapshot: log
  matching, state machine safety, leader completeness, durability on a majority, and agreement of
  the replicas' maps. The proofs read what the ledger guarantees (\<open>Ledger\<close>) off the nodes
  (\<open>Ledger_Refinement\<close>). The concrete world is that of a leader that commits an entry and a follower that
  learns of it.
\<close>

section \<open>What was committed is remembered\<close>

lemma plain_commit: "recover_from d i V timeout heartbeat = Some (Inr m) \<Longrightarrow> plain m \<Longrightarrow> commit_index m = 0"
  unfolding recover_from_def
  by (auto dest!: recover_Inr(1) simp: recovered_def plain_def default_metadata_def Let_def)

lemma decided_recorded: "log_cluster V w D \<Longrightarrow> decided (nodes w i) \<subseteq> D"
proof (induction arbitrary: i rule: log_cluster.induct)
  case (boot N)
  then have "commit_index (N i) = 0" using boot_blank [of i V "N i"] by blast
  then show ?case by (simp add: decided_def)
next
  case (operate w D j op n' es d')
  then show ?case by (auto simp: carry_out_def)
next
  case (crash w D j op n' es k d' timeout heartbeat m)
  have "log_cluster V (carry_out j m d' (take k es) w) D"
    by (rule log_cluster.crash [OF crash.hyps])
  from log_cluster_refines [OF this] obtain a where "world_ok V (carry_out j m d' (take k es) w) a D" ..
  from world_okD(5) [OF this, of j] have "plain m" by (simp add: carry_out_def)
  with plain_commit [OF crash.hyps(7)] have "decided m = {}" by (simp add: decided_def)
  with crash.IH show ?case by (auto simp: carry_out_def)
qed

section \<open>A cluster that commits an entry\<close>

lemma log_cluster_after:
  assumes "log_cluster V w D" and "authentic w i op" and "\<And>j data. op \<noteq> Op_Compact j data"
  shows "\<exists>D'. log_cluster V (after i op w) D'"
proof (cases "run_op (nodes w i) op")
  case None
  with assms show ?thesis by (auto simp: after_def)
next
  case (Some r)
  then obtain n' es where run: "run_op (nodes w i) op = Some (n', es)" by (cases r) auto
  show ?thesis
  proof (cases "durable_apply_all (disks w i) es")
    case None
    with run assms show ?thesis by (auto simp: after_def)
  next
    case (Some d')
    with log_cluster.operate [OF assms run Some] run show ?thesis by (auto simp: after_def)
  qed
qed

lemma log_cluster_world_0: "log_cluster trio world_0 {}"
  unfolding world_0_def
proof (rule log_cluster.boot)
  show "\<exists>timeout heartbeat. new_node i trio timeout heartbeat =
      Some (Inr (if i \<in> set trio then trio_voter i else trio_learner i))" if "i \<in> set trio" for i
    using that trio_voter_new by auto
  show "\<exists>timeout heartbeat. new_learner i timeout heartbeat =
      Inr (if i \<in> set trio then trio_voter i else trio_learner i)" if "i \<notin> set trio" for i
    using that by (auto simp: trio_learner_def new_learner_def Let_def)
qed

lemma log_cluster_world_3: "\<exists>D. log_cluster trio world_3 D"
proof -
  obtain D1 where "log_cluster trio world_1 D1"
    unfolding world_1_def using log_cluster_after [OF log_cluster_world_0] by fastforce
  moreover have "authentic world_1 (NodeId 2) (Op_Event (Step (NodeId 1) (RequestVote ballot)))"
    by (simp only: authentic.simps world_1_sent)
  ultimately obtain D2 where "log_cluster trio world_2 D2"
    unfolding world_2_def using log_cluster_after by blast
  moreover have "authentic world_2 (NodeId 1) (Op_Event (Step (NodeId 2)
     (RequestVoteResponse \<lparr>rvr_term = 1, granted = True\<rparr>)))"
    by (simp only: authentic.simps world_2_sent)
  ultimately show ?thesis unfolding world_3_def using log_cluster_after by blast
qed

text \<open>The leader proposes a write of \<open>x\<close> and sends it with its next heartbeat, the second node accepts it,
  the leader commits it and tells so with the heartbeat after.\<close>

definition write_x :: log_entry where
  "write_x = \<lparr>entry_term = 1, payload = Command [0, 0, 0, 0, 1, 120, 0, 0, 0, 1, 1]\<rparr>"

definition beat :: "log_entry list \<Rightarrow> u64 \<Rightarrow> append_entries" where
  "beat es k = \<lparr>ae_term = 1, ae_leader_id = NodeId 1, prev_log_index = k, prev_log_term = k,
     entries = es, leader_commit = k\<rparr>"

definition world_4 :: world where
  "world_4 = after (NodeId 1) (Op_Event (Tick 1))
     (after (NodeId 1) (Op_Propose [0, 0, 0, 0, 1, 120, 0, 0, 0, 1, 1]) world_3)"

definition world_5 :: world where
  "world_5 = after (NodeId 2) (Op_Event (Step (NodeId 1) (AppendEntries (beat [write_x] 0)))) world_4"

definition world_6 :: world where
  "world_6 = after (NodeId 1) (Op_Event (Tick 1)) (after (NodeId 1) (Op_Event (Step (NodeId 2)
     (AppendEntriesResponse \<lparr>aer_term = 1, success = True, aer_match_index = 1\<rparr>))) world_5)"

definition world_7 :: world where
  "world_7 = after (NodeId 2) (Op_Event (Step (NodeId 1) (AppendEntries (beat [] 1)))) world_6"

lemma world_4_sent: "Send (NodeId 2) (AppendEntries (beat [write_x] 0)) \<in> sent world_4 (NodeId 1)"
  by code_simp

lemma world_5_sent: "Send (NodeId 1) (AppendEntriesResponse \<lparr>aer_term = 1, success = True, aer_match_index = 1\<rparr>)
    \<in> sent world_5 (NodeId 2)"
  by code_simp

lemma world_6_sent: "Send (NodeId 2) (AppendEntries (beat [] 1)) \<in> sent world_6 (NodeId 1)"
  by code_simp

lemma world_7_leader: "role (nodes world_7 (NodeId 1)) = Leader \<and> current_term (nodes world_7 (NodeId 1)) = 1"
  by code_simp

lemma world_7_logs: "log (nodes world_7 (NodeId 1)) = [write_x] \<and> log (nodes world_7 (NodeId 2)) = [write_x]"
  by code_simp

lemma world_7_commits: "commit_index (nodes world_7 (NodeId 1)) = 1 \<and> commit_index (nodes world_7 (NodeId 2)) = 1"
  by code_simp

lemma log_cluster_world_7: "\<exists>D. log_cluster trio world_7 D"
proof -
  have "\<exists>D. log_cluster trio (after (NodeId 1) (Op_Propose [0, 0, 0, 0, 1, 120, 0, 0, 0, 1, 1]) world_3) D"
    using log_cluster_world_3 log_cluster_after by fastforce
  then obtain D4 where "log_cluster trio world_4 D4"
    unfolding world_4_def using log_cluster_after by fastforce
  moreover have "authentic world_4 (NodeId 2) (Op_Event (Step (NodeId 1) (AppendEntries (beat [write_x] 0))))"
    by (simp only: authentic.simps world_4_sent)
  ultimately obtain D5 where "log_cluster trio world_5 D5"
    unfolding world_5_def using log_cluster_after by blast
  moreover have "authentic world_5 (NodeId 1) (Op_Event (Step (NodeId 2)
     (AppendEntriesResponse \<lparr>aer_term = 1, success = True, aer_match_index = 1\<rparr>)))"
    by (simp only: authentic.simps world_5_sent)
  ultimately have "\<exists>D. log_cluster trio (after (NodeId 1) (Op_Event (Step (NodeId 2)
     (AppendEntriesResponse \<lparr>aer_term = 1, success = True, aer_match_index = 1\<rparr>))) world_5) D"
    using log_cluster_after by blast
  then obtain D6 where "log_cluster trio world_6 D6"
    unfolding world_6_def using log_cluster_after by fastforce
  moreover have "authentic world_6 (NodeId 2) (Op_Event (Step (NodeId 1) (AppendEntries (beat [] 1))))"
    by (simp only: authentic.simps world_6_sent)
  ultimately show ?thesis
    unfolding world_7_def using log_cluster_after by blast
qed

section \<open>Logs\<close>

lemma world_agrees:
  assumes "log_cluster V w D"
  obtains a where "world_ok V w a D" "ledger_inv (majority V) a"
  using log_cluster_refines [OF assms] world_okD(1) by blast

text \<open>C5. Log matching, in every world of a cluster of fixed membership without snapshots (\<open>log_cluster\<close>): if the
  logs of two nodes have an entry of the same term at the same index, they are equal up to and
  including that index.\<close>

theorem log_matching:
  assumes "log_cluster V w D"
    and "p < length (log (nodes w i))" and "p < length (log (nodes w j))"
    and "entry_term (log (nodes w i) ! p) = entry_term (log (nodes w j) ! p)"
  shows "take (Suc p) (log (nodes w i)) = take (Suc p) (log (nodes w j))"
proof -
  obtain a where ok: "world_ok V w a D" by (rule world_agrees [OF assms(1)])
  let ?l = "leader_log a (entry_term (log (nodes w i) ! p))"
  have "shares (Suc p) (log (nodes w i)) ?l" "shares (Suc p) (log (nodes w j)) ?l"
    using node_log [OF ok] assms(2-4) unfolding coherent_def by metis+
  then show ?thesis by (simp add: shares_def)
qed

theorem log_matching_witness:
  "\<exists>D. log_cluster trio world_7 D \<and>
     take 1 (log (nodes world_7 (NodeId 1))) = take 1 (log (nodes world_7 (NodeId 2))) \<and>
     length (log (nodes world_7 (NodeId 2))) = 1"
proof -
  obtain D where D: "log_cluster trio world_7 D" using log_cluster_world_7 by blast
  from log_matching [OF D, of 0 "NodeId 1" "NodeId 2"] D world_7_logs show ?thesis by auto
qed

lemma decided_one:
  assumes ok: "world_ok V w a D" and "(t, k, e) \<in> D" and "(s, k, e') \<in> D"
  shows "e = e'"
proof -
  from decided_settled [OF ok assms(2)] obtain xs where xs: "0 < k" "settled (majority V) a t k xs" "xs ! (k - 1) = e" .
  from decided_settled [OF ok assms(3)] obtain ys where ys: "settled (majority V) a s k ys" "ys ! (k - 1) = e'" .
  from shares_last [OF majority_ledger.settled_agree [OF world_okD(1) [OF ok] xs(2) ys(1)] xs(1)] xs(3) ys(2)
  show ?thesis by simp
qed

lemma committed_prefix:
  assumes ok: "world_ok V w a D" and "k \<le> commit_index (nodes w i)" and "k \<le> commit_index (nodes w j)"
  shows "shares k (log (nodes w i)) (log (nodes w j))"
  by (rule majority_ledger.settled_agree [OF world_okD(1) [OF ok]])
     (rule settled_mono [OF node_settled [OF ok]], fact)+

text \<open>C2. State machine safety: what nodes commit at an index, in any term and at any time, restarts
  included, is one entry, and the committed parts of any two logs are prefixes of one another.\<close>

theorem state_machine_safety:
  assumes "log_cluster V w D"
  shows "(\<forall>t s k e e'. (t, k, e) \<in> D \<longrightarrow> (s, k, e') \<in> D \<longrightarrow> e = e') \<and>
    (\<forall>i. \<forall>k < commit_index (nodes w i). (current_term (nodes w i), Suc k, log (nodes w i) ! k) \<in> D) \<and>
    (\<forall>i j k. k \<le> commit_index (nodes w i) \<longrightarrow> k \<le> commit_index (nodes w j) \<longrightarrow>
      take k (log (nodes w i)) = take k (log (nodes w j)))"
proof (intro conjI allI impI)
  obtain a where ok: "world_ok V w a D" by (rule world_agrees [OF assms])
  show "e = e'" if "(t, k, e) \<in> D" "(s, k, e') \<in> D" for t s k e e' using decided_one [OF ok that] .
  show "take k (log (nodes w i)) = take k (log (nodes w j))"
    if "k \<le> commit_index (nodes w i)" "k \<le> commit_index (nodes w j)" for i j k
    using committed_prefix [OF ok that] by (simp add: shares_def)
  show "(current_term (nodes w i), Suc k, log (nodes w i) ! k) \<in> D" if "k < commit_index (nodes w i)" for i k
    using decided_recorded [OF assms, of i] that by (auto simp: decided_def)
qed

lemma world_7_decided: "\<exists>D. log_cluster trio world_7 D \<and> (1, 1, write_x) \<in> D"
proof -
  obtain D where D: "log_cluster trio world_7 D" using log_cluster_world_7 by blast
  moreover have "(1, 1, write_x) \<in> decided (nodes world_7 (NodeId 1))"
    using world_7_leader world_7_logs world_7_commits by (simp add: decided_def)
  ultimately show ?thesis using decided_recorded [OF D, of "NodeId 1"] by blast
qed

theorem state_machine_safety_witness:
  "\<exists>D. log_cluster trio world_7 D \<and> {e. \<exists>t. (t, 1, e) \<in> D} = {write_x}"
proof -
  obtain D where D: "log_cluster trio world_7 D" "(1, 1, write_x) \<in> D" using world_7_decided by blast
  from D(2) state_machine_safety [OF D(1), THEN conjunct1] have "{e. \<exists>t. (t, 1, e) \<in> D} = {write_x}" by auto
  with D(1) show ?thesis by blast
qed

text \<open>C3. Leader completeness, in every world of a cluster of fixed membership without snapshots: an entry
  committed in some term, by whichever node and whenever, is in the log of every leader of that or a
  later term, at its index.\<close>

theorem leader_completeness:
  assumes "log_cluster V w D" and "(t, k, e) \<in> D"
    and "role (nodes w i) = Leader" and "t \<le> current_term (nodes w i)"
  shows "0 < k \<and> k \<le> length (log (nodes w i)) \<and> log (nodes w i) ! (k - 1) = e"
proof -
  obtain a where ok: "world_ok V w a D" by (rule world_agrees [OF assms(1)])
  from decided_settled [OF ok assms(2)] obtain xs where xs: "0 < k" "settled (majority V) a t k xs" "xs ! (k - 1) = e" .
  note leader = leader_holds_log [OF ok assms(3)]
  have "shares k xs (log (nodes w i))"
    using majority_ledger.settled_leader [OF world_okD(1) [OF ok] xs(2) leader(1) assms(4)] leader(2) by simp
  from shares_last [OF this xs(1)] xs show ?thesis by simp
qed

theorem leader_completeness_witness:
  "\<exists>D. log_cluster trio world_7 D \<and> (1, 1, write_x) \<in> D \<and> log (nodes world_7 (NodeId 1)) ! (1 - 1) = write_x"
proof -
  obtain D where D: "log_cluster trio world_7 D" "(1, 1, write_x) \<in> D" using world_7_decided by blast
  from leader_completeness [OF D, of "NodeId 1"] world_7_leader D show ?thesis by auto
qed

text \<open>C6. Durability, in every world of a cluster of fixed membership without snapshots: every entry that was
  ever committed is, at its index, in the logs of a majority of the voters and on their disks, however
  often nodes crashed in the middle of a batch.\<close>

theorem committed_on_a_majority:
  assumes "log_cluster V w D" and "(t, k, e) \<in> D"
  shows "\<exists>Q \<subseteq> set V. length V < 2 * card Q \<and> (\<forall>v \<in> Q. k \<le> length (log (nodes w v)) \<and>
    log (nodes w v) ! (k - 1) = e \<and> ds_log (disks w v) ! (k - 1) = e)"
proof -
  obtain a where ok: "world_ok V w a D" by (rule world_agrees [OF assms(1)])
  from decided_majority [OF ok assms(2)] obtain Q where Q: "majority V Q"
    "\<forall>v \<in> Q. k \<le> length (log (nodes w v)) \<and> log (nodes w v) ! (k - 1) = e" by blast
  have "ds_log (disks w v) = log (nodes w v)" for v
    using cluster_inv_node [OF cluster_cluster_inv [OF log_cluster_cluster [OF assms(1)]], of v]
    by (simp add: persisted_def)
  moreover have "Q \<subseteq> set V" "length V < 2 * card Q" using Q(1) by (auto simp: majority_def)
  ultimately show ?thesis using Q(2) by (intro exI [of _ Q]) simp
qed

theorem committed_on_a_majority_witness:
  "\<exists>D Q. log_cluster trio world_7 D \<and> (1, 1, write_x) \<in> D \<and> 3 < 2 * card Q \<and>
     (\<forall>v \<in> Q. ds_log (disks world_7 v) ! (1 - 1) = write_x)"
proof -
  obtain D where D: "log_cluster trio world_7 D" "(1, 1, write_x) \<in> D" using world_7_decided by blast
  obtain Q where "length trio < 2 * card Q" "\<forall>v \<in> Q. ds_log (disks world_7 v) ! (1 - 1) = write_x"
    using committed_on_a_majority [OF D] by blast
  moreover have "length trio = 3" by (simp add: trio_def)
  ultimately show ?thesis using D by (intro exI [of _ D] exI [of _ Q] conjI) simp_all
qed

text \<open>C7. Refinement: every world of a cluster of fixed membership without snapshots has a ledger, reached by
  ledger steps alone, with the terms, logs and votes of the nodes, in which leaders are leaders and
  what was committed is settled.\<close>

theorem nodes_refine_ledger:
  assumes "log_cluster V w D"
  shows "\<exists>a. ledger_reachable (majority V) a \<and> (\<forall>i. terms a i = current_term (nodes w i) \<and>
      logs a i = log (nodes w i) \<and> (role (nodes w i) = Leader \<longrightarrow> (current_term (nodes w i), i) \<in> led a) \<and>
      settled (majority V) a (current_term (nodes w i)) (commit_index (nodes w i)) (log (nodes w i))) \<and>
    ballots a = cast w"
proof -
  obtain a where ok: "world_ok V w a D" by (rule world_agrees [OF assms])
  have "ledger_reachable (majority V) a" using ok by (simp add: world_ok_def)
  with world_okD(2-4) [OF ok] leader_holds_log(1) [OF ok] node_settled [OF ok] show ?thesis
    by (intro exI [of _ a]) simp
qed

theorem nodes_refine_ledger_witness:
  "\<exists>a. ledger_reachable (majority trio) a \<and> logs a (NodeId 1) = [write_x] \<and> (1, NodeId 1) \<in> led a \<and>
     settled (majority trio) a 1 1 [write_x]"
proof -
  obtain D where D: "log_cluster trio world_7 D" using log_cluster_world_7 by blast
  obtain a where a: "ledger_reachable (majority trio) a" "\<forall>i. terms a i = current_term (nodes world_7 i) \<and>
      logs a i = log (nodes world_7 i) \<and> (role (nodes world_7 i) = Leader \<longrightarrow> (current_term (nodes world_7 i), i) \<in> led a) \<and>
      settled (majority trio) a (current_term (nodes world_7 i)) (commit_index (nodes world_7 i)) (log (nodes world_7 i))"
    using nodes_refine_ledger [OF D] by blast
  from a(2) [rule_format, of "NodeId 1"] world_7_leader world_7_logs world_7_commits a(1)
  show ?thesis by (intro exI [of _ a]) simp
qed

section \<open>Maps\<close>

lemma decodable_write_x: "decodable write_x"
proof -
  have "payload write_x = Command (encode (Set [120] [1]))" by code_simp
  with decode_encode [of "Set [120] [1]" "[]"] show ?thesis
    by (simp add: decodable_def short_def del: encode.simps)
qed

lemma plain_map:
  assumes "replica_consistent r" and "plain (rp_node r)"
  shows "last_applied (rp_state_machine r) \<le> commit_index (rp_node r) \<and>
    last_applied (rp_state_machine r) \<le> length (log (rp_node r)) \<and>
    kv_entries (rp_state_machine r) =
      foldl exec_entry [] (take (last_applied (rp_state_machine r)) (log (rp_node r)))"
  using assms plain_boundary [OF assms(2)]
  by (simp add: replica_consistent_def Let_def log_between_def snapshot_map_def)

lemma drained_consistent:
  assumes "plain n" and "node_inv n" and "commit_index n \<le> length (log n)"
    and "list_all decodable (take (commit_index n) (log n))"
  shows "\<exists>r. drain_committed \<lparr>rp_node = n, rp_state_machine = new_state_machine, rp_results = Map.empty\<rparr> = Some r \<and>
    replica_consistent r \<and> rp_node r = n \<and> last_applied (rp_state_machine r) = commit_index n"
proof -
  let ?r = "\<lparr>rp_node = n, rp_state_machine = new_state_machine, rp_results = Map.empty\<rparr>"
  have start: "last_applied (rp_state_machine ?r) = 0" "kv_entries (rp_state_machine ?r) = []"
    by (simp_all add: new_state_machine_def)
  have "boundary n = 0" using assms(1) by (rule plain_boundary)
  then have cons: "replica_consistent ?r"
    using assms(2) start by (simp add: replica_consistent_def Let_def snapshot_map_def log_between_def sm_inv_def)
  have "\<exists>r'. drain_committed ?r = Some r'"
    using assms \<open>boundary n = 0\<close> start
    by (intro drain_committed_total) (auto simp: log_between_def node_inv_def elim: fits64_mono)
  then obtain r where r: "drain_committed ?r = Some r" by blast
  then have r': "drain_committed (?r\<lparr>rp_node := n\<rparr>) = Some r" by simp
  have "replica_consistent r" "rp_node r = n" "last_applied (rp_state_machine r) = commit_index n"
    using drain_committed_consistent [OF cons assms(2) _ r'] start by simp_all
  with r show ?thesis by blast
qed

lemma world_7_drained:
  assumes "commit_index (nodes world_7 i) = 1" and "log (nodes world_7 i) = [write_x]"
  shows "\<exists>r. drain_committed \<lparr>rp_node = nodes world_7 i, rp_state_machine = new_state_machine, rp_results = Map.empty\<rparr> =
      Some r \<and> replica_consistent r \<and> rp_node r = nodes world_7 i \<and> last_applied (rp_state_machine r) = 1"
proof -
  obtain D where D: "log_cluster trio world_7 D" using log_cluster_world_7 by blast
  obtain a where "world_ok trio world_7 a D" by (rule world_agrees [OF D])
  from world_okD(5) [OF this] have p: "plain (nodes world_7 i)" .
  then have "node_inv (nodes world_7 i)" by (simp add: plain_def steady_def)
  from drained_consistent [OF p this] show ?thesis
    by (simp add: assms decodable_write_x)
qed

text \<open>C4. Replicas agree: when the nodes of two consistent replicas are nodes of one world of a cluster of fixed
  membership without snapshots, the replica further ahead has the other's map with the entries in
  between executed on it; at the same cursor the maps are equal.\<close>

theorem replicas_agree:
  assumes "log_cluster V w D" and "replica_consistent r" and "replica_consistent s"
    and "rp_node r = nodes w i" and "rp_node s = nodes w j"
    and "last_applied (rp_state_machine r) \<le> last_applied (rp_state_machine s)"
  shows "kv_entries (rp_state_machine s) = foldl exec_entry (kv_entries (rp_state_machine r))
      (log_between (rp_node s) (last_applied (rp_state_machine r)) (last_applied (rp_state_machine s))) \<and>
    (last_applied (rp_state_machine r) = last_applied (rp_state_machine s) \<longrightarrow>
      kv_entries (rp_state_machine r) = kv_entries (rp_state_machine s))"
proof -
  let ?a = "last_applied (rp_state_machine r)" and ?b = "last_applied (rp_state_machine s)"
  obtain a where ok: "world_ok V w a D" by (rule world_agrees [OF assms(1)])
  have plain: "plain (rp_node r)" "plain (rp_node s)" using world_okD(5) [OF ok] assms(4,5) by simp_all
  note r = plain_map [OF assms(2) plain(1)] and s = plain_map [OF assms(3) plain(2)]
  have "shares ?a (log (rp_node r)) (log (rp_node s))"
    using committed_prefix [OF ok, of ?a i j] r s assms(4-6) by simp
  then have "take ?a (log (rp_node r)) = take ?a (log (rp_node s))" by (simp add: shares_def)
  moreover have "take ?b (log (rp_node s)) = take ?a (log (rp_node s)) @ take (?b - ?a) (drop ?a (log (rp_node s)))"
    using take_add [of ?a "?b - ?a" "log (rp_node s)"] assms(6) by simp
  moreover have "boundary (rp_node s) = 0" using plain(2) by (rule plain_boundary)
  ultimately have exec: "kv_entries (rp_state_machine s) = foldl exec_entry (kv_entries (rp_state_machine r))
      (log_between (rp_node s) ?a ?b)" using r s by (simp add: log_between_def)
  moreover have "kv_entries (rp_state_machine r) = kv_entries (rp_state_machine s)" if "?a = ?b"
    using exec that by simp
  ultimately show ?thesis by blast
qed

theorem replicas_agree_witness:
  "\<exists>(r :: replica) (s :: replica). rp_node r = nodes world_7 (NodeId 1) \<and> rp_node s = nodes world_7 (NodeId 2) \<and>
     last_applied (rp_state_machine r) = 1 \<and> kv_entries (rp_state_machine r) = [([120], [1])] \<and>
     kv_entries (rp_state_machine r) = kv_entries (rp_state_machine s)"
proof -
  obtain D where D: "log_cluster trio world_7 D" using log_cluster_world_7 by blast
  obtain a where ok: "world_ok trio world_7 a D" by (rule world_agrees [OF D])
  obtain r s where r: "replica_consistent r" "rp_node r = nodes world_7 (NodeId 1)" "last_applied (rp_state_machine r) = 1"
    and s: "replica_consistent s" "rp_node s = nodes world_7 (NodeId 2)" "last_applied (rp_state_machine s) = 1"
    using world_7_drained [OF world_7_commits [THEN conjunct1] world_7_logs [THEN conjunct1]]
      world_7_drained [OF world_7_commits [THEN conjunct2] world_7_logs [THEN conjunct2]] by (elim exE conjE)
  have "foldl exec_entry [] [write_x] = [([120], [1])]" by code_simp
  then have "kv_entries (rp_state_machine r) = [([120], [1])]"
    using plain_map [OF r(1)] world_okD(5) [OF ok] r(2,3) world_7_logs by simp
  moreover have "kv_entries (rp_state_machine r) = kv_entries (rp_state_machine s)"
    by (rule replicas_agree [OF D r(1) s(1) r(2) s(2), THEN conjunct2, rule_format]) (simp_all add: r(3) s(3))
  ultimately show ?thesis using r(2,3) s(2) by blast
qed

end
