(* ===== verification/Raft_Pacing.thy ===== *)
theory Raft_Pacing
  imports Ledger_Refinement
begin

text \<open>
  Where a leader of \<^verbatim>\<open>crates/kurogane-raft/src/lib.rs\<close> resumes replication: in a cluster without snapshots
  and configuration changes a leader has a \<^verbatim>\<open>next_index\<close> for every peer it replicates to, at most one past
  the end of its log. So \<^verbatim>\<open>replicate_to\<close> never panics there.
\<close>

section \<open>Where a leader resumes\<close>

definition paces :: "node \<Rightarrow> node \<Rightarrow> bool" where
  "paces n n' \<longleftrightarrow> (role n' = Leader \<longrightarrow>
     role n = Leader \<and> current_term n' = current_term n \<and>
       replication_targets n' \<subseteq> replication_targets n \<union> dom (next_index n') \<and> dom (next_index n) \<subseteq> dom (next_index n') \<and>
       (\<forall>p x. next_index n' p = Some x \<longrightarrow> x = Suc (length (log n')) \<or> (\<exists>y. next_index n p = Some y \<and> x \<le> y) \<or>
         (\<exists>m. match_index n' p = Some m \<and> x = Suc m)) \<or>
     replication_targets n' \<subseteq> dom (next_index n') \<and> (\<forall>p x. next_index n' p = Some x \<longrightarrow> x = Suc (length (log n'))))"

lemma paces_quiet: "role n' \<noteq> Leader \<Longrightarrow> paces n n'"
  by (simp add: paces_def)

lemma paces_same:
  "role n = Leader \<Longrightarrow> current_term n' = current_term n \<Longrightarrow> next_index n' = next_index n \<Longrightarrow>
     replication_targets n' \<subseteq> replication_targets n \<Longrightarrow> paces n n'"
  unfolding paces_def using order_refl by (intro impI disjI1) auto

lemma paces_become_leader:
  assumes "become_leader m = Some (n', es)" and "boundary m = 0"
  shows "paces n n'"
  using assms by (auto simp: paces_def become_leader_def run_simps replication_targets_def split: if_splits)

lemma paces_start_election:
  assumes "start_election n t = Some (n', es)" and "boundary n = 0" and "role n \<noteq> Leader"
  shows "paces k n'"
  using assms by (elim start_election_cases)
    (auto simp: become_candidate_def intro: paces_quiet paces_become_leader)

lemma paces_on_tick:
  assumes "on_tick n t = Some (n', es)" and "boundary n = 0"
  shows "paces n n'"
proof (cases "role n = Leader")
  case True
  with assms(1) show ?thesis
    by (auto simp: on_tick_def on_leader_tick_def run_simps replication_targets_def split: if_splits intro!: paces_same)
next
  case False
  let ?m = "n\<lparr>election_elapsed := election_elapsed n + 1, leader_contact_elapsed := leader_contact_elapsed n + 1\<rparr>"
  from on_tick_follower [OF assms(1) False] have "n' = ?m \<or> start_election ?m t = Some (n', es)" by blast
  then show ?thesis
  proof
    assume "start_election ?m t = Some (n', es)"
    from paces_start_election [OF this] assms(2) False show ?thesis by simp
  qed (use False in \<open>simp add: paces_quiet\<close>)
qed

lemma advance_next:
  assumes "advance_commit_index n = Some (n', es)" and "old_voters (current_config n) = None" and "role n' = Leader"
  shows "\<exists>c. n' = n\<lparr>commit_index := c\<rparr>"
  using assms(1)
proof (cases rule: advance_commit_index_cases)
  case (plain n1)
  with assms(3) show ?thesis
    by (auto dest!: advance_point_frame simp: retire_if_excluded_def retire_from_leadership_def split: if_splits)
next
  case (follow_up n1 n2 persist n3)
  with assms(2) show ?thesis by (auto dest!: advance_point_frame simp: joint_committed_def)
qed

lemma paces_response:
  assumes "on_append_entries_response n p r = Some (n', es)" and "plain n"
  shows "paces n n'"
  using assms(1) plain_not_joint [OF assms(2)]
proof (cases rule: append_response_cases)
  case newer
  then show ?thesis by (simp add: step_down_def paces_quiet)
next
  case ignored
  then show ?thesis by (cases "role n = Leader") (auto intro: paces_quiet paces_same)
next
  case (advance m)
  show ?thesis
  proof (cases "role n' = Leader")
    case True
    from advance_next [OF advance(5) _ True] plain_not_joint [OF assms(2)] obtain c where
      "n' = n\<lparr>match_index := (match_index n)(p \<mapsto> max m (aer_match_index r)),
        next_index := (next_index n)(p \<mapsto> Suc (max m (aer_match_index r))), commit_index := c\<rparr>" by auto
    with advance(2) show ?thesis by (auto simp: paces_def replication_targets_def split: if_splits)
  qed (rule paces_quiet)
next
  case (retry i)
  have "0 < i" if "next_index n p = Some i" for i
    using plain_inv [OF assms(2)] that by (auto simp: node_inv_def progress_ok_def)
  with retry show ?thesis by (fastforce simp: paces_def replication_targets_def split: if_splits)
qed

lemma paces_propose:
  assumes "propose n cmd = Some (n', res)" and "plain n"
  shows "paces n n'"
proof (cases "role n = Leader")
  case True
  let ?e = "\<lparr>entry_term = current_term n, payload = Command cmd\<rparr>"
  from True assms(1) obtain n1 es where n1: "recompute_config (n\<lparr>log := log n @ [?e]\<rparr>) = Some n1"
    and adv: "advance_commit_index n1 = Some (n', es)"
    by (auto simp: propose_def bind_eq_Some_conv Let_def)
  have cmds: "list_all is_command (log n @ [?e])" using assms(2) by (simp add: plain_def steady_def is_command_def)
  have c: "current_config n1 = current_config n"
    using recompute_config_eq_Some [OF n1] cmds replay_commands [OF cmds] assms(2)
    by (simp add: config_in_force_def plain_def steady_config)
  show ?thesis
  proof (cases "role n' = Leader")
    case lead: True
    from advance_next [OF adv _ lead] c plain_not_joint [OF assms(2)] obtain k where "n' = n1\<lparr>commit_index := k\<rparr>" by auto
    with True c recompute_config_eq_Some [OF n1] show ?thesis
      by (intro paces_same) (simp_all add: replication_targets_def)
  qed (rule paces_quiet)
qed (use assms in \<open>simp add: propose_def paces_quiet\<close>)

lemma observe_leader_leader:
  "role (observe_leader n t) = Leader \<Longrightarrow> current_term n \<le> t \<Longrightarrow>
     t = current_term n \<and> observe_leader n t = n\<lparr>election_elapsed := 0, leader_contact_elapsed := 0\<rparr> \<and> role n = Leader"
  by (auto simp: observe_leader_def step_down_def Let_def split: if_splits)

lemma paces_append:
  assumes "on_append_entries n sender r = Some (n', es)" and "node_inv n" and "current_config n' = current_config n"
  shows "paces n n'"
proof (cases "role n' = Leader")
  case True
  from assms(1,2) show ?thesis
  proof (cases rule: on_append_entries_cases)
    case stale
    with True show ?thesis by (auto intro: paces_same)
  next
    case (mismatch m)
    from True have "role (observe_leader n (ae_term r)) = Leader" using mismatch by simp
    from observe_leader_leader [OF this mismatch(1)] mismatch
    have "n' = n\<lparr>election_elapsed := 0, leader_contact_elapsed := 0\<rparr>" "role n = Leader" by auto
    then show ?thesis by (intro paces_same) (simp_all add: replication_targets_def)
  next
    case (accept m)
    have "role m = Leader" using True accept(6) by (simp add: accepted_def Let_def)
    note m = observe_leader_leader [OF this [unfolded accept(2)] accept(1)]
    have "current_term n' = current_term m" "next_index n' = next_index m" "learners n' = learners m" "nid n' = nid m"
      using accept(6) by (simp_all add: accepted_def Let_def)
    moreover have "m = n\<lparr>election_elapsed := 0, leader_contact_elapsed := 0\<rparr>" "role n = Leader" using m accept(2) by auto
    ultimately show ?thesis using assms(3) by (intro paces_same) (simp_all add: replication_targets_def)
  qed
qed (rule paces_quiet)

lemma paces_run_op:
  assumes "run_op n op = Some (n', es)" and "plain n" and "quiet_op op" and config: "current_config n' = current_config n"
  shows "paces n n'"
proof (cases op)
  have same: "paces n n'" if "n' = n"
    using that by (cases "role n = Leader") (auto intro: paces_quiet paces_same)
  case (Op_Event ev)
  show ?thesis
  proof (cases "(n, ev)" rule: step.cases)
    case (1 m t)
    with assms(1,2) Op_Event show ?thesis by (auto intro: paces_on_tick)
  next
    case (2 m sender r)
    with assms(1,2) Op_Event paces_append [OF _ plain_inv [OF assms(2)] config, of sender r es] same
    show ?thesis by (auto split: if_splits)
  next
    case (4 m sender r)
    with assms(1) Op_Event same show ?thesis
      by (auto split: if_splits elim!: on_request_vote_cases simp: step_down_def intro: paces_quiet)
  next
    case (5 m sender r)
    with assms(1) Op_Event have "n' = n \<or> on_request_vote_response n sender r = Some (n', es)"
      by (auto split: if_splits)
    then show ?thesis
    proof
      assume "on_request_vote_response n sender r = Some (n', es)"
      then consider "n' = n" | "role n' \<noteq> Leader" | "become_leader (n\<lparr>votes_granted := insert sender (votes_granted n)\<rparr>) = Some (n', es)"
        by (auto simp: on_request_vote_response_def Let_def step_down_def split: if_splits)
      then show ?thesis
      proof cases
        case 3
        then show ?thesis by (rule paces_become_leader) (use assms(2) in simp)
      qed (use same in \<open>auto intro: paces_quiet\<close>)
    qed (rule same)
  next
    case (6 m sender r)
    with assms(1,2) Op_Event paces_response [of n sender r n' es] same show ?thesis by (auto split: if_splits)
  qed (use assms(3) Op_Event in auto)
next
  case (Op_Propose cmd)
  with assms(1,2) show ?thesis by (auto simp: bind_eq_Some_conv intro: paces_propose)
next
  case (Op_Add_Learner i)
  with assms(1,2) show ?thesis
    by (auto simp: add_learner_def run_simps paces_def replication_targets_def dom_def split: if_splits option.splits)
next
  case (Op_Remove_Learner i)
  with assms(1) show ?thesis
    by (auto simp: remove_learner_def Let_def replication_targets_def split: if_splits intro: paces_same paces_quiet)
qed (use assms(3) in auto)

text \<open>A leader tracks every peer it replicates to, and no peer beyond the end of its log.\<close>

definition keeps_pace :: "node \<Rightarrow> bool" where
  "keeps_pace n \<longleftrightarrow> (role n = Leader \<longrightarrow> replication_targets n \<subseteq> dom (next_index n) \<and>
     (\<forall>p x. next_index n p = Some x \<longrightarrow> x \<le> Suc (length (log n))))"

lemma paces_keeps:
  assumes "paces n n'" and "keeps_pace n"
    and "role n = Leader \<Longrightarrow> role n' = Leader \<Longrightarrow> current_term n' = current_term n \<Longrightarrow> length (log n) \<le> length (log n')"
    and "\<And>p m. role n' = Leader \<Longrightarrow> match_index n' p = Some m \<Longrightarrow> m \<le> length (log n')"
  shows "keeps_pace n'"
  unfolding keeps_pace_def
proof (intro impI)
  assume lead: "role n' = Leader"
  from assms(1) lead consider
    (kept) "role n = Leader" "current_term n' = current_term n"
      "replication_targets n' \<subseteq> replication_targets n \<union> dom (next_index n')" "dom (next_index n) \<subseteq> dom (next_index n')"
      "\<And>p x. next_index n' p = Some x \<Longrightarrow> x = Suc (length (log n')) \<or> (\<exists>y. next_index n p = Some y \<and> x \<le> y) \<or>
         (\<exists>m. match_index n' p = Some m \<and> x = Suc m)"
  | (fresh) "replication_targets n' \<subseteq> dom (next_index n')" "\<And>p x. next_index n' p = Some x \<Longrightarrow> x = Suc (length (log n'))"
    unfolding paces_def by blast
  then show "replication_targets n' \<subseteq> dom (next_index n') \<and> (\<forall>p x. next_index n' p = Some x \<longrightarrow> x \<le> Suc (length (log n')))"
  proof cases
    case kept
    have len: "length (log n) \<le> length (log n')" by (rule assms(3) [OF kept(1) lead kept(2)])
    have old: "replication_targets n \<subseteq> dom (next_index n)" "next_index n p = Some y \<Longrightarrow> y \<le> Suc (length (log n))" for p y
      using assms(2) kept(1) by (auto simp: keeps_pace_def)
    have "x \<le> Suc (length (log n'))" if "next_index n' p = Some x" for p x
      using kept(5) [OF that]
    proof (elim disjE exE conjE)
      fix y assume "next_index n p = Some y" "x \<le> y"
      with old(2) len show ?thesis by (meson Suc_le_mono le_trans)
    qed (use assms(4) [OF lead] in auto)
    with kept(3,4) old(1) show ?thesis by blast
  qed auto
qed

lemma pace_operate:
  assumes cinv: "cluster_inv V w" and ok: "world_ok V w a D" and auth: "authentic w i op" and quiet: "quiet_op op"
    and run: "run_op (nodes w i) op = Some (n', es)" and V: "distinct V"
    and disk: "durable_apply_all (disks w i) es = Some d'" and pace: "keeps_pace (nodes w i)"
  shows "keeps_pace n'"
proof (cases "role n' = Leader")
  case lead: True
  have d': "persisted d' n'"
    using persistsD [OF persists_run_op [OF run], of "disks w i"] cluster_inv_node [OF cinv, of i] disk by auto
  have once: "c = c'" if "(i, current_term n', c) \<in> cast w \<union> disk_vote i d'"
    "(i, current_term n', c') \<in> cast w \<union> disk_vote i d'" for c c'
    using cast_once [OF cluster_inv_operate [OF cinv auth run disk], of i "current_term n'" c c'] that by (simp add: carry_out_def)
  obtain b where b: "ledger_steps (majority V) i a b" "terms b i = current_term n'" "logs b i = log n'" "node_ok V b i n'"
    using world_step [OF cinv ok auth quiet run V d' once] by blast
  note a = world_okD(1-3) [OF ok]
  have g: "ledger_inv (majority V) b" "grows a b" using majority_ledger.ledger_inv_steps [OF b(1) a(1)] by simp_all
  have log: "leader_log b (current_term n') = log n'"
    using b(2-4) g(1) lead log_belowD(5) [of b "current_term n'" i] by (simp add: node_ok_def standing_def ledger_inv_def)
  have i: "i \<in> set V" using standing_voter [OF cinv run] lead by simp
  then have config: "current_config n' = current_config (nodes w i)"
    using node_sound_config node_sound_run_op [OF cinv auth run] cluster_inv_node [OF cinv, of i] by metis
  show ?thesis
  proof (rule paces_keeps [OF paces_run_op [OF run world_okD(5) [OF ok] quiet config] pace])
    show "length (log (nodes w i)) \<le> length (log n')"
      if "role (nodes w i) = Leader" "current_term n' = current_term (nodes w i)"
      using leader_holds_log(2) [OF ok that(1)] grows_log [OF g(2), of "current_term n'"] log that(2) by auto
    show "m \<le> length (log n')" if "match_index n' p = Some m" for p m
    proof (cases "m = 0")
      case False
      with b(4) that have "acked b p (current_term n') m" by (auto simp: node_ok_def)
      moreover have "elected (majority V) b" using g(1) by (simp add: ledger_inv_def)
      ultimately show ?thesis using acked_length log by metis
    qed simp
  qed
qed (simp add: keeps_pace_def)

lemma log_cluster_pace: "log_cluster V w D \<Longrightarrow> keeps_pace (nodes w i)"
proof (induction arbitrary: i rule: log_cluster.induct)
  case (boot N)
  then have "role (N i) = Follower" using boot_blank [of i V "N i"] by blast
  then show ?case by (simp add: keeps_pace_def)
next
  case (operate w D j op n' es d')
  obtain a where ok: "world_ok V w a D" using log_cluster_refines [OF operate.hyps(1)] by blast
  have "keeps_pace n'"
    by (rule pace_operate [OF cluster_cluster_inv [OF log_cluster_cluster [OF operate.hyps(1)]] ok operate.hyps(2)
          authentic_quiet [OF ok operate.hyps(2,3)] operate.hyps(4) log_cluster_distinct [OF operate.hyps(1)]
          operate.hyps(5) operate.IH])
  with operate.IH show ?case by (simp add: carry_out_def)
next
  case (crash w D j op n' es k d' timeout heartbeat m)
  have "role m = Follower" using crash.hyps(7) unfolding recover_from_def
    by (auto dest!: recover_Inr(1) simp: recovered_def Let_def)
  with crash.IH show ?case by (simp add: carry_out_def keeps_pace_def)
qed

end
