(* ===== verification/Raft_Progress.thy ===== *)
theory Raft_Progress
  imports Raft_Log_Properties Raft_Pacing
begin

text \<open>
  Progress: a cluster of fixed membership without snapshots can always go on. From every world there
  is a run, of clock ticks and deliveries of messages that were sent, in which some voter is elected,
  every voter's log is brought in line with its log, and the next proposal is committed. Nothing is
  said of how likely that run is.
\<close>

section \<open>Runs in which every operation is an event\<close>

definition calm :: "node_id list \<Rightarrow> world \<Rightarrow> bool" where
  "calm V w \<longleftrightarrow> (\<exists>D. log_cluster V w D)"

inductive runs :: "world \<Rightarrow> world \<Rightarrow> bool" for w where
  stay: "runs w w"
| go: "runs w w' \<Longrightarrow> authentic w' i (Op_Event ev) \<Longrightarrow> step (nodes w' i) ev = Some (n', es) \<Longrightarrow>
     durable_apply_all (disks w' i) es = Some d' \<Longrightarrow> runs w (carry_out i n' d' es w')"

lemma runs_trans [trans]:
  assumes "runs u v" and "runs v w"
  shows "runs u w"
  using assms(2,1) by (induction rule: runs.induct) (auto intro: runs.intros)

lemma runs_sent: "runs w w' \<Longrightarrow> sent w i \<subseteq> sent w' i"
  by (induction rule: runs.induct) (auto simp: carry_out_def)

lemma calm_runs:
  assumes "runs w w'" and "calm V w"
  shows "calm V w'"
  using assms
proof (induction rule: runs.induct)
  case (go w' i ev n' es d')
  then obtain D where D: "log_cluster V w' D" by (auto simp: calm_def)
  have "run_op (nodes w' i) (Op_Event ev) = Some (n', es)" using go.hyps(3) by simp
  from log_cluster.operate [OF D go.hyps(2) _ this go.hyps(4)] show ?case by (auto simp: calm_def)
qed

lemma calm_distinct: "calm V w \<Longrightarrow> distinct V"
  by (auto simp: calm_def dest: log_cluster_distinct)

lemma calm_facts:
  assumes "calm V w"
  shows "plain (nodes w i)" and "node_inv (nodes w i)" and "nid (nodes w i) = i"
    and "i \<in> set V \<Longrightarrow> current_config (nodes w i) = config_of V"
    and "commit_index (nodes w i) \<le> length (log (nodes w i))"
    and "persisted (disks w i) (nodes w i)" and "fits64 (length (log (nodes w i)))"
proof -
  from assms obtain D where D: "log_cluster V w D" by (auto simp: calm_def)
  obtain a where ok: "world_ok V w a D" by (rule world_agrees [OF D])
  note c = cluster_inv_node [OF cluster_cluster_inv [OF log_cluster_cluster [OF D]], of i]
  show plain: "plain (nodes w i)" by (rule world_okD(5) [OF ok])
  show inv: "node_inv (nodes w i)" and "persisted (disks w i) (nodes w i)" "nid (nodes w i) = i"
    using c by (simp_all add: node_sound_def)
  show "current_config (nodes w i) = config_of V" if "i \<in> set V" using c that node_sound_config by blast
  show "commit_index (nodes w i) \<le> length (log (nodes w i))" by (rule settled_length [OF node_settled [OF ok]])
  show "fits64 (length (log (nodes w i)))" using inv plain_boundary [OF plain] by (simp add: node_inv_def)
qed

text \<open>One event more: what the node and the messages are then.\<close>

definition next_world :: "node_id \<Rightarrow> node \<Rightarrow> effect list \<Rightarrow> world \<Rightarrow> world \<Rightarrow> bool" where
  "next_world i n' es w w' \<longleftrightarrow> nodes w' = (nodes w)(i := n') \<and>
     sent w' = (sent w)(i := sent w i \<union> set (filter is_send es))"

lemma runs_step:
  assumes "calm V w" and "authentic w i (Op_Event ev)" and "step (nodes w i) ev = Some (n', es)"
  obtains w' where "runs w w'" "calm V w'" "next_world i n' es w w'"
proof -
  have run: "run_op (nodes w i) (Op_Event ev) = Some (n', es)" using assms(3) by simp
  obtain d' where d': "durable_apply_all (disks w i) es = Some d'"
    using persistsD [OF persists_run_op [OF run calm_facts(2) [OF assms(1)]] calm_facts(6) [OF assms(1)]] by blast
  have "runs w (carry_out i n' d' es w)" by (rule runs.go [OF runs.stay assms(2,3) d'])
  then show thesis
  proof (rule that)
    show "calm V (carry_out i n' d' es w)" by (rule calm_runs [OF \<open>runs w _\<close> assms(1)])
  qed (simp add: next_world_def carry_out_def)
qed

section \<open>Silence leads to a campaign\<close>

lemma waits:
  assumes "calm V w" and "role (nodes w i) \<noteq> Leader"
    and "election_elapsed (nodes w i) + k < election_timeout (nodes w i)"
    and "fits64 (election_elapsed (nodes w i) + k)" and "fits64 (leader_contact_elapsed (nodes w i) + k)"
  shows "\<exists>w'. runs w w' \<and> calm V w' \<and> nodes w' = (nodes w)(i := nodes w i
      \<lparr>election_elapsed := election_elapsed (nodes w i) + k, leader_contact_elapsed := leader_contact_elapsed (nodes w i) + k\<rparr>)
    \<and> sent w' = sent w"
  using assms(3-5)
proof (induction k)
  case 0
  with assms(1) show ?case by (intro exI [of _ w]) (auto intro: runs.stay)
next
  case (Suc k)
  then have "fits64 (election_elapsed (nodes w i) + k)" "fits64 (leader_contact_elapsed (nodes w i) + k)"
    by (auto elim: fits64_mono)
  with Suc obtain w' where w': "runs w w'" "calm V w'" "nodes w' = (nodes w)(i := nodes w i
      \<lparr>election_elapsed := election_elapsed (nodes w i) + k, leader_contact_elapsed := leader_contact_elapsed (nodes w i) + k\<rparr>)"
      "sent w' = sent w" using Suc_lessD [of "election_elapsed (nodes w i) + k"] unfolding add_Suc_right by blast
  let ?n = "nodes w i
      \<lparr>election_elapsed := election_elapsed (nodes w i) + Suc k, leader_contact_elapsed := leader_contact_elapsed (nodes w i) + Suc k\<rparr>"
  have step: "step (nodes w' i) (Tick 1) = Some (?n, [])"
    using Suc.prems assms(2) by (simp add: w'(3) on_tick_def add64_fits Let_def)
  have "authentic w' i (Op_Event (Tick 1))" by simp
  from runs_step [OF w'(2) this step] obtain w'' where "runs w' w''" "calm V w''" "next_world i ?n [] w' w''" .
  with w' show ?case by (intro exI [of _ w'']) (auto simp: next_world_def intro: runs_trans)
qed

definition fresh_leader :: "node \<Rightarrow> bool" where
  "fresh_leader n \<longleftrightarrow> role n = Leader \<and> (\<forall>p \<in> replication_targets n.
     next_index n p = Some (Suc (length (log n))) \<and> match_index n p = Some 0)"

lemma become_leader_total:
  assumes "boundary n = 0" and "fits64 (Suc (length (log n)))"
  shows "\<exists>n' es. become_leader n = Some (n', es) \<and> fresh_leader n'"
proof -
  let ?l = "Suc (length (log n))"
  let ?n = "n\<lparr>role := Leader, heartbeat_elapsed := 0,
       next_index := (\<lambda>p. if p \<in> replication_targets n then Some ?l else None),
       match_index := (\<lambda>p. if p \<in> replication_targets n then Some 0 else None)\<rparr>"
  have l: "last_log_index n = Some (length (log n))" "add64 (length (log n)) 1 = Some ?l"
    using assms fits64_mono [OF assms(2), of "length (log n)"] by (simp_all add: run_simps)
  have targets: "replication_targets ?n = replication_targets n" by (simp add: replication_targets_def)
  have "entries_from ?n ?l = Some []" using assms(1) by (simp add: run_simps)
  then have "\<exists>e. replicate_to ?n p = Some e" if "p \<in> replication_targets n" for p
    using that assms(1) by (simp add: replicate_to_def sub64_le)
  moreover have some_targets: "set (sorted_list_of_set (replication_targets n)) \<subseteq> replication_targets n"
    by (cases "finite (replication_targets n)") simp_all
  ultimately have "\<exists>es. broadcast_replication ?n = Some es"
    unfolding broadcast_replication_def targets
    by (intro collect_total) (use some_targets in blast)
  then show ?thesis using l targets by (auto simp: become_leader_def Let_def fresh_leader_def)
qed

definition ballot_for :: "node \<Rightarrow> request_vote" where
  "ballot_for n = \<lparr>rv_term = current_term n, candidate_id = nid n, rv_last_log_index = length (log n),
     rv_last_log_term = last_log_term n\<rparr>"

lemma collect_mem: "collect f xs = Some ys \<Longrightarrow> x \<in> set xs \<Longrightarrow> f x = Some y \<Longrightarrow> y \<in> set ys"
  by (induction xs arbitrary: ys) (auto simp: run_simps)

lemma become_leader_same: "become_leader n = Some (n', es) \<Longrightarrow> log n' = log n \<and> current_term n' = current_term n \<and>
    election_timeout n' = election_timeout n \<and> election_elapsed n' = election_elapsed n \<and>
    leader_contact_elapsed n' = leader_contact_elapsed n \<and> heartbeat_interval n' = heartbeat_interval n \<and>
    heartbeat_elapsed n' = 0"
  by (auto simp: become_leader_def run_simps)

text \<open>Counting votes leaves the log and the timers alone.\<close>

definition same_log_and_timers :: "node \<Rightarrow> node \<Rightarrow> bool" where
  "same_log_and_timers n n' \<longleftrightarrow> log n' = log n \<and> leader_contact_elapsed n' = leader_contact_elapsed n \<and>
     election_elapsed n' = election_elapsed n \<and> election_timeout n' = election_timeout n \<and>
     heartbeat_interval n' = heartbeat_interval n \<and> heartbeat_elapsed n' \<le> heartbeat_elapsed n"

lemma tick_campaigns:
  assumes "role n \<noteq> Leader" and "election_timeout n \<le> Suc (election_elapsed n)" and "fits64 (Suc (election_elapsed n))"
    and "fits64 (Suc (leader_contact_elapsed n))" and "current_config n = config_of V" and "nid n \<in> set V"
    and "fits64 (Suc (current_term n))" and "boundary n = 0" and "fits64 (Suc (length (log n)))"
  shows "\<exists>n' es. step n (Tick 1) = Some (n', es) \<and> current_term n' = Suc (current_term n) \<and> log n' = log n \<and>
    election_timeout n' = 1 \<and> election_elapsed n' = 0 \<and> leader_contact_elapsed n' = Suc (leader_contact_elapsed n) \<and>
    heartbeat_interval n' = heartbeat_interval n \<and> heartbeat_elapsed n' \<le> heartbeat_elapsed n \<and>
    (fresh_leader n' \<and> length V < 2 \<or> role n' = Candidate \<and> \<not> has_quorum n' \<and> votes_granted n' = {nid n} \<and>
      (\<forall>p \<in> set V - {nid n}. Send p (RequestVote (ballot_for n')) \<in> set es))"
proof -
  define n0 where "n0 = n\<lparr>election_elapsed := Suc (election_elapsed n), leader_contact_elapsed := Suc (leader_contact_elapsed n)\<rparr>"
  define m where "m = become_candidate n0 (Suc (current_term n)) 1"
  have tick: "step n (Tick 1) = start_election n0 1"
    using assms(1-4) by (simp add: on_tick_def add64_fits n0_def)
  have n0: "current_config n0 = config_of V" "nid n0 = nid n" "current_term n0 = current_term n"
    using assms(5) by (simp_all add: n0_def)
  have voter: "is_voter (current_config n0) (nid n0)" using n0 assms(6) by (simp add: is_voter_def)
  have m: "current_term m = Suc (current_term n)" "log m = log n" "election_timeout m = 1" "election_elapsed m = 0"
    "leader_contact_elapsed m = Suc (leader_contact_elapsed n)" "nid m = nid n" "boundary m = 0" "role m = Candidate"
    "votes_granted m = {nid n}" "current_config m = config_of V" "voted_for m = Some (nid n)"
    "heartbeat_interval m = heartbeat_interval n" "heartbeat_elapsed m = heartbeat_elapsed n"
    using assms(5,8) by (simp_all add: m_def n0_def become_candidate_def)
  have t: "add64 (current_term n0) 1 = Some (Suc (current_term n))" using assms(7) n0 by (simp add: add64_fits)
  have start: "start_election n0 1 = (if has_quorum m then do {
          (n'', effects) \<leftarrow> become_leader m;
          Some (n'', PersistHardState (current_term m) (voted_for m) # effects)
        } else do {
          effects \<leftarrow> collect
            (\<lambda>peer. do {
               last \<leftarrow> last_log_index m;
               Some (Send peer (RequestVote \<lparr>rv_term = current_term m, candidate_id = nid m,
                 rv_last_log_index = last, rv_last_log_term = last_log_term m\<rparr>))
             })
            (filter (\<lambda>peer. peer \<noteq> nid m) (voters (current_config m)));
          Some (m, PersistHardState (current_term m) (voted_for m) # effects)
        })"
    using voter t unfolding start_election_def m_def by (simp add: Let_def)
  have last: "last_log_index m = Some (length (log n))"
    using m fits64_mono [OF assms(9), of "length (log n)"] by (simp add: run_simps)
  show ?thesis
  proof (cases "has_quorum m")
    case True
    obtain n' es where lead: "become_leader m = Some (n', es)" "fresh_leader n'"
      using become_leader_total [of m] m assms(9) by auto
    have "length V < 2" using True m by (simp add: has_quorum_def quorum_size_def Let_def)
    with lead tick start True become_leader_same [OF lead(1)] m show ?thesis by simp
  next
    case False
    let ?f = "\<lambda>peer. do {
               last \<leftarrow> last_log_index m;
               Some (Send peer (RequestVote \<lparr>rv_term = current_term m, candidate_id = nid m,
                 rv_last_log_index = last, rv_last_log_term = last_log_term m\<rparr>))
             }"
    have f: "?f p = Some (Send p (RequestVote (ballot_for m)))" for p
      using last m(2) by (simp add: ballot_for_def)
    obtain es where es: "collect ?f (filter (\<lambda>peer. peer \<noteq> nid m) (voters (current_config m))) = Some es"
      using collect_total f by metis
    with start False have "start_election n0 1 = Some (m, PersistHardState (current_term m) (voted_for m) # es)" by simp
    moreover have "\<forall>p \<in> set V - {nid n}. Send p (RequestVote (ballot_for m)) \<in> set es"
      using collect_mem [OF es _ f] m by auto
    ultimately show ?thesis using tick m False by auto
  qed
qed

lemma grants:
  assumes "role n \<noteq> Leader" and "current_term n < rv_term r" and "current_config n = config_of V"
    and "candidate_id r \<in> set V" and "boundary n = 0" and "fits64 (length (log n))"
    and "log_is_up_to_date r (last_log_term n) (length (log n))"
  shows "\<exists>n' es. step n (Step (candidate_id r) (RequestVote r)) = Some (n', es) \<and>
    role n' = Follower \<and> current_term n' = rv_term r \<and> log n' = log n \<and>
    Send (candidate_id r) (RequestVoteResponse \<lparr>rvr_term = rv_term r, granted = True\<rparr>) \<in> set es"
proof -
  define m where "m = step_down n (rv_term r)"
  have "is_member n (candidate_id r)" using assms(3,4) by (simp add: is_member_def is_voter_def)
  moreover have "last_log_index m = Some (length (log n))"
    using assms(5,6) by (simp add: run_simps step_down_def m_def)
  moreover have "last_log_term m = last_log_term n" "voted_for m = None" "current_term m = rv_term r"
    "log m = log n" "role m = Follower"
    by (simp_all add: m_def step_down_def last_log_term_def)
  ultimately show ?thesis
    using assms by (simp add: on_request_vote_def Let_def m_def [symmetric])
qed

lemma counts:
  assumes "role n = Candidate" and "current_config n = config_of V" and "p \<in> set V"
    and "boundary n = 0" and "fits64 (Suc (length (log n)))"
  shows "\<exists>n' es. step n (Step p (RequestVoteResponse \<lparr>rvr_term = current_term n, granted = True\<rparr>)) = Some (n', es) \<and>
    current_term n' = current_term n \<and> same_log_and_timers n n' \<and>
    (fresh_leader n' \<or> role n' = Candidate \<and> \<not> has_quorum n' \<and> votes_granted n' = insert p (votes_granted n))"
proof -
  define m where "m = n\<lparr>votes_granted := insert p (votes_granted n)\<rparr>"
  have member: "is_member n p" using assms(2,3) by (simp add: is_member_def is_voter_def)
  have m: "current_term m = current_term n" "log m = log n" "role m = Candidate" "boundary m = 0"
    "votes_granted m = insert p (votes_granted n)" "same_log_and_timers n m"
    using assms by (simp_all add: m_def same_log_and_timers_def)
  have step: "step n (Step p (RequestVoteResponse \<lparr>rvr_term = current_term n, granted = True\<rparr>)) =
      (if has_quorum m then become_leader m else Some (m, []))"
    using member assms(1) by (simp add: on_request_vote_response_def Let_def m_def)
  show ?thesis
  proof (cases "has_quorum m")
    case True
    obtain n' es where lead: "become_leader m = Some (n', es)" "fresh_leader n'"
      using become_leader_total [of m] m assms(5) by auto
    with step True become_leader_same [OF lead(1)] m show ?thesis by (simp add: same_log_and_timers_def)
  next
    case False
    with step m show ?thesis by simp
  qed
qed

section \<open>A campaign that every voter hears of succeeds\<close>

text \<open>A voter that will grant the ballot.\<close>

definition willing :: "request_vote \<Rightarrow> node \<Rightarrow> bool" where
  "willing r n \<longleftrightarrow> role n \<noteq> Leader \<and> current_term n < rv_term r \<and> log_is_up_to_date r (last_log_term n) (length (log n))"

lemma quorum_of_all:
  assumes "node_inv n" and "current_config n = config_of V" and "distinct V" and "V \<noteq> []" and "set V \<subseteq> votes_granted n"
  shows "has_quorum n"
proof -
  have "length V \<le> card (votes_granted n)"
    using card_mono [OF _ assms(5)] assms(1,3) by (simp add: node_inv_def distinct_card)
  moreover have "length V div 2 + 1 \<le> length V" using assms(4) by (cases V) auto
  ultimately show ?thesis using assms(2) by (simp add: has_quorum_def quorum_size_def Let_def)
qed

lemma gather:
  assumes "calm V w" and "i \<in> set V" and "role (nodes w i) = Candidate" and "\<not> has_quorum (nodes w i)"
    and "fits64 (Suc (length (log (nodes w i))))" and "rv_term r = current_term (nodes w i)" and "candidate_id r = i"
    and "\<And>p. p \<in> set ps \<Longrightarrow> p \<in> set V \<and> p \<noteq> i \<and> willing r (nodes w p) \<and> Send p (RequestVote r) \<in> sent w i"
    and "distinct ps" and "set V \<subseteq> votes_granted (nodes w i) \<union> set ps"
  shows "\<exists>w'. runs w w' \<and> calm V w' \<and> fresh_leader (nodes w' i) \<and> current_term (nodes w' i) = rv_term r \<and>
    same_log_and_timers (nodes w i) (nodes w' i) \<and> (\<forall>p. p \<noteq> i \<longrightarrow>
      nodes w' p = nodes w p \<or> role (nodes w' p) = Follower \<and> current_term (nodes w' p) = rv_term r)"
  using assms
proof (induction ps arbitrary: w)
  case Nil
  note c = calm_facts [OF Nil.prems(1), of i]
  have "has_quorum (nodes w i)"
    using quorum_of_all [OF c(2) c(4) [OF Nil.prems(2)] calm_distinct [OF Nil.prems(1)]] Nil.prems(2,10) by (cases V) auto
  with Nil.prems(4) show ?case by simp
next
  case (Cons p ps)
  have p: "p \<in> set V" "p \<noteq> i" "willing r (nodes w p)" "Send p (RequestVote r) \<in> sent w i"
    using Cons.prems(8) [of p] by auto
  note cp = calm_facts [OF Cons.prems(1), of p] and ci = calm_facts [OF Cons.prems(1), of i]
  obtain np es where grant: "step (nodes w p) (Step i (RequestVote r)) = Some (np, es)"
    "role np = Follower" "current_term np = rv_term r"
    "Send i (RequestVoteResponse \<lparr>rvr_term = rv_term r, granted = True\<rparr>) \<in> set es"
    using grants [OF _ _ cp(4) [OF p(1)] _ plain_boundary [OF cp(1)] cp(7)] p(3) Cons.prems(2,7)
    unfolding willing_def by blast
  have "authentic w p (Op_Event (Step i (RequestVote r)))" using p(4) by simp
  from runs_step [OF Cons.prems(1) this grant(1)]
  obtain w1 where w1: "runs w w1" "calm V w1" "next_world p np es w w1" .
  have i1: "nodes w1 i = nodes w i" using w1(3) p(2) by (simp add: next_world_def)
  obtain ni es' where count: "step (nodes w i) (Step p (RequestVoteResponse \<lparr>rvr_term = current_term (nodes w i), granted = True\<rparr>)) = Some (ni, es')"
    "current_term ni = current_term (nodes w i)" "same_log_and_timers (nodes w i) ni"
    "fresh_leader ni \<or> role ni = Candidate \<and> \<not> has_quorum ni \<and> votes_granted ni = insert p (votes_granted (nodes w i))"
    using counts [OF Cons.prems(3) ci(4) [OF Cons.prems(2)] p(1) plain_boundary [OF ci(1)] Cons.prems(5)] by blast
  have "authentic w1 i (Op_Event (Step p (RequestVoteResponse \<lparr>rvr_term = current_term (nodes w i), granted = True\<rparr>)))"
    using w1(3) grant(4) Cons.prems(6) by (simp add: next_world_def)
  from runs_step [OF w1(2) this, unfolded i1, OF count(1)]
  obtain w2 where w2: "runs w1 w2" "calm V w2" "next_world i ni es' w1 w2" .
  have run2: "runs w w2" using w1(1) w2(1) by (rule runs_trans)
  have nodes2: "nodes w2 = (nodes w)(p := np, i := ni)" using w1(3) w2(3) by (simp add: next_world_def)
  have others: "nodes w2 q = nodes w q \<or> role (nodes w2 q) = Follower \<and> current_term (nodes w2 q) = rv_term r"
    if "q \<noteq> i" for q using that grant(2,3) by (simp add: nodes2)
  show ?case
  proof (cases "fresh_leader ni")
    case True
    with run2 w2(2) others count(2,3) Cons.prems(6) show ?thesis by (intro exI [of _ w2]) (simp add: nodes2)
  next
    case False
    with count(4) have cand: "role ni = Candidate" "\<not> has_quorum ni"
      "votes_granted ni = insert p (votes_granted (nodes w i))" by blast+
    have "\<exists>w'. runs w2 w' \<and> calm V w' \<and> fresh_leader (nodes w' i) \<and> current_term (nodes w' i) = rv_term r \<and>
        same_log_and_timers (nodes w2 i) (nodes w' i) \<and> (\<forall>q. q \<noteq> i \<longrightarrow>
          nodes w' q = nodes w2 q \<or> role (nodes w' q) = Follower \<and> current_term (nodes w' q) = rv_term r)"
    proof (rule Cons.IH [OF w2(2) Cons.prems(2)])
      fix q assume q: "q \<in> set ps"
      then have "q \<noteq> p" using Cons.prems(9) by auto
      with q Cons.prems(8) [of q] runs_sent [OF run2, of i]
      show "q \<in> set V \<and> q \<noteq> i \<and> willing r (nodes w2 q) \<and> Send q (RequestVote r) \<in> sent w2 i"
        by (auto simp: nodes2)
    qed (use cand count(2,3) Cons.prems(5-7,9,10) in \<open>auto simp: nodes2 same_log_and_timers_def\<close>)
    then obtain w' where w': "runs w2 w'" "calm V w'" "fresh_leader (nodes w' i)" "current_term (nodes w' i) = rv_term r"
      "same_log_and_timers (nodes w2 i) (nodes w' i)" "\<And>q. q \<noteq> i \<Longrightarrow>
          nodes w' q = nodes w2 q \<or> role (nodes w' q) = Follower \<and> current_term (nodes w' q) = rv_term r" by blast
    have "nodes w' q = nodes w q \<or> role (nodes w' q) = Follower \<and> current_term (nodes w' q) = rv_term r"
      if "q \<noteq> i" for q using w'(6) [OF that] others [OF that] by auto
    moreover have "runs w w'" using run2 w'(1) by (rule runs_trans)
    ultimately show ?thesis using w'(2-5) count(3) by (intro exI [of _ w']) (simp add: nodes2 same_log_and_timers_def)
  qed
qed

text \<open>A voter that would grant its vote to \<open>i\<close> in the next term of \<open>i\<close>.\<close>

definition follows :: "node \<Rightarrow> node \<Rightarrow> bool" where
  "follows n p \<longleftrightarrow> role p \<noteq> Leader \<and> current_term p \<le> current_term n \<and>
     (last_log_term p < last_log_term n \<or> last_log_term p = last_log_term n \<and> length (log p) \<le> length (log n))"

lemma last_log_term_same: "log m = log n \<Longrightarrow> snapshot m = snapshot n \<Longrightarrow> last_log_term m = last_log_term n"
  by (simp add: last_log_term_def)

lemma campaign_succeeds:
  assumes "calm V w" and "i \<in> set V" and "role (nodes w i) \<noteq> Leader"
    and "election_timeout (nodes w i) \<le> Suc (election_elapsed (nodes w i))"
    and "fits64 (Suc (election_elapsed (nodes w i)))" and "fits64 (Suc (leader_contact_elapsed (nodes w i)))"
    and "fits64 (Suc (current_term (nodes w i)))" and "fits64 (Suc (length (log (nodes w i))))"
    and "\<And>p. p \<in> set V \<Longrightarrow> p \<noteq> i \<Longrightarrow> follows (nodes w i) (nodes w p)"
  shows "\<exists>w'. runs w w' \<and> calm V w' \<and> fresh_leader (nodes w' i) \<and>
    current_term (nodes w' i) = Suc (current_term (nodes w i)) \<and> log (nodes w' i) = log (nodes w i) \<and>
    election_timeout (nodes w' i) = 1 \<and> election_elapsed (nodes w' i) = 0 \<and>
    leader_contact_elapsed (nodes w' i) = Suc (leader_contact_elapsed (nodes w i)) \<and>
    heartbeat_interval (nodes w' i) = heartbeat_interval (nodes w i) \<and> heartbeat_elapsed (nodes w' i) \<le> heartbeat_elapsed (nodes w i) \<and>
    (\<forall>p. p \<noteq> i \<longrightarrow> nodes w' p = nodes w p \<or>
      role (nodes w' p) = Follower \<and> current_term (nodes w' p) = Suc (current_term (nodes w i)))"
proof -
  note c = calm_facts [OF assms(1), of i]
  obtain n' es where tick: "step (nodes w i) (Tick 1) = Some (n', es)" "current_term n' = Suc (current_term (nodes w i))"
    "log n' = log (nodes w i)" "election_timeout n' = 1 \<and> election_elapsed n' = 0 \<and>
      leader_contact_elapsed n' = Suc (leader_contact_elapsed (nodes w i)) \<and>
      heartbeat_interval n' = heartbeat_interval (nodes w i) \<and> heartbeat_elapsed n' \<le> heartbeat_elapsed (nodes w i)"
    "fresh_leader n' \<or> role n' = Candidate \<and> \<not> has_quorum n' \<and> votes_granted n' = {i} \<and>
      (\<forall>p \<in> set V - {i}. Send p (RequestVote (ballot_for n')) \<in> set es)"
    using tick_campaigns [OF assms(3-6) c(4) [OF assms(2)] _ assms(7) plain_boundary [OF c(1)] assms(8)] assms(2)
    unfolding c(3) by blast
  have "authentic w i (Op_Event (Tick 1))" by simp
  from runs_step [OF assms(1) this tick(1)] obtain w1 where w1: "runs w w1" "calm V w1" "next_world i n' es w w1" .
  have nodes1: "nodes w1 = (nodes w)(i := n')" using w1(3) by (simp add: next_world_def)
  show ?thesis
  proof (cases "fresh_leader n'")
    case True
    with w1 tick(2-4) show ?thesis by (intro exI [of _ w1]) (simp add: nodes1)
  next
    case False
    with tick(5) have cand: "role n' = Candidate" "\<not> has_quorum n'" "votes_granted n' = {i}"
      "\<And>p. p \<in> set V - {i} \<Longrightarrow> Send p (RequestVote (ballot_for n')) \<in> set es" by blast+
    note c1 = calm_facts [OF w1(2), of i]
    have n': "nid n' = i" "plain n'" using c1(3,1) by (simp_all add: nodes1)
    let ?r = "ballot_for n'"
    have r: "rv_term ?r = Suc (current_term (nodes w i))" "candidate_id ?r = i"
      using tick(2) n' by (simp_all add: ballot_for_def)
    have newest: "last_log_term n' = last_log_term (nodes w i)"
      using tick(3) n'(2) c(1) by (intro last_log_term_same) (simp_all add: plain_def)
    have willing: "willing ?r (nodes w1 p)" if "p \<in> set V" "p \<noteq> i" for p
      using assms(9) [OF that] that(2) tick(2,3) newest
      by (auto simp: willing_def follows_def nodes1 ballot_for_def log_is_up_to_date_def)
    have "\<exists>w'. runs w1 w' \<and> calm V w' \<and> fresh_leader (nodes w' i) \<and> current_term (nodes w' i) = rv_term ?r \<and>
        same_log_and_timers (nodes w1 i) (nodes w' i) \<and> (\<forall>p. p \<noteq> i \<longrightarrow>
          nodes w' p = nodes w1 p \<or> role (nodes w' p) = Follower \<and> current_term (nodes w' p) = rv_term ?r)"
    proof (rule gather [OF w1(2) assms(2)])
      show "p \<in> set V \<and> p \<noteq> i \<and> willing ?r (nodes w1 p) \<and> Send p (RequestVote ?r) \<in> sent w1 i"
        if "p \<in> set (filter (\<lambda>p. p \<noteq> i) V)" for p
        using that willing cand(4) w1(3) by (auto simp: next_world_def)
      show "distinct (filter (\<lambda>p. p \<noteq> i) V)" using calm_distinct [OF assms(1)] by simp
      show "set V \<subseteq> votes_granted (nodes w1 i) \<union> set (filter (\<lambda>p. p \<noteq> i) V)" using cand(3) by (auto simp: nodes1)
    qed (use cand(1,2) tick(3) assms(8) r in \<open>simp_all add: nodes1 ballot_for_def\<close>)
    then obtain w' where w': "runs w1 w'" "calm V w'" "fresh_leader (nodes w' i)" "current_term (nodes w' i) = rv_term ?r"
      "same_log_and_timers (nodes w1 i) (nodes w' i)" "\<And>p. p \<noteq> i \<Longrightarrow>
          nodes w' p = nodes w1 p \<or> role (nodes w' p) = Follower \<and> current_term (nodes w' p) = rv_term ?r" by blast
    have "nodes w' p = nodes w p \<or> role (nodes w' p) = Follower \<and> current_term (nodes w' p) = Suc (current_term (nodes w i))"
      if "p \<noteq> i" for p using w'(6) [OF that] that r(1) by (simp add: nodes1)
    moreover have "runs w w'" using w1(1) w'(1) by (rule runs_trans)
    ultimately show ?thesis using w'(2-5) r(1) tick(3,4)
      by (intro exI [of _ w']) (auto simp: nodes1 same_log_and_timers_def)
  qed
qed

text \<open>Counters far from overflow.\<close>

definition modest :: "nat \<Rightarrow> node \<Rightarrow> bool" where
  "modest b n \<longleftrightarrow> current_term n < b \<and> length (log n) < b \<and> election_elapsed n < b \<and> election_timeout n < b \<and>
     leader_contact_elapsed n < b \<and> heartbeat_elapsed n < b \<and> heartbeat_interval n < b"

lemma modest_mono: "modest b n \<Longrightarrow> b \<le> c \<Longrightarrow> modest c n"
  by (auto simp: modest_def)

lemma fits64_sum: "a < 2 ^ 62 \<Longrightarrow> b < 2 ^ 62 \<Longrightarrow> c < 2 ^ 62 \<Longrightarrow> fits64 (a + b + Suc c)"
  by (simp add: fits64_def)

section \<open>A leader sends heartbeats\<close>

definition batch_from :: "node \<Rightarrow> u64 \<Rightarrow> append_entries" where
  "batch_from n x = \<lparr>ae_term = current_term n, ae_leader_id = nid n, prev_log_index = x - 1,
     prev_log_term = (case log_term_at n (x - 1) of Some t \<Rightarrow> t | None \<Rightarrow> 0),
     entries = drop (x - 1) (log n), leader_commit = commit_index n\<rparr>"

lemma replicate_batch:
  assumes "next_index n p = Some x" and "boundary n = 0" and "0 < x" and "x \<le> Suc (length (log n))"
  shows "replicate_to n p = Some (Send p (AppendEntries (batch_from n x)))"
proof -
  have "entries_from n x = Some (drop (x - 1) (log n))" using assms by (simp add: run_simps)
  with assms show ?thesis by (simp add: replicate_to_def batch_from_def sub64_le)
qed

lemma calm_pace: "calm V w \<Longrightarrow> keeps_pace (nodes w i)"
  by (auto simp: calm_def intro: log_cluster_pace)

lemma leader_next:
  assumes "calm V w" and "role (nodes w i) = Leader" and "p \<in> replication_targets (nodes w i)"
  obtains x where "next_index (nodes w i) p = Some x" "0 < x" "x \<le> Suc (length (log (nodes w i)))"
proof -
  have "p \<in> dom (next_index (nodes w i))" using calm_pace [OF assms(1), of i] assms(2,3) by (auto simp: keeps_pace_def)
  then obtain x where x: "next_index (nodes w i) p = Some x" by blast
  moreover have "0 < x" using calm_facts(2) [OF assms(1), of i] x by (simp add: node_inv_def progress_ok_def)
  moreover have "x \<le> Suc (length (log (nodes w i)))"
    using calm_pace [OF assms(1), of i] assms(2) x by (auto simp: keeps_pace_def)
  ultimately show thesis by (rule that)
qed

lemma leader_broadcasts:
  assumes "calm V w" and "role (nodes w i) = Leader" and "plain m" and "log m = log (nodes w i)"
    and "next_index m = next_index (nodes w i)" and "replication_targets m = replication_targets (nodes w i)"
  shows "\<exists>es. broadcast_replication m = Some es"
  unfolding broadcast_replication_def
proof (rule collect_total)
  fix p assume "p \<in> set (sorted_list_of_set (replication_targets m))"
  then have "p \<in> replication_targets (nodes w i)" using assms(6) by (cases "finite (replication_targets m)") auto
  from leader_next [OF assms(1,2) this] obtain x where
    "next_index (nodes w i) p = Some x" "0 < x" "x \<le> Suc (length (log (nodes w i)))" .
  with assms(3-5) replicate_batch [of m p x] show "\<exists>y. replicate_to m p = Some y" by auto
qed

lemma leader_waits:
  assumes "calm V w" and "role (nodes w i) = Leader"
    and "heartbeat_elapsed (nodes w i) + k < heartbeat_interval (nodes w i)"
    and "fits64 (heartbeat_elapsed (nodes w i) + k)" and "fits64 (leader_contact_elapsed (nodes w i) + k)"
  shows "\<exists>w'. runs w w' \<and> calm V w' \<and> nodes w' = (nodes w)(i := nodes w i
      \<lparr>heartbeat_elapsed := heartbeat_elapsed (nodes w i) + k, leader_contact_elapsed := leader_contact_elapsed (nodes w i) + k\<rparr>)"
  using assms(3-5)
proof (induction k)
  case 0
  with assms(1) show ?case by (intro exI [of _ w]) (auto intro: runs.stay)
next
  case (Suc k)
  let ?s = "\<lambda>k. nodes w i
      \<lparr>heartbeat_elapsed := heartbeat_elapsed (nodes w i) + k, leader_contact_elapsed := leader_contact_elapsed (nodes w i) + k\<rparr>"
  have "fits64 (heartbeat_elapsed (nodes w i) + k)" "fits64 (leader_contact_elapsed (nodes w i) + k)"
    using Suc.prems(2,3) by (auto elim: fits64_mono)
  with Suc obtain w' where w': "runs w w'" "calm V w'" "nodes w' = (nodes w)(i := ?s k)"
    using Suc_lessD [of "heartbeat_elapsed (nodes w i) + k"] unfolding add_Suc_right by blast
  have step: "step (nodes w' i) (Tick 1) = Some (?s (Suc k), [])"
    using Suc.prems assms(2) by (simp add: w'(3) on_tick_def on_leader_tick_def add64_fits Let_def)
  have "authentic w' i (Op_Event (Tick 1))" by simp
  from runs_step [OF w'(2) this step] obtain w'' where "runs w' w''" "calm V w''" "next_world i (?s (Suc k)) [] w' w''" .
  with w' show ?case by (intro exI [of _ w'']) (auto simp: next_world_def intro: runs_trans)
qed

lemma leader_tick:
  assumes "calm V w" and "role (nodes w i) = Leader" 
    and "heartbeat_interval (nodes w i) \<le> Suc (heartbeat_elapsed (nodes w i))"
    and "fits64 (Suc (heartbeat_elapsed (nodes w i)))" and "fits64 (Suc (leader_contact_elapsed (nodes w i)))"
  shows "\<exists>n' es. step (nodes w i) (Tick 1) = Some (n', es) \<and>
    n' = nodes w i\<lparr>leader_contact_elapsed := Suc (leader_contact_elapsed (nodes w i)), heartbeat_elapsed := 0\<rparr> \<and>
    (\<forall>p \<in> replication_targets (nodes w i). \<forall>x. next_index (nodes w i) p = Some x \<longrightarrow>
      Send p (AppendEntries (batch_from (nodes w i) x)) \<in> set es)"
proof -
  let ?n = "nodes w i"
  define m where "m = ?n\<lparr>leader_contact_elapsed := Suc (leader_contact_elapsed ?n), heartbeat_elapsed := 0\<rparr>"
  note c = calm_facts [OF assms(1), of i]
  have inv: "node_inv m" using c(2) by (simp add: m_def node_inv_def config_in_force_def)
  have m: "plain m" "log m = log ?n" "next_index m = next_index ?n" "replication_targets m = replication_targets ?n"
    using c(1) inv by (simp_all add: m_def replication_targets_def plain_def steady_def)
  have batch: "batch_from m x = batch_from ?n x" for x
    by (simp add: m_def batch_from_def log_term_at_def log_entry_at_def)
  obtain es where es: "broadcast_replication m = Some es" using leader_broadcasts [OF assms(1,2) m] by blast
  have tick: "step ?n (Tick 1) = Some (m, es)"
    using assms(2-5) es by (simp add: on_tick_def on_leader_tick_def add64_fits Let_def m_def)
  have fin: "finite (replication_targets ?n)" using c(2)
    by (cases "old_voters (current_config ?n)") (simp_all add: replication_targets_def node_inv_def)
  have "Send p (AppendEntries (batch_from ?n x)) \<in> set es"
    if p: "p \<in> replication_targets ?n" "next_index ?n p = Some x" for p x
  proof -
    from leader_next [OF assms(1,2) p(1)] p(2) have "0 < x" "x \<le> Suc (length (log ?n))" by auto
    then have "replicate_to m p = Some (Send p (AppendEntries (batch_from ?n x)))"
      using replicate_batch [of m p x] p(2) m plain_boundary [OF m(1)] batch by simp
    with collect_mem [OF es [unfolded broadcast_replication_def]] p(1) fin m(4) show ?thesis by simp
  qed
  with tick show ?thesis unfolding m_def by blast
qed

text \<open>All peers are sent what they are due.\<close>

lemma heartbeat:
  assumes "calm V w" and "role (nodes w i) = Leader" and "modest (2 ^ 62) (nodes w i)"
  shows "\<exists>w' n. runs w w' \<and> calm V w' \<and> nodes w' = (nodes w)(i := n) \<and>
    (\<exists>c. c \<le> leader_contact_elapsed (nodes w i) + Suc (heartbeat_interval (nodes w i)) \<and>
      n = nodes w i\<lparr>heartbeat_elapsed := 0, leader_contact_elapsed := c\<rparr>) \<and>
    (\<forall>p \<in> replication_targets (nodes w i). \<forall>x. next_index (nodes w i) p = Some x \<longrightarrow>
      Send p (AppendEntries (batch_from (nodes w i) x)) \<in> sent w' i)"
proof -
  let ?n = "nodes w i"
  define k where "k = heartbeat_interval ?n - Suc (heartbeat_elapsed ?n)"
  have small: "heartbeat_elapsed ?n < 2 ^ 62" "leader_contact_elapsed ?n < 2 ^ 62" "k < 2 ^ 62"
    using assms(3) by (auto simp: modest_def k_def)
  have fits: "fits64 (Suc (heartbeat_elapsed ?n + k))" "fits64 (Suc (leader_contact_elapsed ?n + k))"
    using fits64_sum [OF small(1,3), of 0] fits64_sum [OF small(2,3), of 0] by simp_all
  define n where "n = ?n\<lparr>heartbeat_elapsed := heartbeat_elapsed ?n + k, leader_contact_elapsed := leader_contact_elapsed ?n + k\<rparr>"
  have "\<exists>w1. runs w w1 \<and> calm V w1 \<and> nodes w1 = (nodes w)(i := n)"
  proof (cases "k = 0")
    case True
    with assms(1) show ?thesis by (intro exI [of _ w]) (simp add: n_def runs.stay)
  next
    case False
    then have "heartbeat_elapsed ?n + k < heartbeat_interval ?n" by (simp add: k_def)
    from leader_waits [OF assms(1,2) this fits64_mono [OF fits(1)] fits64_mono [OF fits(2)]] show ?thesis
      unfolding n_def by fastforce
  qed
  then obtain w1 where w1: "runs w w1" "calm V w1" "nodes w1 = (nodes w)(i := n)" by blast
  have n: "role n = Leader" "heartbeat_interval n = heartbeat_interval ?n" "heartbeat_elapsed n = heartbeat_elapsed ?n + k"
    "leader_contact_elapsed n = leader_contact_elapsed ?n + k" "next_index n = next_index ?n"
    "replication_targets n = replication_targets ?n" "batch_from n x = batch_from ?n x" for x
    using assms(2) by (simp_all add: n_def replication_targets_def batch_from_def log_term_at_def log_entry_at_def)
  have w1i: "nodes w1 i = n" by (simp add: w1(3))
  have due: "heartbeat_interval n \<le> Suc (heartbeat_elapsed n)" "fits64 (Suc (heartbeat_elapsed n))"
    "fits64 (Suc (leader_contact_elapsed n))" using fits by (simp_all add: n k_def)
  obtain n' es where tick: "step n (Tick 1) = Some (n', es)"
    "n' = n\<lparr>leader_contact_elapsed := Suc (leader_contact_elapsed n), heartbeat_elapsed := 0\<rparr>"
    "\<And>p x. p \<in> replication_targets ?n \<Longrightarrow> next_index ?n p = Some x \<Longrightarrow> Send p (AppendEntries (batch_from ?n x)) \<in> set es"
    using leader_tick [OF w1(2), of i, unfolded w1i, OF n(1) due] unfolding n(5-7) by blast
  have "authentic w1 i (Op_Event (Tick 1))" by simp
  from runs_step [OF w1(2) this, unfolded w1i, OF tick(1)]
  obtain w2 where w2: "runs w1 w2" "calm V w2" "next_world i n' es w1 w2" .
  have "n' = ?n\<lparr>heartbeat_elapsed := 0, leader_contact_elapsed := leader_contact_elapsed ?n + Suc k\<rparr>"
    by (simp add: tick(2) n_def)
  moreover have "leader_contact_elapsed ?n + Suc k \<le> leader_contact_elapsed ?n + Suc (heartbeat_interval ?n)" by (simp add: k_def)
  moreover have "nodes w2 = (nodes w)(i := n')" using w2(3) w1(3) by (simp add: next_world_def)
  moreover have "Send p (AppendEntries (batch_from ?n x)) \<in> sent w2 i"
    if "p \<in> replication_targets ?n" "next_index ?n p = Some x" for p x
    using tick(3) [OF that] w2(3) by (simp add: next_world_def)
  moreover have "runs w w2" using w1(1) w2(1) by (rule runs_trans)
  ultimately show ?thesis using w2(2) by blast
qed

section \<open>The leader commits what a majority holds\<close>

lemma quorum_match_total:
  assumes "fits64 (boundary n + length (log n))" and "vs \<noteq> []"
  shows "\<exists>c. quorum_match n vs = Some c"
proof -
  let ?f = "\<lambda>peer. if peer = nid n then last_log_index n
               else Some (case match_index n peer of Some m \<Rightarrow> m | None \<Rightarrow> 0)"
  have "\<exists>y. ?f x = Some y" for x using assms(1) by (simp add: last_log_index_def add64_fits)
  then obtain ms where ms: "collect ?f vs = Some ms" using collect_total [of vs ?f] by blast
  then have "length ms = length vs" by (simp add: collect_eq_Some list_all2_lengthD)
  moreover have "length vs div 2 + 1 \<le> length vs" using assms(2) by (cases vs) auto
  ultimately show ?thesis using ms assms(2) by (simp add: quorum_match_def sub64_le Let_def)
qed

lemma advance_total:
  assumes "current_config n = config_of V" and "nid n \<in> set V" and "boundary n = 0" and "fits64 (length (log n))"
    and bound: "\<And>p m. match_index n p = Some m \<Longrightarrow> m \<le> length (log n)" and "commit_index n \<le> length (log n)"
  shows "\<exists>c. advance_commit_index n = Some (n\<lparr>commit_index := c\<rparr>, []) \<and> commit_index n \<le> c \<and> c \<le> length (log n) \<and>
    (majority_reached V (\<lambda>p. length (log n) \<le> held n p) \<longrightarrow> log n \<noteq> [] \<longrightarrow>
      entry_term (last (log n)) = current_term n \<longrightarrow> c = length (log n))"
proof -
  have "V \<noteq> []" using assms(2) by auto
  then obtain q where q: "quorum_match n V = Some q"
    using quorum_match_total [of n V] assms(3,4) by auto
  have held: "held n p \<le> length (log n)" for p
    using bound [of p] assms(3) by (auto simp: held_def split: option.split)
  have "q \<in> set (sort (map (held n) V))"
    unfolding quorum_match_eq(2) [OF q] using quorum_match_eq(1) [OF q] by (intro nth_mem) auto
  then have le: "q \<le> length (log n)" using held by auto
  have cand: "commit_candidate n = Some q" using assms(1) q by (simp add: commit_candidate_def)
  define c where "c = (if commit_index n < q \<and> log_term_at n q = Some (current_term n) then q else commit_index n)"
  have point: "advance_point n = Some (n\<lparr>commit_index := c\<rparr>)"
    using cand by (simp add: advance_point_def c_def)
  have "advance_commit_index n = Some (n\<lparr>commit_index := c\<rparr>, [])"
    using point assms(1,2)
    by (subst advance_commit_index.simps) (simp add: joint_committed_def retire_if_excluded_def)
  moreover have "c = length (log n)" if maj: "majority_reached V (\<lambda>p. length (log n) \<le> held n p)"
    and log: "log n \<noteq> []" "entry_term (last (log n)) = current_term n"
  proof -
    have q': "q = length (log n)" using maj quorum_match_majority [OF q] le by auto
    have "log_term_at n q = Some (current_term n)"
      using log assms(3) by (simp add: q' log_term_at_def log_entry_at_def last_conv_nth)
    with q' assms(6) show ?thesis by (simp add: c_def)
  qed
  ultimately show ?thesis using le assms(6) by (intro exI [of _ c]) (auto simp: c_def)
qed

lemma calm_match:
  assumes "calm V w" and "role (nodes w i) = Leader" and "match_index (nodes w i) p = Some m"
  shows "m \<le> length (log (nodes w i))"
proof -
  from assms(1) obtain D where D: "log_cluster V w D" by (auto simp: calm_def)
  obtain a where ok: "world_ok V w a D" "ledger_inv (majority V) a" by (rule world_agrees [OF D])
  show ?thesis
  proof (cases "m = 0")
    case False
    with world_okD(6) [OF ok(1), of i] assms(3) have "acked a p (current_term (nodes w i)) m" by (auto simp: node_ok_def)
    moreover have "elected (majority V) a" using ok(2) by (simp add: ledger_inv_def)
    ultimately show ?thesis using acked_length leader_holds_log(2) [OF ok(1) assms(2)] by metis
  qed simp
qed

section \<open>A follower catches up\<close>

text \<open>A batch that reaches to the end of the leader's log, from the entry after \<open>x - 1\<close>.\<close>

definition due :: "node \<Rightarrow> u64 \<Rightarrow> append_entries \<Rightarrow> bool" where
  "due n x r \<longleftrightarrow> ae_term r = current_term n \<and> ae_leader_id r = nid n \<and> prev_log_index r = x - 1 \<and>
     x - 1 + length (entries r) = length (log n)"

lemma due_batch: "0 < x \<Longrightarrow> x \<le> Suc (length (log n)) \<Longrightarrow> due n x (batch_from n x)"
  by (auto simp: due_def batch_from_def)

lemma answers:
  assumes "node_inv n" and "boundary n = 0" and "role n \<noteq> Leader" and "current_term n \<le> ae_term r"
    and "fits64 (prev_log_index r + length (entries r))"
  shows "\<exists>n' es. step n (Step (ae_leader_id r) (AppendEntries r)) = Some (n', es) \<and>
    role n' \<noteq> Leader \<and> current_term n' = ae_term r \<and>
    (Send (ae_leader_id r) (AppendEntriesResponse \<lparr>aer_term = ae_term r, success = True,
       aer_match_index = prev_log_index r + length (entries r)\<rparr>) \<in> set es \<or>
     0 < prev_log_index r \<and> Send (ae_leader_id r) (AppendEntriesResponse \<lparr>aer_term = ae_term r, success = False,
       aer_match_index = 0\<rparr>) \<in> set es)"
proof -
  obtain n' es where run: "on_append_entries n (ae_leader_id r) r = Some (n', es)"
    using on_append_entries_total [OF assms(1,5)] by blast
  have m: "role (observe_leader n (ae_term r)) \<noteq> Leader" "current_term (observe_leader n (ae_term r)) = ae_term r"
    using assms(3,4) by (auto simp: observe_leader_def step_down_def Let_def)
  from run assms(1) show ?thesis
  proof (cases rule: on_append_entries_cases)
    case stale
    with assms(4) show ?thesis by simp
  next
    case (mismatch m')
    with run m show ?thesis by (simp add: reject_append_entries_def)
  next
    case (accept m')
    with run m show ?thesis by (simp add: accepted_def Let_def)
  qed
qed

lemma hears_success:
  assumes "role n = Leader" and "current_config n = config_of V" and "nid n \<in> set V" and "p \<in> set V"
    and "boundary n = 0" and "fits64 (Suc (length (log n)))" and "match_index n p = Some m" and "m \<le> length (log n)"
    and bound: "\<And>p m. match_index n p = Some m \<Longrightarrow> m \<le> length (log n)" and "commit_index n \<le> length (log n)"
  defines "n1 \<equiv> n\<lparr>match_index := (match_index n)(p \<mapsto> length (log n)), next_index := (next_index n)(p \<mapsto> Suc (length (log n)))\<rparr>"
  shows "\<exists>c. step n (Step p (AppendEntriesResponse \<lparr>aer_term = current_term n, success = True, aer_match_index = length (log n)\<rparr>)) =
      Some (n1\<lparr>commit_index := c\<rparr>, []) \<and> commit_index n \<le> c \<and>
    (majority_reached V (\<lambda>p. length (log n) \<le> held n1 p) \<longrightarrow> log n \<noteq> [] \<longrightarrow>
      entry_term (last (log n)) = current_term n \<longrightarrow> c = length (log n))"
proof -
  have n1: "current_config n1 = config_of V" "nid n1 \<in> set V" "boundary n1 = 0" "fits64 (length (log n1))" "log n1 = log n"
    "commit_index n1 = commit_index n" "current_term n1 = current_term n" "role n1 = Leader"
    "next_index n1 p = Some (Suc (length (log n)))"
    using assms(1-3,5) fits64_mono [OF assms(6), of "length (log n)"] by (auto simp: n1_def)
  have bound1: "k \<le> length (log n1)" if "match_index n1 q = Some k" for q k
    using that bound [of q k] by (auto simp: n1_def split: if_splits)
  have adv: "\<exists>c. advance_commit_index n1 = Some (n1\<lparr>commit_index := c\<rparr>, []) \<and> commit_index n1 \<le> c \<and> c \<le> length (log n1) \<and>
    (majority_reached V (\<lambda>p. length (log n1) \<le> held n1 p) \<longrightarrow> log n1 \<noteq> [] \<longrightarrow>
      entry_term (last (log n1)) = current_term n1 \<longrightarrow> c = length (log n1))"
    by (rule advance_total [OF n1(1-4) bound1]) (use assms(10) n1(5,6) in simp_all)
  then obtain c where c: "advance_commit_index n1 = Some (n1\<lparr>commit_index := c\<rparr>, [])" "commit_index n \<le> c"
    "majority_reached V (\<lambda>p. length (log n) \<le> held n1 p) \<longrightarrow> log n \<noteq> [] \<longrightarrow>
      entry_term (last (log n)) = current_term n \<longrightarrow> c = length (log n)"
    unfolding n1(5-7) by blast
  have last: "last_log_index (n1\<lparr>commit_index := c\<rparr>) = Some (length (log n))" using n1(3-5) by (simp add: run_simps)
  have "continue_replication (n1\<lparr>commit_index := c\<rparr>) p [] = Some (n1\<lparr>commit_index := c\<rparr>, [])"
    using n1(8,9) last by (simp add: continue_replication_def)
  moreover have "is_member n p" using assms(2,4) by (simp add: is_member_def is_voter_def)
  ultimately have "step n (Step p (AppendEntriesResponse \<lparr>aer_term = current_term n, success = True, aer_match_index = length (log n)\<rparr>)) =
      Some (n1\<lparr>commit_index := c\<rparr>, [])"
    using assms(1,6-8) c(1) by (simp add: on_append_entries_response_def max_absorb2 add64_fits n1_def Let_def)
  with c(2,3) show ?thesis by blast
qed

lemma hears_refusal:
  assumes "role n = Leader" and "current_config n = config_of V" and "p \<in> set V" and "boundary n = 0"
    and "fits64 (length (log n))" and "next_index n p = Some x" and "1 < x" and "x \<le> Suc (length (log n))"
  shows "\<exists>es. step n (Step p (AppendEntriesResponse \<lparr>aer_term = current_term n, success = False, aer_match_index = 0\<rparr>)) =
      Some (n\<lparr>next_index := (next_index n)(p \<mapsto> x - 1)\<rparr>, es) \<and> Send p (AppendEntries (batch_from n (x - 1))) \<in> set es"
proof -
  define n1 where "n1 = n\<lparr>next_index := (next_index n)(p \<mapsto> x - 1)\<rparr>"
  have "batch_from n1 (x - 1) = batch_from n (x - 1)"
    by (simp add: n1_def batch_from_def log_term_at_def log_entry_at_def)
  moreover have "replicate_to n1 p = Some (Send p (AppendEntries (batch_from n1 (x - 1))))"
    using assms(4,7,8) by (intro replicate_batch) (auto simp: n1_def)
  moreover have "last_log_index n1 = Some (length (log n))" using assms(4,5) by (simp add: run_simps n1_def)
  moreover have "role n1 = Leader" "next_index n1 p = Some (x - 1)" using assms(1) by (simp_all add: n1_def)
  ultimately have "continue_replication n1 p [] = Some (n1, [Send p (AppendEntries (batch_from n (x - 1)))])"
    using assms(8) by (simp add: continue_replication_def)
  moreover have "is_member n p" using assms(2,3) by (simp add: is_member_def is_voter_def)
  moreover have "max (x - 1) 1 = x - 1" using assms(7) by simp
  ultimately show ?thesis
    using assms(1,6) by (simp add: on_append_entries_response_def n1_def)
qed

text \<open>The leader after some of its peers caught up: its term, log and role stay, and what it knows of the
  others.\<close>

definition leads_on :: "node_id set \<Rightarrow> node \<Rightarrow> node \<Rightarrow> bool" where
  "leads_on P n n' \<longleftrightarrow> role n' = Leader \<and> nid n' = nid n \<and> current_term n' = current_term n \<and> log n' = log n \<and>
     commit_index n \<le> commit_index n' \<and> (\<forall>p \<in> P. match_index n' p = Some (length (log n))) \<and>
     (\<forall>q. q \<notin> P \<longrightarrow> match_index n' q = match_index n q \<and> next_index n' q = next_index n q)"

lemma leads_on_trans:
  assumes "leads_on P a b" and "leads_on Q b c"
  shows "leads_on (P \<union> Q) a c"
proof -
  have "match_index c p = Some (length (log a))" if "p \<in> P \<union> Q" for p
    using assms that by (cases "p \<in> Q") (auto simp: leads_on_def)
  then show ?thesis using assms by (auto simp: leads_on_def)
qed

definition follower_in :: "u64 \<Rightarrow> node \<Rightarrow> bool" where
  "follower_in t p \<longleftrightarrow> role p \<noteq> Leader \<and> current_term p \<le> t"

lemma refused_again:
  assumes "calm V w" and "i \<in> set V" and "p \<in> set V" and "p \<noteq> i" and "role (nodes w i) = Leader"
    and "next_index (nodes w i) p = Some x" and "1 < x"
    and "Send i (AppendEntriesResponse \<lparr>aer_term = current_term (nodes w i), success = False, aer_match_index = 0\<rparr>) \<in> sent w p"
  shows "\<exists>w'. runs w w' \<and> calm V w' \<and>
    nodes w' = (nodes w)(i := nodes w i\<lparr>next_index := (next_index (nodes w i))(p \<mapsto> x - 1)\<rparr>) \<and>
    Send p (AppendEntries (batch_from (nodes w i) (x - 1))) \<in> sent w' i"
proof -
  note c = calm_facts [OF assms(1), of i]
  have x: "x \<le> Suc (length (log (nodes w i)))" using calm_pace [OF assms(1), of i] assms(5,6) by (auto simp: keeps_pace_def)
  obtain es where es: "step (nodes w i) (Step p (AppendEntriesResponse \<lparr>aer_term = current_term (nodes w i), success = False, aer_match_index = 0\<rparr>)) =
      Some (nodes w i\<lparr>next_index := (next_index (nodes w i))(p \<mapsto> x - 1)\<rparr>, es)"
      "Send p (AppendEntries (batch_from (nodes w i) (x - 1))) \<in> set es"
    using hears_refusal [OF assms(5) c(4) [OF assms(2)] assms(3) plain_boundary [OF c(1)] c(7) assms(6,7) x] by blast
  have "authentic w i (Op_Event (Step p (AppendEntriesResponse \<lparr>aer_term = current_term (nodes w i), success = False, aer_match_index = 0\<rparr>)))"
    using assms(8) by simp
  from runs_step [OF assms(1) this es(1)] obtain w' where
    "runs w w'" "calm V w'" "next_world i (nodes w i\<lparr>next_index := (next_index (nodes w i))(p \<mapsto> x - 1)\<rparr>) es w w'" .
  with es(2) show ?thesis by (intro exI [of _ w']) (simp add: next_world_def)
qed

lemma accepted_at_last:
  assumes "calm V w" and "i \<in> set V" and "p \<in> set V" and "p \<noteq> i" and "role (nodes w i) = Leader"
    and "match_index (nodes w i) p = Some m" and "fits64 (Suc (length (log (nodes w i))))"
    and "Send i (AppendEntriesResponse \<lparr>aer_term = current_term (nodes w i), success = True,
      aer_match_index = length (log (nodes w i))\<rparr>) \<in> sent w p"
  shows "\<exists>w'. runs w w' \<and> calm V w' \<and> (\<forall>q. q \<noteq> i \<longrightarrow> nodes w' q = nodes w q) \<and>
    leads_on {p} (nodes w i) (nodes w' i) \<and>
    (majority_reached V (\<lambda>q. length (log (nodes w i)) \<le> held (nodes w' i) q) \<longrightarrow> log (nodes w i) \<noteq> [] \<longrightarrow>
      entry_term (last (log (nodes w i))) = current_term (nodes w i) \<longrightarrow> commit_index (nodes w' i) = length (log (nodes w i)))"
proof -
  let ?n = "nodes w i"
  let ?k = "length (log ?n)"
  let ?q = "\<lparr>aer_term = current_term ?n, success = True, aer_match_index = ?k\<rparr>"
  define n1 where "n1 = ?n\<lparr>match_index := (match_index ?n)(p \<mapsto> ?k), next_index := (next_index ?n)(p \<mapsto> Suc ?k)\<rparr>"
  note c = calm_facts [OF assms(1), of i]
  have "\<exists>c. step ?n (Step p (AppendEntriesResponse ?q)) = Some (n1\<lparr>commit_index := c\<rparr>, []) \<and> commit_index ?n \<le> c \<and>
    (majority_reached V (\<lambda>p. ?k \<le> held n1 p) \<longrightarrow> log ?n \<noteq> [] \<longrightarrow>
      entry_term (last (log ?n)) = current_term ?n \<longrightarrow> c = ?k)"
    unfolding n1_def
    by (rule hears_success [OF assms(5) c(4) [OF assms(2)] _ assms(3) plain_boundary [OF c(1)] assms(7,6)
          calm_match [OF assms(1,5,6)] calm_match [OF assms(1,5)] c(5)]) (use c(3) assms(2) in auto)
  then obtain d where d: "step ?n (Step p (AppendEntriesResponse ?q)) = Some (n1\<lparr>commit_index := d\<rparr>, [])" "commit_index ?n \<le> d"
    "majority_reached V (\<lambda>p. ?k \<le> held n1 p) \<longrightarrow> log ?n \<noteq> [] \<longrightarrow>
      entry_term (last (log ?n)) = current_term ?n \<longrightarrow> d = ?k" by blast
  have "authentic w i (Op_Event (Step p (AppendEntriesResponse ?q)))" using assms(8) by simp
  from runs_step [OF assms(1) this d(1)] obtain w' where
    w': "runs w w'" "calm V w'" "next_world i (n1\<lparr>commit_index := d\<rparr>) [] w w'" .
  have node: "nodes w' i = n1\<lparr>commit_index := d\<rparr>" using w'(3) by (simp add: next_world_def)
  have "held (nodes w' i) = held n1" by (simp add: node held_def fun_eq_iff)
  moreover have "leads_on {p} ?n (nodes w' i)" using d(2) assms(5) by (auto simp: leads_on_def node n1_def)
  moreover have "nodes w' q = nodes w q" if "q \<noteq> i" for q using w'(3) that by (simp add: next_world_def)
  ultimately show ?thesis using w'(1,2) d(3) node by (intro exI [of _ w']) simp
qed

lemma catch_up:
  assumes "calm V w" and "i \<in> set V" and "p \<in> set V" and "p \<noteq> i" and "role (nodes w i) = Leader"
    and "follower_in (current_term (nodes w i)) (nodes w p)" and "fits64 (Suc (length (log (nodes w i))))"
    and "next_index (nodes w i) p = Some x" and "due (nodes w i) x r" and "Send p (AppendEntries r) \<in> sent w i"
  shows "\<exists>w'. runs w w' \<and> calm V w' \<and> leads_on {p} (nodes w i) (nodes w' i) \<and>
    follower_in (current_term (nodes w i)) (nodes w' p) \<and> (\<forall>q. q \<noteq> i \<longrightarrow> q \<noteq> p \<longrightarrow> nodes w' q = nodes w q) \<and>
    (majority_reached V (\<lambda>q. length (log (nodes w i)) \<le> held (nodes w' i) q) \<longrightarrow> log (nodes w i) \<noteq> [] \<longrightarrow>
      entry_term (last (log (nodes w i))) = current_term (nodes w i) \<longrightarrow> commit_index (nodes w' i) = length (log (nodes w i)))"
  using assms
proof (induction x arbitrary: w r)
  case 0
  have "node_inv (nodes w i)" using calm_facts(2) [OF "0.prems"(1)] .
  with "0.prems"(8) show ?case by (auto simp: node_inv_def progress_ok_def)
next
  case (Suc y)
  let ?n = "nodes w i"
  let ?t = "current_term ?n" and ?k = "length (log ?n)"
  note ci = calm_facts [OF Suc.prems(1), of i] and cp = calm_facts [OF Suc.prems(1), of p]
  have r: "ae_term r = ?t" "ae_leader_id r = i" "prev_log_index r = y" "y + length (entries r) = ?k"
    using Suc.prems(9) ci(3) by (simp_all add: due_def)
  have fits: "fits64 (prev_log_index r + length (entries r))" using r(3,4) ci(7) by simp
  have low: "role (nodes w p) \<noteq> Leader" "current_term (nodes w p) \<le> ae_term r"
    using Suc.prems(6) r(1) by (simp_all add: follower_in_def)
  obtain np es where ans: "step (nodes w p) (Step i (AppendEntries r)) = Some (np, es)" "role np \<noteq> Leader" "current_term np = ?t"
    "Send i (AppendEntriesResponse \<lparr>aer_term = ?t, success = True, aer_match_index = ?k\<rparr>) \<in> set es \<or>
     0 < y \<and> Send i (AppendEntriesResponse \<lparr>aer_term = ?t, success = False, aer_match_index = 0\<rparr>) \<in> set es"
    using answers [OF cp(2) plain_boundary [OF cp(1)] low fits] unfolding r by blast
  have "authentic w p (Op_Event (Step i (AppendEntries r)))" using Suc.prems(10) by simp
  from runs_step [OF Suc.prems(1) this ans(1)] obtain w1 where w1: "runs w w1" "calm V w1" "next_world p np es w w1" .
  have n1: "nodes w1 i = ?n" "nodes w1 p = np" "\<And>q. q \<noteq> p \<Longrightarrow> nodes w1 q = nodes w q"
    using w1(3) Suc.prems(4) by (simp_all add: next_world_def)
  have fol: "follower_in ?t np" using ans(2,3) by (simp add: follower_in_def)
  from ans(4) show ?case
  proof
    assume "Send i (AppendEntriesResponse \<lparr>aer_term = ?t, success = True, aer_match_index = ?k\<rparr>) \<in> set es"
    then have told: "Send i (AppendEntriesResponse \<lparr>aer_term = current_term (nodes w1 i), success = True,
        aer_match_index = length (log (nodes w1 i))\<rparr>) \<in> sent w1 p"
      using w1(3) n1(1) by (simp add: next_world_def)
    have "next_index ?n p = None \<longleftrightarrow> match_index ?n p = None" using ci(2) unfolding node_inv_def progress_ok_def by blast
    with Suc.prems(8) have "match_index ?n p \<noteq> None" by simp
    then obtain m where m: "match_index (nodes w1 i) p = Some m" using n1(1) by auto
    have "role (nodes w1 i) = Leader" "fits64 (Suc (length (log (nodes w1 i))))" using Suc.prems(5,7) n1(1) by simp_all
    from accepted_at_last [OF w1(2) Suc.prems(2-4) this(1) m this(2) told]
    obtain w' where "runs w1 w'" "calm V w'" "\<forall>q. q \<noteq> i \<longrightarrow> nodes w' q = nodes w1 q" "leads_on {p} ?n (nodes w' i)"
      "majority_reached V (\<lambda>q. ?k \<le> held (nodes w' i) q) \<longrightarrow> log ?n \<noteq> [] \<longrightarrow>
        entry_term (last (log ?n)) = ?t \<longrightarrow> commit_index (nodes w' i) = ?k" unfolding n1(1) by blast
    with n1 fol runs_trans [OF w1(1)] Suc.prems(4) show ?thesis by (intro exI [of _ w']) simp
  next
    assume no: "0 < y \<and> Send i (AppendEntriesResponse \<lparr>aer_term = ?t, success = False, aer_match_index = 0\<rparr>) \<in> set es"
    then have told: "Send i (AppendEntriesResponse \<lparr>aer_term = current_term (nodes w1 i), success = False, aer_match_index = 0\<rparr>) \<in> sent w1 p"
      using w1(3) n1(1) by (simp add: next_world_def)
    have "role (nodes w1 i) = Leader" "next_index (nodes w1 i) p = Some (Suc y)" "1 < Suc y" using Suc.prems(5,8) n1(1) no by simp_all
    from refused_again [OF w1(2) Suc.prems(2-4) this told]
    obtain w2 where w2: "runs w1 w2" "calm V w2" "nodes w2 = (nodes w1)(i := ?n\<lparr>next_index := (next_index ?n)(p \<mapsto> y)\<rparr>)"
      "Send p (AppendEntries (batch_from ?n y)) \<in> sent w2 i" unfolding n1(1) by auto
    let ?n2 = "?n\<lparr>next_index := (next_index ?n)(p \<mapsto> y)\<rparr>"
    have n2: "nodes w2 i = ?n2" by (simp add: w2(3))
    have "Suc y \<le> Suc ?k" using calm_pace [OF Suc.prems(1), of i] Suc.prems(5,8) by (auto simp: keeps_pace_def)
    then have "due ?n y (batch_from ?n y)" using no by (intro due_batch) auto
    then have due: "due (nodes w2 i) y (batch_from ?n y)" by (simp add: n2 due_def)
    have "\<exists>w'. runs w2 w' \<and> calm V w' \<and> leads_on {p} (nodes w2 i) (nodes w' i) \<and>
      follower_in (current_term (nodes w2 i)) (nodes w' p) \<and> (\<forall>q. q \<noteq> i \<longrightarrow> q \<noteq> p \<longrightarrow> nodes w' q = nodes w2 q) \<and>
      (majority_reached V (\<lambda>q. length (log (nodes w2 i)) \<le> held (nodes w' i) q) \<longrightarrow> log (nodes w2 i) \<noteq> [] \<longrightarrow>
        entry_term (last (log (nodes w2 i))) = current_term (nodes w2 i) \<longrightarrow> commit_index (nodes w' i) = length (log (nodes w2 i)))"
      by (rule Suc.IH [OF w2(2) Suc.prems(2-4) _ _ _ _ due w2(4)])
         (use Suc.prems(4,5,7) fol n1(2) in \<open>simp_all add: w2(3)\<close>)
    then obtain w' where w': "runs w2 w'" "calm V w'" "leads_on {p} ?n2 (nodes w' i)" "follower_in ?t (nodes w' p)"
      "\<forall>q. q \<noteq> i \<longrightarrow> q \<noteq> p \<longrightarrow> nodes w' q = nodes w2 q"
      "majority_reached V (\<lambda>q. ?k \<le> held (nodes w' i) q) \<longrightarrow> log ?n \<noteq> [] \<longrightarrow>
        entry_term (last (log ?n)) = ?t \<longrightarrow> commit_index (nodes w' i) = ?k" unfolding n2 by auto
    have "leads_on {p} ?n (nodes w' i)" using w'(3) by (auto simp: leads_on_def)
    moreover have "nodes w' q = nodes w q" if "q \<noteq> i" "q \<noteq> p" for q using w'(5) that n1(3) by (simp add: w2(3))
    moreover have "runs w w'" using w1(1) w2(1) w'(1) by (blast intro: runs_trans)
    ultimately show ?thesis using w'(2,4,6) by blast
  qed
qed

text \<open>One follower after the other.\<close>

lemma majority_of_all: "distinct V \<Longrightarrow> V \<noteq> [] \<Longrightarrow> (\<And>q. q \<in> set V \<Longrightarrow> P q) \<Longrightarrow> majority_reached V P"
  by (cases V) (auto simp: majority_reached_def Let_def filter_True)

lemma align:
  assumes "calm V w" and "i \<in> set V" and "role (nodes w i) = Leader" and "fits64 (Suc (length (log (nodes w i))))"
    and "log (nodes w i) \<noteq> []" and "entry_term (last (log (nodes w i))) = current_term (nodes w i)"
    and "\<And>p. p \<in> set ps \<Longrightarrow> p \<in> set V \<and> p \<noteq> i \<and> follower_in (current_term (nodes w i)) (nodes w p) \<and>
      (\<exists>x r. next_index (nodes w i) p = Some x \<and> due (nodes w i) x r \<and> Send p (AppendEntries r) \<in> sent w i)"
    and "distinct ps"
    and "\<And>q. q \<in> set V \<Longrightarrow> q \<noteq> i \<Longrightarrow> q \<notin> set ps \<Longrightarrow> match_index (nodes w i) q = Some (length (log (nodes w i)))"
    and "ps \<noteq> [] \<or> commit_index (nodes w i) = length (log (nodes w i))"
  shows "\<exists>w'. runs w w' \<and> calm V w' \<and> role (nodes w' i) = Leader \<and> log (nodes w' i) = log (nodes w i) \<and>
    current_term (nodes w' i) = current_term (nodes w i) \<and> commit_index (nodes w' i) = length (log (nodes w i))"
  using assms
proof (induction ps arbitrary: w)
  case Nil
  then show ?case by (intro exI [of _ w]) (simp add: runs.stay)
next
  case (Cons p ps)
  let ?n = "nodes w i"
  from Cons.prems(7) [of p] obtain x r where p: "p \<in> set V" "p \<noteq> i" "follower_in (current_term ?n) (nodes w p)"
    "next_index ?n p = Some x" "due ?n x r" "Send p (AppendEntries r) \<in> sent w i" by auto
  from catch_up [OF Cons.prems(1,2) p(1,2) Cons.prems(3) p(3) Cons.prems(4) p(4-6)]
  obtain w1 where w1: "runs w w1" "calm V w1" "leads_on {p} ?n (nodes w1 i)" "\<And>q. q \<noteq> i \<Longrightarrow> q \<noteq> p \<Longrightarrow> nodes w1 q = nodes w q"
    "majority_reached V (\<lambda>q. length (log ?n) \<le> held (nodes w1 i) q) \<Longrightarrow> commit_index (nodes w1 i) = length (log ?n)"
    using Cons.prems(5,6) by blast
  have n1: "role (nodes w1 i) = Leader" "log (nodes w1 i) = log ?n" "current_term (nodes w1 i) = current_term ?n"
    "match_index (nodes w1 i) p = Some (length (log ?n))" "nid (nodes w1 i) = nid ?n"
    "\<And>q. q \<noteq> p \<Longrightarrow> match_index (nodes w1 i) q = match_index ?n q \<and> next_index (nodes w1 i) q = next_index ?n q"
    using w1(3) by (auto simp: leads_on_def)
  have due: "due (nodes w1 i) y s \<longleftrightarrow> due ?n y s" for y s using n1 by (simp add: due_def)
  have known: "match_index (nodes w1 i) q = Some (length (log ?n))" if "q \<in> set V" "q \<noteq> i" "q \<notin> set ps" for q
    using that Cons.prems(9) [of q] n1(4,6) by (cases "q = p") auto
  have "\<exists>w'. runs w1 w' \<and> calm V w' \<and> role (nodes w' i) = Leader \<and> log (nodes w' i) = log (nodes w1 i) \<and>
    current_term (nodes w' i) = current_term (nodes w1 i) \<and> commit_index (nodes w' i) = length (log (nodes w1 i))"
  proof (rule Cons.IH [OF w1(2) Cons.prems(2) n1(1)])
    fix q assume q: "q \<in> set ps"
    then have "q \<noteq> p" using Cons.prems(8) by auto
    with q Cons.prems(7) [of q] runs_sent [OF w1(1), of i] n1(3,6) w1(4) [of q] due
    show "q \<in> set V \<and> q \<noteq> i \<and> follower_in (current_term (nodes w1 i)) (nodes w1 q) \<and>
      (\<exists>x r. next_index (nodes w1 i) q = Some x \<and> due (nodes w1 i) x r \<and> Send q (AppendEntries r) \<in> sent w1 i)"
      by (auto; blast)
  next
    show "ps \<noteq> [] \<or> commit_index (nodes w1 i) = length (log (nodes w1 i))"
    proof (cases "ps = []")
      case True
      have "majority_reached V (\<lambda>q. length (log ?n) \<le> held (nodes w1 i) q)"
      proof (rule majority_of_all)
        show "distinct V" by (rule calm_distinct [OF Cons.prems(1)])
        show "length (log ?n) \<le> held (nodes w1 i) q" if "q \<in> set V" for q
          using known [OF that] True n1(2,5) calm_facts(3) [OF Cons.prems(1), of i] by (auto simp: held_def)
      qed (use Cons.prems(2) in auto)
      with w1(5) n1(2) show ?thesis by simp
    qed simp
  qed (use Cons.prems(4-6,8) known n1 in auto)
  then obtain w' where "runs w1 w' \<and> calm V w' \<and> role (nodes w' i) = Leader \<and> log (nodes w' i) = log ?n \<and>
    current_term (nodes w' i) = current_term ?n \<and> commit_index (nodes w' i) = length (log ?n)"
    unfolding n1(2,3) by blast
  with w1(1) runs_trans show ?case by blast
qed

section \<open>A proposal is committed\<close>

lemma proposes:
  assumes "plain n" and "role n = Leader" and "current_config n = config_of V" and "nid n \<in> set V" and "distinct V"
    and fits: "fits64 (Suc (length (log n)))" and bound: "\<forall>p m. match_index n p = Some m \<longrightarrow> m \<le> length (log n)"
    and "commit_index n \<le> length (log n)"
  shows "\<exists>n' es. run_op n (Op_Propose cmd) = Some (n', es) \<and> role n' = Leader \<and> current_term n' = current_term n \<and>
    log n' = log n @ [\<lparr>entry_term = current_term n, payload = Command cmd\<rparr>] \<and>
    heartbeat_elapsed n' = heartbeat_elapsed n \<and> leader_contact_elapsed n' = leader_contact_elapsed n \<and>
    heartbeat_interval n' = heartbeat_interval n \<and> election_elapsed n' = election_elapsed n \<and>
    election_timeout n' = election_timeout n \<and>
    (set V \<subseteq> {nid n} \<longrightarrow> commit_index n' = Suc (length (log n)))"
proof -
  let ?e = "\<lparr>entry_term = current_term n, payload = Command cmd\<rparr>"
  let ?m = "n\<lparr>log := log n @ [?e]\<rparr>"
  have b: "boundary n = 0" using assms(1) by simp
  then obtain n1 where n1: "recompute_config ?m = Some n1" using recompute_config_total [of ?m] fits by auto
  note eq = recompute_config_eq_Some [OF n1]
  have cmds: "list_all is_command (log n @ [?e])" using assms(1) by (simp add: plain_def steady_def is_command_def)
  have config: "current_config n1 = config_of V"
    using eq cmds replay_commands [OF cmds] assms(1,3) by (simp add: config_in_force_def plain_def steady_config)
  have same: "nid n1 = nid n" "boundary n1 = 0" "log n1 = log n @ [?e]" "match_index n1 = match_index n"
    "commit_index n1 = commit_index n" "current_term n1 = current_term n" "role n1 = Leader"
    using eq b assms(2) by simp_all
  have "\<exists>c. advance_commit_index n1 = Some (n1\<lparr>commit_index := c\<rparr>, []) \<and> commit_index n1 \<le> c \<and> c \<le> length (log n1) \<and>
    (majority_reached V (\<lambda>p. length (log n1) \<le> held n1 p) \<longrightarrow> log n1 \<noteq> [] \<longrightarrow>
      entry_term (last (log n1)) = current_term n1 \<longrightarrow> c = length (log n1))"
  proof (rule advance_total [OF config _ same(2)])
    show "m \<le> length (log n1)" if "match_index n1 p = Some m" for p m using bound that same by fastforce
  qed (use assms(4,8) fits same in simp_all)
  then obtain c where adv: "advance_commit_index n1 = Some (n1\<lparr>commit_index := c\<rparr>, [])"
    "majority_reached V (\<lambda>p. length (log n1) \<le> held n1 p) \<Longrightarrow> c = Suc (length (log n))" using same by auto
  have last: "last_log_index n1 = Some (Suc (length (log n)))" using same fits by (simp add: run_simps)
  have "propose n cmd = Some (n1\<lparr>commit_index := c\<rparr>, Some (Suc (length (log n)), [PersistLog (Suc (length (log n))) [?e]]))"
    using assms(2) n1 adv(1) last by (simp add: propose_def)
  then have "run_op n (Op_Propose cmd) = Some (n1\<lparr>commit_index := c\<rparr>, [PersistLog (Suc (length (log n))) [?e]])"
    by (simp add: effects_of_def)
  moreover have "c = Suc (length (log n))" if "set V \<subseteq> {nid n}"
  proof (rule adv(2), rule majority_of_all [OF assms(5)])
    show "V \<noteq> []" using assms(4) by auto
    show "length (log n1) \<le> held n1 q" if "q \<in> set V" for q
      using that \<open>set V \<subseteq> {nid n}\<close> same by (auto simp: held_def)
  qed
  ultimately show ?thesis using same eq by (intro exI [of _ "n1\<lparr>commit_index := c\<rparr>"]) simp
qed

lemma propose_world:
  fixes cmd :: bytes
  assumes "calm V w" and "i \<in> set V" and "role (nodes w i) = Leader" and "fits64 (Suc (length (log (nodes w i))))"
  defines "w1 \<equiv> after i (Op_Propose cmd) w"
  shows "calm V w1 \<and> role (nodes w1 i) = Leader \<and> current_term (nodes w1 i) = current_term (nodes w i) \<and>
    log (nodes w1 i) = log (nodes w i) @ [\<lparr>entry_term = current_term (nodes w i), payload = Command cmd\<rparr>] \<and>
    heartbeat_elapsed (nodes w1 i) = heartbeat_elapsed (nodes w i) \<and>
    leader_contact_elapsed (nodes w1 i) = leader_contact_elapsed (nodes w i) \<and>
    heartbeat_interval (nodes w1 i) = heartbeat_interval (nodes w i) \<and>
    election_elapsed (nodes w1 i) = election_elapsed (nodes w i) \<and>
    election_timeout (nodes w1 i) = election_timeout (nodes w i) \<and>
    (\<forall>q. q \<noteq> i \<longrightarrow> nodes w1 q = nodes w q) \<and>
    (set V \<subseteq> {i} \<longrightarrow> commit_index (nodes w1 i) = Suc (length (log (nodes w i))))"
proof -
  note c = calm_facts [OF assms(1), of i]
  have nid: "nid (nodes w i) \<in> set V" using c(3) assms(2) by simp
  have bound: "\<forall>p m. match_index (nodes w i) p = Some m \<longrightarrow> m \<le> length (log (nodes w i))"
    using calm_match [OF assms(1,3)] by blast
  note proposed = proposes [where cmd = cmd, OF c(1) assms(3) c(4) [OF assms(2)] nid calm_distinct [OF assms(1)] assms(4) bound c(5)]
  obtain n' es where run: "run_op (nodes w i) (Op_Propose cmd) = Some (n', es)"
    and n': "role n' = Leader" "current_term n' = current_term (nodes w i)"
      "log n' = log (nodes w i) @ [\<lparr>entry_term = current_term (nodes w i), payload = Command cmd\<rparr>]"
      "heartbeat_elapsed n' = heartbeat_elapsed (nodes w i)" "leader_contact_elapsed n' = leader_contact_elapsed (nodes w i)"
      "heartbeat_interval n' = heartbeat_interval (nodes w i)" "election_elapsed n' = election_elapsed (nodes w i)"
      "election_timeout n' = election_timeout (nodes w i)"
      "set V \<subseteq> {i} \<Longrightarrow> commit_index n' = Suc (length (log (nodes w i)))"
    using proposed unfolding c(3) by blast
  obtain d' where d': "durable_apply_all (disks w i) es = Some d'"
    using persistsD [OF persists_run_op [OF run c(2)] c(6)] by blast
  have w1: "w1 = carry_out i n' d' es w" unfolding w1_def using run d' by (simp add: after_def)
  from assms(1) obtain D where D: "log_cluster V w D" by (auto simp: calm_def)
  have "authentic w i (Op_Propose cmd)" by simp
  from log_cluster.operate [OF D this _ run d'] have "calm V w1" by (auto simp: calm_def w1)
  with n' show ?thesis by (simp add: w1 carry_out_def)
qed

lemma replicates_to_voters:
  "calm V w \<Longrightarrow> i \<in> set V \<Longrightarrow> p \<in> set V \<Longrightarrow> p \<noteq> i \<Longrightarrow> p \<in> replication_targets (nodes w i)"
  using calm_facts(3,4) [of V w i] by (simp add: replication_targets_def)

lemma proposal_succeeds:
  assumes "calm V w" and "i \<in> set V" and "role (nodes w i) = Leader" and "modest (2 ^ 61) (nodes w i)"
    and "\<And>p. p \<in> set V \<Longrightarrow> p \<noteq> i \<Longrightarrow> follower_in (current_term (nodes w i)) (nodes w p)"
  shows "\<exists>w'. runs (after i (Op_Propose cmd) w) w' \<and> role (nodes w' i) = Leader \<and>
    log (nodes w' i) = log (nodes w i) @ [\<lparr>entry_term = current_term (nodes w i), payload = Command cmd\<rparr>] \<and>
    commit_index (nodes w' i) = Suc (length (log (nodes w i)))"
proof -
  let ?t = "current_term (nodes w i)" and ?L = "log (nodes w i)"
  let ?e = "\<lparr>entry_term = ?t, payload = Command cmd\<rparr>"
  define w1 where "w1 = after i (Op_Propose cmd) w"
  have small: "length ?L < 2 ^ 61" using assms(4) by (simp add: modest_def)
  then have fits: "fits64 (Suc (length ?L))" "fits64 (Suc (Suc (length ?L)))" by (simp_all add: fits64_def)
  note p = propose_world [OF assms(1-3) fits(1), of cmd, folded w1_def]
  have "modest (2 ^ 62) (nodes w1 i)" using assms(4) p by (simp add: modest_def)
  from heartbeat [of V w1 i, OF _ _ this] p obtain w2 n c where w2: "runs w1 w2" "calm V w2" "nodes w2 = (nodes w1)(i := n)"
    "n = nodes w1 i\<lparr>heartbeat_elapsed := 0, leader_contact_elapsed := c\<rparr>"
    "\<And>p x. p \<in> replication_targets (nodes w1 i) \<Longrightarrow> next_index (nodes w1 i) p = Some x \<Longrightarrow>
      Send p (AppendEntries (batch_from (nodes w1 i) x)) \<in> sent w2 i" by blast
  have n: "nodes w2 i = n" "role n = Leader" "current_term n = ?t" "log n = ?L @ [?e]" "next_index n = next_index (nodes w1 i)"
    "commit_index n = commit_index (nodes w1 i)" "nid n = nid (nodes w1 i)"
    using p w2(3,4) by simp_all
  have due: "\<exists>x r. next_index n q = Some x \<and> due n x r \<and> Send q (AppendEntries r) \<in> sent w2 i"
    if q: "q \<in> set V" "q \<noteq> i" for q
  proof -
    have t: "q \<in> replication_targets (nodes w1 i)" using replicates_to_voters [OF _ assms(2) q] p by blast
    obtain x where x: "next_index (nodes w1 i) q = Some x" "0 < x" "x \<le> Suc (length (log (nodes w1 i)))"
      by (rule leader_next [OF _ _ t]) (use p in auto)
    have "due n x (batch_from (nodes w1 i) x)" using due_batch [OF x(2,3)] w2(4) by (simp add: due_def)
    with w2(5) [OF t x(1)] x(1) n(5) show ?thesis by auto
  qed
  have "\<exists>w'. runs w2 w' \<and> calm V w' \<and> role (nodes w' i) = Leader \<and> log (nodes w' i) = log (nodes w2 i) \<and>
    current_term (nodes w' i) = current_term (nodes w2 i) \<and> commit_index (nodes w' i) = length (log (nodes w2 i))"
  proof (rule align [OF w2(2) assms(2), where ps = "filter (\<lambda>q. q \<noteq> i) V"])
    show "q \<in> set V \<and> q \<noteq> i \<and> follower_in (current_term (nodes w2 i)) (nodes w2 q) \<and>
      (\<exists>x r. next_index (nodes w2 i) q = Some x \<and> due (nodes w2 i) x r \<and> Send q (AppendEntries r) \<in> sent w2 i)"
      if "q \<in> set (filter (\<lambda>q. q \<noteq> i) V)" for q
      using that due [of q] assms(5) [of q] p n(1,3) w2(3) by simp
    show "distinct (filter (\<lambda>q. q \<noteq> i) V)" using calm_distinct [OF assms(1)] by simp
    have "set V \<subseteq> {i}" if "filter (\<lambda>q. q \<noteq> i) V = []" using that by (auto simp: filter_empty_conv)
    then show "filter (\<lambda>q. q \<noteq> i) V \<noteq> [] \<or> commit_index (nodes w2 i) = length (log (nodes w2 i))"
      using p n by auto
  qed (use n fits(2) in simp_all)
  then obtain w' where "runs w2 w'" "role (nodes w' i) = Leader" "log (nodes w' i) = ?L @ [?e]"
    "commit_index (nodes w' i) = Suc (length ?L)" using n by auto
  with runs_trans [OF w2(1)] show ?thesis unfolding w1_def by blast
qed

section \<open>Leaders of old terms step down\<close>

lemma refuses_stale:
  "ae_term r < current_term n \<Longrightarrow> ae_leader_id r = i \<Longrightarrow>
     step n (Step i (AppendEntries r)) = Some (n, [reject_append_entries n i])"
  by (simp add: on_append_entries_def)

lemma hears_higher_term:
  assumes "current_config n = config_of V" and "q \<in> set V" and "current_term n < aer_term a"
  shows "\<exists>es. step n (Step q (AppendEntriesResponse a)) = Some (step_down n (aer_term a), es)"
proof -
  have "is_member n q" using assms(1,2) by (simp add: is_member_def is_voter_def)
  with assms(3) show ?thesis by (simp add: on_append_entries_response_def Let_def)
qed

lemma depose:
  assumes "calm V w" and "i \<in> set V" and "q \<in> set V" and "role (nodes w i) = Leader" and "modest b (nodes w i)"
    and "b \<le> 2 ^ 62" and "current_term (nodes w i) < current_term (nodes w q)"
  shows "\<exists>w' n. runs w w' \<and> calm V w' \<and> nodes w' = (nodes w)(i := n) \<and> role n = Follower \<and>
    current_term n = current_term (nodes w q) \<and> log n = log (nodes w i) \<and>
    (current_term n < b \<longrightarrow> modest (2 * b + 1) n)"
proof -
  let ?n = "nodes w i"
  have q: "q \<noteq> i" using assms(7) by auto
  from heartbeat [OF assms(1,4) modest_mono [OF assms(5,6)]] obtain w1 m c where w1: "runs w w1" "calm V w1"
    "nodes w1 = (nodes w)(i := m)" "c \<le> leader_contact_elapsed ?n + Suc (heartbeat_interval ?n)"
    "m = ?n\<lparr>heartbeat_elapsed := 0, leader_contact_elapsed := c\<rparr>"
    "\<And>p x. p \<in> replication_targets ?n \<Longrightarrow> next_index ?n p = Some x \<Longrightarrow> Send p (AppendEntries (batch_from ?n x)) \<in> sent w1 i"
    by blast
  have t: "q \<in> replication_targets ?n" by (rule replicates_to_voters [OF assms(1-3) q])
  obtain x where x: "next_index ?n q = Some x" by (rule leader_next [OF assms(1,4) t])
  let ?r = "batch_from ?n x" and ?nq = "nodes w q"
  have nq: "nodes w1 q = ?nq" using w1(3) q by simp
  have nid: "nid ?n = i" using calm_facts(3) [OF assms(1)] .
  have refuse: "step (nodes w1 q) (Step i (AppendEntries ?r)) = Some (?nq, [reject_append_entries ?nq i])"
    unfolding nq by (rule refuses_stale) (use assms(7) nid in \<open>simp_all add: batch_from_def\<close>)
  have "authentic w1 q (Op_Event (Step i (AppendEntries ?r)))" using w1(6) [OF t x] by simp
  from runs_step [OF w1(2) this refuse] obtain w2 where w2: "runs w1 w2" "calm V w2"
    "next_world q ?nq [reject_append_entries ?nq i] w1 w2" .
  have nodes2: "nodes w2 = (nodes w)(i := m)" using w2(3) w1(3) nq by (simp add: next_world_def fun_upd_idem_iff)
  let ?a = "\<lparr>aer_term = current_term ?nq, success = False, aer_match_index = 0\<rparr>"
  have config: "current_config (nodes w2 i) = config_of V" by (rule calm_facts(4) [OF w2(2) assms(2)])
  have higher: "current_term (nodes w2 i) < aer_term ?a" using assms(7) w1(5) by (simp add: nodes2)
  obtain es where es: "step (nodes w2 i) (Step q (AppendEntriesResponse ?a)) = Some (step_down (nodes w2 i) (aer_term ?a), es)"
    using hears_higher_term [OF config assms(3) higher] by blast
  have "authentic w2 i (Op_Event (Step q (AppendEntriesResponse ?a)))"
    using w2(3) by (simp add: next_world_def reject_append_entries_def)
  from runs_step [OF w2(2) this es] obtain w3 where w3: "runs w2 w3" "calm V w3"
    "next_world i (step_down (nodes w2 i) (aer_term ?a)) es w2 w3" .
  let ?m = "step_down m (current_term ?nq)"
  have "nodes w3 = (nodes w)(i := ?m)" using w3(3) nodes2 by (simp add: next_world_def)
  moreover have "runs w w3" using w1(1) w2(1) w3(1) by (blast intro: runs_trans)
  moreover have "current_term ?m < b \<longrightarrow> modest (2 * b + 1) ?m"
  proof
    assume "current_term ?m < b"
    moreover have "c < 2 * b + 1" using w1(4) assms(5) by (auto simp: modest_def)
    ultimately show "modest (2 * b + 1) ?m" using assms(5) w1(5) by (auto simp: modest_def step_down_def)
  qed
  ultimately show ?thesis using w3(2) w1(5) by (intro exI [of _ w3] exI [of _ ?m]) (simp add: step_down_def)
qed

lemma depose_all:
  assumes "calm V w" and "q \<in> set V" and "set ls \<subseteq> set V" and "distinct ls" and "b \<le> 2 ^ 62"
    and "\<And>p. p \<in> set V \<Longrightarrow> current_term (nodes w p) \<le> current_term (nodes w q)" and "current_term (nodes w q) < b"
    and "\<And>p. p \<in> set ls \<Longrightarrow> modest b (nodes w p)"
  shows "\<exists>w'. runs w w' \<and> calm V w' \<and> nodes w' q = nodes w q \<and>
    (\<forall>p \<in> set ls. role (nodes w' p) = Leader \<longrightarrow> current_term (nodes w' p) = current_term (nodes w q)) \<and>
    (\<forall>p. nodes w' p = nodes w p \<or> role (nodes w' p) = Follower \<and>
      current_term (nodes w' p) = current_term (nodes w q) \<and> modest (2 * b + 1) (nodes w' p))"
  using assms
proof (induction ls arbitrary: w)
  case Nil
  then show ?case by (intro exI [of _ w]) (simp add: runs.stay)
next
  case (Cons l ls)
  let ?T = "current_term (nodes w q)"
  have l: "l \<in> set V" "modest b (nodes w l)" "l \<notin> set ls" using Cons.prems(3,4,8) by auto
  have "\<exists>w1. runs w w1 \<and> calm V w1 \<and> nodes w1 q = nodes w q \<and> (\<forall>p. p \<noteq> l \<longrightarrow> nodes w1 p = nodes w p) \<and>
    (nodes w1 l = nodes w l \<and> (role (nodes w l) = Leader \<longrightarrow> current_term (nodes w l) = ?T) \<or>
     role (nodes w1 l) = Follower \<and> current_term (nodes w1 l) = ?T \<and> modest (2 * b + 1) (nodes w1 l))"
  proof (cases "role (nodes w l) = Leader \<and> current_term (nodes w l) < ?T")
    case True
    then have "q \<noteq> l" by auto
    with depose [OF Cons.prems(1) l(1) Cons.prems(2) _ l(2) Cons.prems(5)] True Cons.prems(7) show ?thesis by fastforce
  next
    case False
    with Cons.prems(6) [OF l(1)] Cons.prems(1) show ?thesis by (intro exI [of _ w]) (auto intro: runs.stay)
  qed
  then obtain w1 where w1: "runs w w1" "calm V w1" "nodes w1 q = nodes w q" "\<And>p. p \<noteq> l \<Longrightarrow> nodes w1 p = nodes w p"
    "nodes w1 l = nodes w l \<and> (role (nodes w l) = Leader \<longrightarrow> current_term (nodes w l) = ?T) \<or>
     role (nodes w1 l) = Follower \<and> current_term (nodes w1 l) = ?T \<and> modest (2 * b + 1) (nodes w1 l)" by blast
  have rest: "p \<in> set ls \<Longrightarrow> p \<noteq> l" for p using l(3) by auto
  have le: "current_term (nodes w1 p) \<le> current_term (nodes w1 q)" if "p \<in> set V" for p
    using Cons.prems(6) [OF that] w1(3,4,5) by (cases "p = l") auto
  have "\<exists>w'. runs w1 w' \<and> calm V w' \<and> nodes w' q = nodes w1 q \<and>
    (\<forall>p \<in> set ls. role (nodes w' p) = Leader \<longrightarrow> current_term (nodes w' p) = current_term (nodes w1 q)) \<and>
    (\<forall>p. nodes w' p = nodes w1 p \<or> role (nodes w' p) = Follower \<and>
      current_term (nodes w' p) = current_term (nodes w1 q) \<and> modest (2 * b + 1) (nodes w' p))"
    by (rule Cons.IH [OF w1(2) Cons.prems(2) _ _ Cons.prems(5) le])
       (use Cons.prems(3,4,7,8) w1(3,4) rest in auto)
  then obtain w' where w': "runs w1 w'" "calm V w'" "nodes w' q = nodes w q"
    "\<And>p. p \<in> set ls \<Longrightarrow> role (nodes w' p) = Leader \<Longrightarrow> current_term (nodes w' p) = ?T"
    "\<And>p. nodes w' p = nodes w1 p \<or> role (nodes w' p) = Follower \<and>
      current_term (nodes w' p) = ?T \<and> modest (2 * b + 1) (nodes w' p)" unfolding w1(3) by blast
  have "runs w w'" using w1(1) w'(1) by (rule runs_trans)
  moreover have "current_term (nodes w' l) = ?T" if "role (nodes w' l) = Leader"
    using w'(5) [of l] w1(5) that by auto
  moreover have "nodes w' p = nodes w p \<or> role (nodes w' p) = Follower \<and>
      current_term (nodes w' p) = ?T \<and> modest (2 * b + 1) (nodes w' p)" for p
    using w'(5) [of p] w1(4) [of p] w1(5) by (cases "p = l") auto
  ultimately show ?case using w'(2-4) by (intro exI [of _ w']) auto
qed

section \<open>A voter takes over\<close>

text \<open>Campaigns that nobody hears of raise the term.\<close>

lemma raise_term:
  assumes "calm V w" and "i \<in> set V" and "2 \<le> length V" and "role (nodes w i) \<noteq> Leader"
    and "election_timeout (nodes w i) \<le> Suc (election_elapsed (nodes w i))" and "fits64 (Suc (election_elapsed (nodes w i)))"
    and "fits64 (Suc (leader_contact_elapsed (nodes w i) + d))" and "fits64 (Suc (current_term (nodes w i) + d))"
    and "fits64 (Suc (length (log (nodes w i))))"
  shows "\<exists>w' n. runs w w' \<and> calm V w' \<and> nodes w' = (nodes w)(i := n) \<and> role n \<noteq> Leader \<and>
    current_term n = current_term (nodes w i) + d \<and> log n = log (nodes w i) \<and>
    election_timeout n \<le> Suc (election_elapsed n) \<and> election_elapsed n \<le> election_elapsed (nodes w i) \<and>
    leader_contact_elapsed n = leader_contact_elapsed (nodes w i) + d \<and>
    heartbeat_interval n = heartbeat_interval (nodes w i) \<and> heartbeat_elapsed n \<le> heartbeat_elapsed (nodes w i)"
  using assms
proof (induction d arbitrary: w)
  case 0
  then show ?case by (intro exI [of _ w] exI [of _ "nodes w i"]) (simp add: runs.stay)
next
  case (Suc d)
  let ?n = "nodes w i"
  note c = calm_facts [OF Suc.prems(1), of i]
  have fits: "fits64 (Suc (leader_contact_elapsed ?n))" "fits64 (Suc (current_term ?n))"
    using fits64_mono [OF Suc.prems(7)] fits64_mono [OF Suc.prems(8)] by simp_all
  obtain m es where tick: "step ?n (Tick 1) = Some (m, es)" "current_term m = Suc (current_term ?n)" "log m = log ?n"
    "election_timeout m = 1" "election_elapsed m = 0" "leader_contact_elapsed m = Suc (leader_contact_elapsed ?n)"
    "heartbeat_interval m = heartbeat_interval ?n" "heartbeat_elapsed m \<le> heartbeat_elapsed ?n"
    "fresh_leader m \<and> length V < 2 \<or> role m = Candidate"
    using tick_campaigns [OF Suc.prems(4-6) fits(1) c(4) [OF Suc.prems(2)] _ fits(2) plain_boundary [OF c(1)] Suc.prems(9)]
      Suc.prems(2) unfolding c(3) by blast
  have "authentic w i (Op_Event (Tick 1))" by simp
  from runs_step [OF Suc.prems(1) this tick(1)] obtain w1 where w1: "runs w w1" "calm V w1" "next_world i m es w w1" .
  have nodes1: "nodes w1 = (nodes w)(i := m)" using w1(3) by (simp add: next_world_def)
  have cand: "role m = Candidate" using tick(9) Suc.prems(3) by auto
  have "\<exists>w' n. runs w1 w' \<and> calm V w' \<and> nodes w' = (nodes w1)(i := n) \<and> role n \<noteq> Leader \<and>
    current_term n = current_term (nodes w1 i) + d \<and> log n = log (nodes w1 i) \<and>
    election_timeout n \<le> Suc (election_elapsed n) \<and> election_elapsed n \<le> election_elapsed (nodes w1 i) \<and>
    leader_contact_elapsed n = leader_contact_elapsed (nodes w1 i) + d \<and>
    heartbeat_interval n = heartbeat_interval (nodes w1 i) \<and> heartbeat_elapsed n \<le> heartbeat_elapsed (nodes w1 i)"
    by (rule Suc.IH [OF w1(2) Suc.prems(2,3)]) (use cand tick Suc.prems(7-9) in \<open>simp_all add: nodes1\<close>)
  then obtain w' n where w': "runs w1 w'" "calm V w'" "nodes w' = (nodes w)(i := n)" "role n \<noteq> Leader"
    "current_term n = current_term m + d" "log n = log m" "election_timeout n \<le> Suc (election_elapsed n)"
    "election_elapsed n \<le> election_elapsed m" "leader_contact_elapsed n = leader_contact_elapsed m + d"
    "heartbeat_interval n = heartbeat_interval m" "heartbeat_elapsed n \<le> heartbeat_elapsed m"
    by (auto simp: nodes1)
  have "runs w w'" using w1(1) w'(1) by (rule runs_trans)
  with w' tick show ?case by (intro exI [of _ w'] exI [of _ n]) auto
qed

text \<open>A log that no other voter's is newer than.\<close>

definition no_newer :: "node \<Rightarrow> node \<Rightarrow> bool" where
  "no_newer n p \<longleftrightarrow> last_log_term p < last_log_term n \<or>
     last_log_term p = last_log_term n \<and> length (log p) \<le> length (log n)"

lemma timed_out:
  assumes "calm V w" and "role (nodes w i) \<noteq> Leader" and "modest b (nodes w i)" and "b \<le> 2 ^ 61"
  shows "\<exists>w' n. runs w w' \<and> calm V w' \<and> nodes w' = (nodes w)(i := n) \<and> role n \<noteq> Leader \<and>
    current_term n = current_term (nodes w i) \<and> log n = log (nodes w i) \<and>
    election_timeout n \<le> Suc (election_elapsed n) \<and> election_elapsed n < 2 * b \<and> leader_contact_elapsed n < 2 * b \<and>
    heartbeat_interval n = heartbeat_interval (nodes w i) \<and> heartbeat_elapsed n = heartbeat_elapsed (nodes w i)"
proof -
  let ?n = "nodes w i"
  define k where "k = election_timeout ?n - Suc (election_elapsed ?n)"
  define n where "n = ?n\<lparr>election_elapsed := election_elapsed ?n + k, leader_contact_elapsed := leader_contact_elapsed ?n + k\<rparr>"
  have bounds: "election_elapsed ?n + k < 2 * b" "leader_contact_elapsed ?n + k < 2 * b"
    using assms(3) by (auto simp: modest_def k_def)
  then have fits: "fits64 (election_elapsed ?n + k)" "fits64 (leader_contact_elapsed ?n + k)"
    using assms(4) by (simp_all add: fits64_def)
  have "\<exists>w1. runs w w1 \<and> calm V w1 \<and> nodes w1 = (nodes w)(i := n)"
  proof (cases "k = 0")
    case True
    with assms(1) show ?thesis by (intro exI [of _ w]) (simp add: n_def runs.stay)
  next
    case False
    then have "election_elapsed ?n + k < election_timeout ?n" by (simp add: k_def)
    from waits [OF assms(1,2) this fits] show ?thesis unfolding n_def by blast
  qed
  moreover have "election_timeout n \<le> Suc (election_elapsed n)" by (simp add: n_def k_def)
  ultimately show ?thesis using bounds assms(2) by (fastforce simp: n_def)
qed

lemma takes_over:
  assumes "calm V w" and "i \<in> set V" and "role (nodes w i) \<noteq> Leader" and "modest b (nodes w i)" and "b \<le> 2 ^ 61" and "d < b"
    and "2 \<le> length V \<or> d = 0"
    and others: "\<And>p. p \<in> set V \<Longrightarrow> p \<noteq> i \<Longrightarrow> role (nodes w p) \<noteq> Leader \<and>
      current_term (nodes w p) \<le> current_term (nodes w i) + d \<and> no_newer (nodes w i) (nodes w p)"
  shows "\<exists>w'. runs w w' \<and> calm V w' \<and> role (nodes w' i) = Leader \<and> log (nodes w' i) = log (nodes w i) \<and>
    current_term (nodes w' i) = Suc (current_term (nodes w i) + d) \<and> modest (4 * b) (nodes w' i) \<and>
    (\<forall>p \<in> set V. p \<noteq> i \<longrightarrow> follower_in (current_term (nodes w' i)) (nodes w' p))"
proof -
  let ?n = "nodes w i"
  obtain w1 n where w1: "runs w w1" "calm V w1" "nodes w1 = (nodes w)(i := n)" "role n \<noteq> Leader"
    "current_term n = current_term ?n" "log n = log ?n" "election_timeout n \<le> Suc (election_elapsed n)"
    "election_elapsed n < 2 * b" "leader_contact_elapsed n < 2 * b"
    "heartbeat_interval n = heartbeat_interval ?n" "heartbeat_elapsed n = heartbeat_elapsed ?n"
    using timed_out [OF assms(1,3,4,5)] by blast
  have small: "current_term ?n < b" "length (log ?n) < b" "heartbeat_interval ?n < b" "heartbeat_elapsed ?n < b"
    using assms(4) by (simp_all add: modest_def)
  have fits: "fits64 (Suc (election_elapsed n))" "fits64 (Suc (leader_contact_elapsed n + d))"
    "fits64 (Suc (current_term n + d))" "fits64 (Suc (length (log n)))"
    using w1(5,6,8,9) small assms(5,6) by (simp_all add: fits64_def)
  have "\<exists>w2 m. runs w1 w2 \<and> calm V w2 \<and> nodes w2 = (nodes w1)(i := m) \<and> role m \<noteq> Leader \<and>
    current_term m = current_term n + d \<and> log m = log n \<and> election_timeout m \<le> Suc (election_elapsed m) \<and>
    election_elapsed m \<le> election_elapsed n \<and> leader_contact_elapsed m = leader_contact_elapsed n + d \<and>
    heartbeat_interval m = heartbeat_interval n \<and> heartbeat_elapsed m \<le> heartbeat_elapsed n"
  proof (cases "d = 0")
    case True
    with w1 show ?thesis by (intro exI [of _ w1] exI [of _ n]) (simp add: runs.stay)
  next
    case False
    with assms(7) have "2 \<le> length V" by simp
    from raise_term [OF w1(2) assms(2) this, of d] w1(3,4,7) fits show ?thesis by simp
  qed
  then obtain w2 m where m: "runs w1 w2" "calm V w2" "nodes w2 = (nodes w1)(i := m)" "role m \<noteq> Leader"
    "current_term m = current_term n + d" "log m = log n" "election_timeout m \<le> Suc (election_elapsed m)"
    "election_elapsed m \<le> election_elapsed n" "leader_contact_elapsed m = leader_contact_elapsed n + d"
    "heartbeat_interval m = heartbeat_interval n" "heartbeat_elapsed m \<le> heartbeat_elapsed n" by blast
  have w2: "runs w1 w2" "calm V w2" "nodes w2 = (nodes w)(i := m)" "role m \<noteq> Leader"
    "current_term m = current_term ?n + d" "log m = log ?n" "election_timeout m \<le> Suc (election_elapsed m)"
    "election_elapsed m < 2 * b" "leader_contact_elapsed m < 3 * b" "heartbeat_interval m < b" "heartbeat_elapsed m < b"
    using m w1(3,5,6,8-11) small assms(6) by simp_all
  have newest: "last_log_term m = last_log_term ?n"
    using calm_facts(1) [OF assms(1), of i] calm_facts(1) [OF w2(2), of i] w2(3,6)
    by (intro last_log_term_same) (simp_all add: plain_def)
  have "\<exists>w'. runs w2 w' \<and> calm V w' \<and> fresh_leader (nodes w' i) \<and>
    current_term (nodes w' i) = Suc (current_term (nodes w2 i)) \<and> log (nodes w' i) = log (nodes w2 i) \<and>
    election_timeout (nodes w' i) = 1 \<and> election_elapsed (nodes w' i) = 0 \<and>
    leader_contact_elapsed (nodes w' i) = Suc (leader_contact_elapsed (nodes w2 i)) \<and>
    heartbeat_interval (nodes w' i) = heartbeat_interval (nodes w2 i) \<and> heartbeat_elapsed (nodes w' i) \<le> heartbeat_elapsed (nodes w2 i) \<and>
    (\<forall>p. p \<noteq> i \<longrightarrow> nodes w' p = nodes w2 p \<or>
      role (nodes w' p) = Follower \<and> current_term (nodes w' p) = Suc (current_term (nodes w2 i)))"
  proof (rule campaign_succeeds [OF w2(2) assms(2)])
    show "follows (nodes w2 i) (nodes w2 p)" if "p \<in> set V" "p \<noteq> i" for p
      using others [OF that] that w2(3,5,6) newest by (auto simp: follows_def no_newer_def)
  qed (use w2(3-9) small assms(5,6) in \<open>simp_all add: fits64_def\<close>)
  then obtain w' where w': "runs w2 w'" "calm V w'" "fresh_leader (nodes w' i)"
    "current_term (nodes w' i) = Suc (current_term ?n + d)" "log (nodes w' i) = log ?n"
    "election_timeout (nodes w' i) = 1" "election_elapsed (nodes w' i) = 0"
    "leader_contact_elapsed (nodes w' i) = Suc (leader_contact_elapsed m)"
    "heartbeat_interval (nodes w' i) = heartbeat_interval m" "heartbeat_elapsed (nodes w' i) \<le> heartbeat_elapsed m"
    "\<And>p. p \<noteq> i \<Longrightarrow> nodes w' p = nodes w p \<or>
      role (nodes w' p) = Follower \<and> current_term (nodes w' p) = Suc (current_term ?n + d)"
    using w2(3,5,6) by auto
  have "modest (4 * b) (nodes w' i)" using w'(4-10) w2(9-11) small assms(6) by (simp add: modest_def)
  moreover have "follower_in (current_term (nodes w' i)) (nodes w' p)" if "p \<in> set V" "p \<noteq> i" for p
    using w'(4) w'(11) [OF that(2)] others [OF that] by (auto simp: follower_in_def)
  moreover have "runs w w'" using w1(1) w2(1) w'(1) by (blast intro: runs_trans)
  ultimately show ?thesis using w'(2-5) by (intro exI [of _ w']) (auto simp: fresh_leader_def)
qed

lemma best_voter:
  assumes "V \<noteq> []"
  shows "\<exists>i \<in> set V. \<forall>p \<in> set V. no_newer (N i) (N p)"
  using assms
proof (induction V rule: list_nonempty_induct)
  case (single i)
  then show ?case by (simp add: no_newer_def)
next
  case (cons j V)
  then obtain i where i: "i \<in> set V" "\<forall>p \<in> set V. no_newer (N i) (N p)" by blast
  show ?case
  proof (cases "no_newer (N i) (N j)")
    case True
    with i show ?thesis by auto
  next
    case False
    have "no_newer (N j) (N p)" if "p \<in> insert j (set V)" for p
      using that i(2) False by (auto simp: no_newer_def; force)
    then show ?thesis by auto
  qed
qed

lemma leader_of_term:
  assumes "calm V w" and "role (nodes w i) = Leader" and "role (nodes w j) = Leader"
    and "current_term (nodes w i) = current_term (nodes w j)"
  shows "i = j"
proof -
  from assms(1) obtain D where "log_cluster V w D" by (auto simp: calm_def)
  then have c: "cluster V w" by (rule log_cluster_cluster)
  from one_leader_per_term [OF c] leader_won [OF c] assms(2-4) show ?thesis by metis
qed

lemma can_commit:
  assumes "calm V w" and "V \<noteq> []" and modest: "\<And>i. i \<in> set V \<Longrightarrow> modest (2 ^ 56) (nodes w i)"
  shows "\<exists>i w1 w'. i \<in> set V \<and> runs w w1 \<and> role (nodes w1 i) = Leader \<and>
    runs (after i (Op_Propose cmd) w1) w' \<and> role (nodes w' i) = Leader \<and>
    log (nodes w' i) = log (nodes w1 i) @ [\<lparr>entry_term = current_term (nodes w1 i), payload = Command cmd\<rparr>] \<and>
    commit_index (nodes w' i) = Suc (length (log (nodes w1 i)))"
proof -
  let ?ts = "(\<lambda>p. current_term (nodes w p)) ` set V"
  have "Max ?ts \<in> ?ts" using assms(2) by (intro Max_in) auto
  then obtain q where q: "q \<in> set V" "Max ?ts = current_term (nodes w q)" by blast
  have top: "current_term (nodes w p) \<le> current_term (nodes w q)" if "p \<in> set V" for p
    unfolding q(2) [symmetric] using that by (intro Max_ge) auto
  let ?T = "current_term (nodes w q)"
  have T: "?T < 2 ^ 56" using modest [OF q(1)] by (simp add: modest_def)
  have bound: "(2 :: nat) ^ 56 \<le> 2 ^ 62" by simp
  obtain w0 where w0: "runs w w0" "calm V w0" "nodes w0 q = nodes w q"
    "\<And>p. p \<in> set V \<Longrightarrow> role (nodes w0 p) = Leader \<Longrightarrow> current_term (nodes w0 p) = ?T"
    "\<And>p. nodes w0 p = nodes w p \<or> role (nodes w0 p) = Follower \<and> current_term (nodes w0 p) = ?T \<and>
      modest (2 * 2 ^ 56 + 1) (nodes w0 p)"
    using depose_all [OF assms(1) q(1) subset_refl calm_distinct [OF assms(1)] bound top T modest] by blast
  have modest0: "modest (2 ^ 58) (nodes w0 p)" if "p \<in> set V" for p
    using w0(5) [of p]
  proof (elim disjE conjE)
    assume "nodes w0 p = nodes w p"
    with modest [OF that] have "modest (2 ^ 56) (nodes w0 p)" by simp
    then show ?thesis by (rule modest_mono) simp
  next
    assume "modest (2 * 2 ^ 56 + 1) (nodes w0 p)"
    then show ?thesis by (rule modest_mono) simp
  qed
  have low: "current_term (nodes w0 p) \<le> ?T" if "p \<in> set V" for p using w0(5) [of p] top [OF that] by auto
  have "\<exists>i w1. i \<in> set V \<and> runs w w1 \<and> calm V w1 \<and> role (nodes w1 i) = Leader \<and> modest (2 ^ 61) (nodes w1 i) \<and>
    (\<forall>p \<in> set V. p \<noteq> i \<longrightarrow> follower_in (current_term (nodes w1 i)) (nodes w1 p))"
  proof (cases "\<exists>i \<in> set V. role (nodes w0 i) = Leader")
    case True
    then obtain i where i: "i \<in> set V" "role (nodes w0 i) = Leader" by blast
    have "follower_in (current_term (nodes w0 i)) (nodes w0 p)" if "p \<in> set V" "p \<noteq> i" for p
      using that i w0(4) leader_of_term [OF w0(2), of p i] low [OF that(1)] by (auto simp: follower_in_def)
    moreover have "modest (2 ^ 61) (nodes w0 i)" by (rule modest_mono [OF modest0 [OF i(1)]]) simp
    ultimately show ?thesis using i w0(1,2) by blast
  next
    case False
    obtain i where i: "i \<in> set V" "\<And>p. p \<in> set V \<Longrightarrow> no_newer (nodes w0 i) (nodes w0 p)"
      using best_voter [OF assms(2), of "nodes w0"] by blast
    define d where "d = ?T - current_term (nodes w0 i)"
    have d: "d < 2 ^ 58" "current_term (nodes w0 i) + d = ?T" using T low [OF i(1)] by (simp_all add: d_def)
    have "2 \<le> length V \<or> d = 0"
    proof (cases "length V < 2")
      case True
      with i(1) q(1) have "i = q" by (cases V) auto
      with w0(3) show ?thesis by (simp add: d_def)
    qed simp
    moreover have "role (nodes w0 p) \<noteq> Leader \<and> current_term (nodes w0 p) \<le> current_term (nodes w0 i) + d \<and>
        no_newer (nodes w0 i) (nodes w0 p)" if "p \<in> set V" for p
      using False i(2) low d(2) that by simp
    moreover have "(2 :: nat) ^ 58 \<le> 2 ^ 61" by simp
    ultimately obtain w1 where w1: "runs w0 w1" "calm V w1" "role (nodes w1 i) = Leader" "modest (4 * 2 ^ 58) (nodes w1 i)"
      "\<forall>p \<in> set V. p \<noteq> i \<longrightarrow> follower_in (current_term (nodes w1 i)) (nodes w1 p)"
      using takes_over [OF w0(2) i(1) _ modest0 [OF i(1)] _ d(1)] i(1) by blast
    have "modest (2 ^ 61) (nodes w1 i)" by (rule modest_mono [OF w1(4)]) simp
    with i(1) w1(2,3,5) runs_trans [OF w0(1) w1(1)] show ?thesis by blast
  qed
  then obtain i w1 where w1: "i \<in> set V" "runs w w1" "calm V w1" "role (nodes w1 i) = Leader" "modest (2 ^ 61) (nodes w1 i)"
    "\<And>p. p \<in> set V \<Longrightarrow> p \<noteq> i \<Longrightarrow> follower_in (current_term (nodes w1 i)) (nodes w1 p)" by blast
  from proposal_succeeds [OF w1(3,1,4,5,6), of cmd] w1(1,2,4) show ?thesis by blast
qed

section \<open>The properties\<close>

text \<open>C8. The cluster never gets stuck: from every world with counters below \<open>2 ^ 56\<close>, whatever was lost and whoever
  leads, there is a run of clock ticks and deliveries to a leader that accepts a command, and a
  run from there after which that leader has the command committed at the index it took.\<close>

theorem cluster_can_commit:
  assumes "log_cluster V w D" and "V \<noteq> []" and "\<And>i. i \<in> set V \<Longrightarrow> modest (2 ^ 56) (nodes w i)"
  shows "\<exists>i w1 w'. i \<in> set V \<and> runs w w1 \<and> role (nodes w1 i) = Leader \<and>
    runs (after i (Op_Propose cmd) w1) w' \<and> role (nodes w' i) = Leader \<and>
    log (nodes w' i) = log (nodes w1 i) @ [\<lparr>entry_term = current_term (nodes w1 i), payload = Command cmd\<rparr>] \<and>
    commit_index (nodes w' i) = Suc (length (log (nodes w1 i)))"
  by (rule can_commit [OF _ assms(2,3)]) (use assms(1) in \<open>auto simp: calm_def\<close>)

theorem cluster_can_commit_witness:
  "\<exists>i w1 w'. runs world_3 w1 \<and> role (nodes w1 i) = Leader \<and> runs (after i (Op_Propose [7]) w1) w' \<and>
     commit_index (nodes w' i) = Suc (length (log (nodes w1 i))) \<and> payload (last (log (nodes w' i))) = Command [7]"
proof -
  obtain D where D: "log_cluster trio world_3 D" using log_cluster_world_3 by blast
  have "list_all (\<lambda>i. modest 9 (nodes world_3 i)) trio" by code_simp
  then have small: "modest 9 (nodes world_3 i)" if "i \<in> set trio" for i using that by (simp add: list_all_iff)
  have "modest (2 ^ 56) (nodes world_3 i)" if "i \<in> set trio" for i by (rule modest_mono [OF small [OF that]]) simp
  moreover have "trio \<noteq> []" by (simp add: trio_def)
  ultimately have "\<exists>i w1 w'. i \<in> set trio \<and> runs world_3 w1 \<and> role (nodes w1 i) = Leader \<and>
    runs (after i (Op_Propose [7]) w1) w' \<and> role (nodes w' i) = Leader \<and>
    log (nodes w' i) = log (nodes w1 i) @ [\<lparr>entry_term = current_term (nodes w1 i), payload = Command [7]\<rparr>] \<and>
    commit_index (nodes w' i) = Suc (length (log (nodes w1 i)))"
    using cluster_can_commit [OF D] by blast
  then obtain i w1 w' where
    "runs world_3 w1" "role (nodes w1 i) = Leader" "runs (after i (Op_Propose [7]) w1) w'"
    "log (nodes w' i) = log (nodes w1 i) @ [\<lparr>entry_term = current_term (nodes w1 i), payload = Command [7]\<rparr>]"
    "commit_index (nodes w' i) = Suc (length (log (nodes w1 i)))" by blast
  then show ?thesis by (intro exI [of _ i] exI [of _ w1] exI [of _ w']) simp
qed

text \<open>C19. A leader's heartbeat never panics in a cluster of fixed membership without snapshots: with timers
  that fit the word, the tick at which it is due sends every voter and learner a batch in the leader's
  term that reaches to the end of its log.\<close>

theorem heartbeat_never_panics:
  assumes "log_cluster V w D" and "role (nodes w i) = Leader"
    and "heartbeat_interval (nodes w i) \<le> Suc (heartbeat_elapsed (nodes w i))"
    and "fits64 (Suc (heartbeat_elapsed (nodes w i)))" and "fits64 (Suc (leader_contact_elapsed (nodes w i)))"
  shows "\<exists>n' es. step (nodes w i) (Tick t) = Some (n', es) \<and>
    (\<forall>p \<in> replication_targets (nodes w i). \<exists>r. Send p (AppendEntries r) \<in> set es \<and>
      ae_term r = current_term (nodes w i) \<and> prev_log_index r + length (entries r) = length (log (nodes w i)))"
proof -
  have calm: "calm V w" using assms(1) by (auto simp: calm_def)
  obtain n' es where tick: "step (nodes w i) (Tick 1) = Some (n', es)"
    and batches: "\<And>p x. p \<in> replication_targets (nodes w i) \<Longrightarrow> next_index (nodes w i) p = Some x \<Longrightarrow>
      Send p (AppendEntries (batch_from (nodes w i) x)) \<in> set es"
    using leader_tick [OF calm assms(2-5)] by blast
  have "step (nodes w i) (Tick t) = Some (n', es)" using tick assms(2) by (simp add: on_tick_def)
  moreover have "\<exists>r. Send p (AppendEntries r) \<in> set es \<and> ae_term r = current_term (nodes w i) \<and>
      prev_log_index r + length (entries r) = length (log (nodes w i))" if p: "p \<in> replication_targets (nodes w i)" for p
  proof -
    obtain x where x: "next_index (nodes w i) p = Some x" "0 < x" "x \<le> Suc (length (log (nodes w i)))"
      by (rule leader_next [OF calm assms(2) p])
    from batches [OF p x(1)] due_batch [OF x(2,3)] show ?thesis by (auto simp: due_def)
  qed
  ultimately show ?thesis by blast
qed

theorem heartbeat_never_panics_witness:
  "\<exists>n' es r. step (nodes world_7 (NodeId 1)) (Tick 1) = Some (n', es) \<and> Send (NodeId 3) (AppendEntries r) \<in> set es \<and>
     prev_log_index r + length (entries r) = 1"
proof -
  obtain D where D: "log_cluster trio world_7 D" using log_cluster_world_7 by blast
  have due: "heartbeat_interval (nodes world_7 (NodeId 1)) \<le> Suc (heartbeat_elapsed (nodes world_7 (NodeId 1)))"
    by code_simp
  have "modest 9 (nodes world_7 (NodeId 1))" by code_simp
  then have fits: "fits64 (Suc (heartbeat_elapsed (nodes world_7 (NodeId 1))))"
    "fits64 (Suc (leader_contact_elapsed (nodes world_7 (NodeId 1))))" by (auto simp: modest_def fits64_def)
  have "NodeId 3 \<in> replication_targets (nodes world_7 (NodeId 1))" by code_simp
  with heartbeat_never_panics [OF D conjunct1 [OF world_7_leader] due fits, of 1] world_7_logs
  show ?thesis by fastforce
qed

end
