(* ===== verification/Dto.thy ===== *)
theory Dto
  imports Kv_State_Machine Raft_Types
begin

text \<open>
  The conversions of \<^verbatim>\<open>crates/kurogane-runtime/src/dto.rs\<close> between the protobuf messages of
  \<^verbatim>\<open>proto/kurogane.proto\<close> and the types of the core crates. A message is a record of its fields;
  a \<^verbatim>\<open>oneof\<close> is an optional value of a datatype, an \<^verbatim>\<open>optional\<close> field an option, a
  \<^verbatim>\<open>repeated\<close> field a list. The locale \<open>wire_type\<close> is the contract of a pair of conversions:
  what is sent arrives. Only a configuration whose old voter set is present but empty does not
  survive, because the wire uses the empty list for an absent one.
\<close>

section \<open>The messages\<close>

record proto_request_vote =
  prv_term :: u64
  prv_candidate_id :: u64
  prv_last_log_index :: u64
  prv_last_log_term :: u64

record proto_request_vote_reply =
  prvr_term :: u64
  prvr_granted :: bool

record proto_configuration =
  pc_voters :: "u64 list"
  pc_old_voters :: "u64 list"

datatype proto_payload =
    ProtoCommand bytes
  | ProtoConfiguration proto_configuration

record proto_log_entry =
  ple_term :: u64
  ple_payload :: "proto_payload option"

record proto_append_entries =
  pae_term :: u64
  pae_leader_id :: u64
  pae_prev_log_index :: u64
  pae_prev_log_term :: u64
  pae_entries :: "proto_log_entry list"
  pae_leader_commit :: u64

record proto_append_entries_reply =
  paer_term :: u64
  paer_success :: bool
  paer_match_index :: u64

record proto_install_snapshot =
  pis_term :: u64
  pis_leader_id :: u64
  pis_last_included_index :: u64
  pis_last_included_term :: u64
  pis_data :: bytes
  pis_config :: "proto_configuration option"

record proto_install_snapshot_reply =
  pisr_term :: u64
  pisr_last_included_index :: u64

datatype proto_command_kind =
    ProtoSet bytes bytes
  | ProtoDelete bytes
  | ProtoGet bytes

datatype proto_result_kind =
    ProtoSetResult "bytes option"
  | ProtoDeleteResult "bytes option"
  | ProtoGetResult "bytes option"

record proto_add_learner =
  pal_node_id :: u64
  pal_address :: string

datatype missing_field = MissingLogEntryPayload | MissingCommandKind | MissingApplyResultKind

section \<open>Peer messages\<close>

definition request_vote_from_proto :: "proto_request_vote \<Rightarrow> request_vote" where
  "request_vote_from_proto p = \<lparr>rv_term = prv_term p, candidate_id = NodeId (prv_candidate_id p),
     rv_last_log_index = prv_last_log_index p, rv_last_log_term = prv_last_log_term p\<rparr>"

definition request_vote_to_proto :: "request_vote \<Rightarrow> proto_request_vote" where
  "request_vote_to_proto v = \<lparr>prv_term = rv_term v, prv_candidate_id = node_no (candidate_id v),
     prv_last_log_index = rv_last_log_index v, prv_last_log_term = rv_last_log_term v\<rparr>"

definition request_vote_response_from_proto :: "proto_request_vote_reply \<Rightarrow> request_vote_response" where
  "request_vote_response_from_proto p = \<lparr>rvr_term = prvr_term p, granted = prvr_granted p\<rparr>"

definition request_vote_response_to_proto :: "request_vote_response \<Rightarrow> proto_request_vote_reply" where
  "request_vote_response_to_proto v = \<lparr>prvr_term = rvr_term v, prvr_granted = granted v\<rparr>"

definition configuration_from_proto :: "proto_configuration \<Rightarrow> cluster_config" where
  "configuration_from_proto p = \<lparr>voters = map NodeId (pc_voters p),
     old_voters = (if pc_old_voters p = [] then None else Some (map NodeId (pc_old_voters p)))\<rparr>"

definition configuration_to_proto :: "cluster_config \<Rightarrow> proto_configuration" where
  "configuration_to_proto v = \<lparr>pc_voters = map node_no (voters v),
     pc_old_voters = map node_no (case old_voters v of Some vs \<Rightarrow> vs | None \<Rightarrow> [])\<rparr>"

definition log_entry_from_proto :: "proto_log_entry \<Rightarrow> missing_field + log_entry" where
  "log_entry_from_proto p =
     (case ple_payload p of
        None \<Rightarrow> Inl MissingLogEntryPayload
      | Some (ProtoCommand bs) \<Rightarrow> Inr \<lparr>entry_term = ple_term p, payload = Command bs\<rparr>
      | Some (ProtoConfiguration c) \<Rightarrow>
          Inr \<lparr>entry_term = ple_term p, payload = Configuration (configuration_from_proto c)\<rparr>)"

definition log_entry_to_proto :: "log_entry \<Rightarrow> proto_log_entry" where
  "log_entry_to_proto v = \<lparr>ple_term = entry_term v, ple_payload = Some (case payload v of
     Command bs \<Rightarrow> ProtoCommand bs
   | Configuration c \<Rightarrow> ProtoConfiguration (configuration_to_proto c))\<rparr>"

text \<open>\<^verbatim>\<open>collect::<Result<Vec<_>, _>>()\<close>: the first error wins.\<close>

fun collect_results :: "('a \<Rightarrow> 'e + 'b) \<Rightarrow> 'a list \<Rightarrow> 'e + 'b list" where
  "collect_results f [] = Inr []"
| "collect_results f (x # xs) =
     and_then (f x) (\<lambda>y. and_then (collect_results f xs) (\<lambda>ys. Inr (y # ys)))"

definition append_entries_from_proto :: "proto_append_entries \<Rightarrow> missing_field + append_entries" where
  "append_entries_from_proto p =
     and_then (collect_results log_entry_from_proto (pae_entries p)) (\<lambda>es.
       Inr \<lparr>ae_term = pae_term p, ae_leader_id = NodeId (pae_leader_id p),
         prev_log_index = pae_prev_log_index p, prev_log_term = pae_prev_log_term p,
         entries = es, leader_commit = pae_leader_commit p\<rparr>)"

definition append_entries_to_proto :: "append_entries \<Rightarrow> proto_append_entries" where
  "append_entries_to_proto v = \<lparr>pae_term = ae_term v, pae_leader_id = node_no (ae_leader_id v),
     pae_prev_log_index = prev_log_index v, pae_prev_log_term = prev_log_term v,
     pae_entries = map log_entry_to_proto (entries v), pae_leader_commit = leader_commit v\<rparr>"

definition append_entries_response_from_proto ::
    "proto_append_entries_reply \<Rightarrow> append_entries_response" where
  "append_entries_response_from_proto p =
     \<lparr>aer_term = paer_term p, success = paer_success p, aer_match_index = paer_match_index p\<rparr>"

definition append_entries_response_to_proto ::
    "append_entries_response \<Rightarrow> proto_append_entries_reply" where
  "append_entries_response_to_proto v =
     \<lparr>paer_term = aer_term v, paer_success = success v, paer_match_index = aer_match_index v\<rparr>"

definition install_snapshot_from_proto :: "proto_install_snapshot \<Rightarrow> install_snapshot" where
  "install_snapshot_from_proto p = \<lparr>is_term = pis_term p, is_leader_id = NodeId (pis_leader_id p),
     is_last_included_index = pis_last_included_index p,
     is_last_included_term = pis_last_included_term p, is_data = pis_data p,
     is_config = (case pis_config p of Some c \<Rightarrow> configuration_from_proto c | None \<Rightarrow> default_config)\<rparr>"

definition install_snapshot_to_proto :: "install_snapshot \<Rightarrow> proto_install_snapshot" where
  "install_snapshot_to_proto v = \<lparr>pis_term = is_term v, pis_leader_id = node_no (is_leader_id v),
     pis_last_included_index = is_last_included_index v,
     pis_last_included_term = is_last_included_term v, pis_data = is_data v,
     pis_config = Some (configuration_to_proto (is_config v))\<rparr>"

definition install_snapshot_response_from_proto ::
    "proto_install_snapshot_reply \<Rightarrow> install_snapshot_response" where
  "install_snapshot_response_from_proto p =
     \<lparr>isr_term = pisr_term p, isr_last_included_index = pisr_last_included_index p\<rparr>"

definition install_snapshot_response_to_proto ::
    "install_snapshot_response \<Rightarrow> proto_install_snapshot_reply" where
  "install_snapshot_response_to_proto v =
     \<lparr>pisr_term = isr_term v, pisr_last_included_index = isr_last_included_index v\<rparr>"

section \<open>Client messages\<close>

definition propose_config_change_from_proto :: "u64 list \<Rightarrow> node_id list" where
  "propose_config_change_from_proto vs = map NodeId vs"

definition propose_config_change_to_proto :: "node_id list \<Rightarrow> u64 list" where
  "propose_config_change_to_proto vs = map node_no vs"

definition add_learner_from_proto :: "proto_add_learner \<Rightarrow> node_id \<times> string" where
  "add_learner_from_proto p = (NodeId (pal_node_id p), pal_address p)"

definition add_learner_to_proto :: "node_id \<Rightarrow> string \<Rightarrow> proto_add_learner" where
  "add_learner_to_proto i address = \<lparr>pal_node_id = node_no i, pal_address = address\<rparr>"

fun command_from_proto :: "proto_command_kind option \<Rightarrow> missing_field + command" where
  "command_from_proto None = Inl MissingCommandKind"
| "command_from_proto (Some (ProtoSet k v)) = Inr (Set k v)"
| "command_from_proto (Some (ProtoDelete k)) = Inr (Delete k)"
| "command_from_proto (Some (ProtoGet k)) = Inr (Get k)"

fun command_to_proto :: "command \<Rightarrow> proto_command_kind option" where
  "command_to_proto (Set k v) = Some (ProtoSet k v)"
| "command_to_proto (Delete k) = Some (ProtoDelete k)"
| "command_to_proto (Get k) = Some (ProtoGet k)"

fun apply_result_from_proto :: "proto_result_kind option \<Rightarrow> missing_field + apply_result" where
  "apply_result_from_proto None = Inl MissingApplyResultKind"
| "apply_result_from_proto (Some (ProtoSetResult p)) = Inr (SetResult p)"
| "apply_result_from_proto (Some (ProtoDeleteResult p)) = Inr (DeleteResult p)"
| "apply_result_from_proto (Some (ProtoGetResult v)) = Inr (GetResult v)"

fun apply_result_to_proto :: "apply_result \<Rightarrow> proto_result_kind option" where
  "apply_result_to_proto (SetResult p) = Some (ProtoSetResult p)"
| "apply_result_to_proto (DeleteResult p) = Some (ProtoDeleteResult p)"
| "apply_result_to_proto (GetResult v) = Some (ProtoGetResult v)"

section \<open>What is sent arrives\<close>

locale wire_type =
  fixes to_wire :: "'a \<Rightarrow> 'w"
    and from_wire :: "'w \<Rightarrow> 'e + 'a"
    and sendable :: "'a \<Rightarrow> bool"
  assumes arrives: "sendable x \<Longrightarrow> from_wire (to_wire x) = Inr x"
begin

lemma arrives_all: "list_all sendable xs \<Longrightarrow> collect_results from_wire (map to_wire xs) = Inr xs"
  by (induction xs) (auto simp: arrives)

lemma to_wire_inj: "sendable x \<Longrightarrow> sendable y \<Longrightarrow> to_wire x = to_wire y \<Longrightarrow> x = y"
  by (metis arrives sum.inject(2))

end

text \<open>The one value the wire cannot carry: a joint configuration with no old voters.\<close>

definition sendable_config :: "cluster_config \<Rightarrow> bool" where
  "sendable_config c \<longleftrightarrow> old_voters c \<noteq> Some []"

definition sendable_entry :: "log_entry \<Rightarrow> bool" where
  "sendable_entry e \<longleftrightarrow> (case payload e of Configuration c \<Rightarrow> sendable_config c | Command _ \<Rightarrow> True)"

lemma node_id_round_trip [simp]: "NodeId \<circ> node_no = id"
  by (simp add: fun_eq_iff)

lemma configuration_arrives:
  "sendable_config c \<Longrightarrow> configuration_from_proto (configuration_to_proto c) = c"
  by (cases c) (auto simp: configuration_from_proto_def configuration_to_proto_def
      sendable_config_def split: option.splits)

interpretation log_entry_wire: wire_type log_entry_to_proto log_entry_from_proto sendable_entry
  by unfold_locales
     (auto simp: log_entry_to_proto_def log_entry_from_proto_def sendable_entry_def
       configuration_arrives split: log_payload.splits)

interpretation append_entries_wire: wire_type append_entries_to_proto append_entries_from_proto
    "\<lambda>r. list_all sendable_entry (entries r)"
  by unfold_locales
     (simp add: append_entries_to_proto_def append_entries_from_proto_def log_entry_wire.arrives_all)

interpretation install_snapshot_wire: wire_type install_snapshot_to_proto
    "\<lambda>p. Inr (install_snapshot_from_proto p) :: missing_field + _" "\<lambda>r. sendable_config (is_config r)"
  by unfold_locales
     (simp add: install_snapshot_to_proto_def install_snapshot_from_proto_def configuration_arrives)

interpretation command_wire: wire_type command_to_proto command_from_proto "\<lambda>_. True"
proof
  show "command_from_proto (command_to_proto c) = Inr c" for c by (cases c) auto
qed

interpretation apply_result_wire: wire_type apply_result_to_proto apply_result_from_proto "\<lambda>_. True"
proof
  show "apply_result_from_proto (apply_result_to_proto r) = Inr r" for r by (cases r) auto
qed

lemma response_round_trips:
  "request_vote_from_proto (request_vote_to_proto rv) = rv"
  "request_vote_response_from_proto (request_vote_response_to_proto rvr) = rvr"
  "append_entries_response_from_proto (append_entries_response_to_proto aer) = aer"
  "install_snapshot_response_from_proto (install_snapshot_response_to_proto isr) = isr"
  "propose_config_change_from_proto (propose_config_change_to_proto vs) = vs"
  "add_learner_from_proto (add_learner_to_proto i address) = (i, address)"
  by (simp_all add: request_vote_from_proto_def request_vote_to_proto_def
      request_vote_response_from_proto_def request_vote_response_to_proto_def
      append_entries_response_from_proto_def append_entries_response_to_proto_def
      install_snapshot_response_from_proto_def install_snapshot_response_to_proto_def
      propose_config_change_from_proto_def propose_config_change_to_proto_def
      add_learner_from_proto_def add_learner_to_proto_def)

end
