(* ===== verification/Storage.thy ===== *)
theory Storage
  imports Raft_Votes Dto
begin

text \<open>
  \<^verbatim>\<open>crates/kurogane-runtime/src/storage.rs\<close>: the file that backs a node. The locale
  \<open>durable_store\<close> is the contract between a node's owner and its store; the in-memory image of
  the simulator and the file store of the runtime are its two instances, so both follow a node
  through every operation. The protobuf codec of \<^verbatim>\<open>prost\<close> is a parameter.
\<close>

section \<open>The contract of a durable store\<close>

text \<open>A store is anything whose image reacts to an effect as \<open>durable_apply\<close> says.\<close>

locale durable_store =
  fixes image :: "'s \<Rightarrow> durable_state"
    and put :: "'s \<Rightarrow> effect \<Rightarrow> 's option"
  assumes put_image: "map_option image (put s e) = durable_apply (image s) e"
begin

fun put_all :: "'s \<Rightarrow> effect list \<Rightarrow> 's option" where
  "put_all s [] = Some s"
| "put_all s (e # es) = do { s' \<leftarrow> put s e; put_all s' es }"

lemma put_all_image: "map_option image (put_all s es) = durable_apply_all (image s) es"
proof (induction es arbitrary: s)
  case (Cons e es)
  show ?case
    using Cons.IH put_image [of s e, symmetric] by (cases "put s e") auto
qed simp

lemma put_all_persists:
  assumes "persists n es n'" and "persisted (image s) n"
  shows "\<exists>s'. put_all s es = Some s' \<and> persisted (image s') n'"
  using persistsD [OF assms] put_all_image [of s es] by auto

lemma put_all_run_op:
  assumes "run_op n op = Some (n', es)" and "node_inv n" and "persisted (image s) n"
  shows "\<exists>s'. put_all s es = Some s' \<and> persisted (image s') n'"
  using put_all_persists [OF persists_run_op [OF assms(1,2)] assms(3)] .

lemma restart_restores:
  assumes "persisted (image s) n" and "node_inv n"
    and "recover_from (image s) i peers timeout heartbeat = Some (Inr m)"
    and "0 < boundary n \<or> snapshot_config n = \<lparr>voters = peers, old_voters = None\<rparr>"
  shows "durable_part m = durable_part n" and "current_config m = current_config n"
  using recover_from_restores [OF assms] by simp_all

end

interpretation memory_store: durable_store "\<lambda>d. d" durable_apply
  by unfold_locales (simp add: option.map_ident)

section \<open>The record on disk\<close>

record proto_storage_state =
  pss_current_term :: u64
  pss_voted_for :: "u64 option"
  pss_log :: "proto_log_entry list"
  pss_snapshot_last_included_index :: u64
  pss_snapshot_last_included_term :: u64
  pss_snapshot_data :: bytes
  pss_learners :: "u64 list"
  pss_snapshot_config :: "proto_configuration option"

record storage =
  st_path :: string
  st_hard_state :: hard_state
  st_log :: "log_entry list"
  st_snapshot :: snapshot_metadata
  st_snapshot_data :: bytes
  st_snapshot_config :: cluster_config
  st_learners :: "node_id list"

datatype io_error = NotFound | InvalidData | OtherIo

type_synonym encoder = "proto_storage_state \<Rightarrow> bytes"
type_synonym decoder = "bytes \<Rightarrow> unit + proto_storage_state"

definition storage_from_record :: "string \<Rightarrow> proto_storage_state \<Rightarrow> io_error + storage" where
  "storage_from_record path p =
     (case collect_results log_entry_from_proto (pss_log p) of
        Inl _ \<Rightarrow> Inl InvalidData
      | Inr lg \<Rightarrow> Inr \<lparr>st_path = path,
          st_hard_state = \<lparr>hs_current_term = pss_current_term p,
            hs_voted_for = map_option NodeId (pss_voted_for p)\<rparr>,
          st_log = lg,
          st_snapshot = \<lparr>last_included_index = pss_snapshot_last_included_index p,
            last_included_term = pss_snapshot_last_included_term p\<rparr>,
          st_snapshot_data = pss_snapshot_data p,
          st_snapshot_config = (case pss_snapshot_config p of
            Some c \<Rightarrow> configuration_from_proto c | None \<Rightarrow> default_config),
          st_learners = map NodeId (pss_learners p)\<rparr>)"

text \<open>\<^verbatim>\<open>Storage::open\<close>; \<open>contents\<close> is what \<^verbatim>\<open>fs::read\<close> returned for the path, \<open>decode_state\<close>
  is prost's decoder.\<close>

definition storage_open :: "decoder \<Rightarrow> string \<Rightarrow> io_error + bytes \<Rightarrow> io_error + storage" where
  "storage_open decode_state path contents =
     (case contents of
        Inr bs \<Rightarrow>
          (case decode_state bs of
             Inl _ \<Rightarrow> Inl InvalidData
           | Inr p \<Rightarrow> storage_from_record path p)
      | Inl NotFound \<Rightarrow> Inr \<lparr>st_path = path, st_hard_state = default_hard_state, st_log = [],
          st_snapshot = default_metadata, st_snapshot_data = [],
          st_snapshot_config = default_config, st_learners = []\<rparr>
      | Inl e \<Rightarrow> Inl e)"

definition storage_record :: "storage \<Rightarrow> proto_storage_state" where
  "storage_record s = \<lparr>pss_current_term = hs_current_term (st_hard_state s),
     pss_voted_for = map_option node_no (hs_voted_for (st_hard_state s)),
     pss_log = map log_entry_to_proto (st_log s),
     pss_snapshot_last_included_index = last_included_index (st_snapshot s),
     pss_snapshot_last_included_term = last_included_term (st_snapshot s),
     pss_snapshot_data = st_snapshot_data s,
     pss_learners = map node_no (st_learners s),
     pss_snapshot_config = Some (configuration_to_proto (st_snapshot_config s))\<rparr>"

text \<open>How the three calls of \<^verbatim>\<open>flush\<close> end, and what the file then holds. Creating the file
  truncates it, so a failed write leaves a prefix.\<close>

datatype flush_outcome = Flushed | CreateFails | WriteFails nat | SyncFails

definition flush ::
    "encoder \<Rightarrow> flush_outcome \<Rightarrow> storage \<Rightarrow> bytes option \<Rightarrow> bytes option \<times> (io_error + unit)" where
  "flush encode_state outcome s file =
     (let bs = encode_state (storage_record s) in
      case outcome of
        CreateFails \<Rightarrow> (file, Inl OtherIo)
      | WriteFails k \<Rightarrow> (Some (take k bs), Inl OtherIo)
      | SyncFails \<Rightarrow> (Some bs, Inl OtherIo)
      | Flushed \<Rightarrow> (Some bs, Inr ()))"

text \<open>The change of the record in memory, before the flush; \<open>None\<close> is the underflow of
  \<^verbatim>\<open>from_index - last_included_index - 1\<close>.\<close>

fun storage_update :: "storage \<Rightarrow> effect \<Rightarrow> storage option" where
  "storage_update s (PersistHardState t v) =
     Some (s\<lparr>st_hard_state := \<lparr>hs_current_term = t, hs_voted_for = v\<rparr>\<rparr>)"
| "storage_update s (PersistLog from_index es) = do {
     a \<leftarrow> sub64 from_index (last_included_index (st_snapshot s));
     k \<leftarrow> sub64 a 1;
     Some (s\<lparr>st_log := take k (st_log s) @ es\<rparr>)
   }"
| "storage_update s (PersistSnapshot i t data config) =
     Some (s\<lparr>st_snapshot := \<lparr>last_included_index = i, last_included_term = t\<rparr>,
             st_snapshot_data := data, st_snapshot_config := config\<rparr>)"
| "storage_update s (Send to m) = Some s"
| "storage_update s (PersistLearners ls) = Some (s\<lparr>st_learners := ls\<rparr>)"

definition storage_apply ::
    "encoder \<Rightarrow> flush_outcome \<Rightarrow> storage \<times> bytes option \<Rightarrow> effect \<Rightarrow>
     ((storage \<times> bytes option) \<times> (io_error + unit)) option" where
  "storage_apply encode_state outcome sf e = do {
     s' \<leftarrow> storage_update (fst sf) e;
     if is_send e then Some ((s', snd sf), Inr ())
     else (let (file', res) = flush encode_state outcome s' (snd sf) in Some ((s', file'), res))
   }"

section \<open>Storage refines the durable image\<close>

definition storage_image :: "storage \<Rightarrow> durable_state" where
  "storage_image s = \<lparr>ds_hard_state = st_hard_state s, ds_log = st_log s,
     ds_snapshot = st_snapshot s, ds_snapshot_data = st_snapshot_data s,
     ds_snapshot_config = st_snapshot_config s, ds_learners = st_learners s\<rparr>"

text \<open>The writes that succeed.\<close>

definition storage_write ::
    "encoder \<Rightarrow> storage \<times> bytes option \<Rightarrow> effect \<Rightarrow> (storage \<times> bytes option) option" where
  "storage_write encode_state sf e = map_option fst (storage_apply encode_state Flushed sf e)"

lemma storage_update_image:
  "map_option storage_image (storage_update s e) = durable_apply (storage_image s) e"
proof (cases e)
  case (PersistLog i es)
  then show ?thesis
    by (cases "last_included_index (st_snapshot s) \<le> i")
       (auto simp: storage_image_def sub64_def)
qed (auto simp: storage_image_def)

lemma storage_write_eq:
  "storage_write enc (s, file) e = do {
     s' \<leftarrow> storage_update s e;
     Some (s', if is_send e then file else Some (enc (storage_record s')))
   }"
  by (cases "storage_update s e")
     (auto simp: storage_write_def storage_apply_def flush_def Let_def)

interpretation file_store: durable_store "\<lambda>sf. storage_image (fst sf)" "storage_write enc" for enc
proof
  show "map_option (\<lambda>sf. storage_image (fst sf)) (storage_write enc sf e) =
      durable_apply (storage_image (fst sf)) e" for sf e
    using storage_update_image [of "fst sf" e, symmetric]
    by (cases sf; cases "storage_update (fst sf) e") (auto simp: storage_write_eq)
qed

text \<open>Reading the file back gives the record that was flushed.\<close>

definition storable :: "storage \<Rightarrow> bool" where
  "storable s \<longleftrightarrow> list_all sendable_entry (st_log s) \<and> sendable_config (st_snapshot_config s)"

lemma storage_from_record_record:
  "storable s \<Longrightarrow> storage_from_record (st_path s) (storage_record s) = Inr s"
  by (cases s; cases "st_hard_state s"; cases "st_snapshot s")
     (auto simp: storage_from_record_def storage_record_def storable_def
       log_entry_wire.arrives_all configuration_arrives option.map_comp option.map_id0)

lemma storage_path [simp]: "storage_update s e = Some s' \<Longrightarrow> st_path s' = st_path s"
  by (cases e) (auto simp: run_simps)

text \<open>The file is in step with the record in memory, or was never written.\<close>

definition file_in_step :: "encoder \<Rightarrow> storage \<times> bytes option \<Rightarrow> bool" where
  "file_in_step enc sf \<longleftrightarrow>
     (case snd sf of
        Some bs \<Rightarrow> bs = enc (storage_record (fst sf))
      | None \<Rightarrow> storage_image (fst sf) = default_durable_state)"

lemma file_in_step_write:
  assumes "storage_write enc sf e = Some sf'" and "file_in_step enc sf"
  shows "file_in_step enc sf'"
proof (cases "is_send e")
  case True
  with assms show ?thesis by (cases sf; cases e) (auto simp: storage_write_eq)
next
  case False
  with assms(1) show ?thesis by (cases sf) (auto simp: storage_write_eq file_in_step_def bind_eq_Some_conv)
qed

lemma file_in_step_write_all:
  "file_store.put_all enc sf es = Some sf' \<Longrightarrow> file_in_step enc sf \<Longrightarrow> file_in_step enc sf'"
  by (induction es arbitrary: sf) (auto simp: bind_eq_Some_conv dest: file_in_step_write)

lemma storage_reopen:
  assumes "file_in_step enc (s, file)" and "storable s"
    and "dec (enc (storage_record s)) = Inr (storage_record s)"
  shows "\<exists>s'. storage_open dec (st_path s) (case file of Some bs \<Rightarrow> Inr bs | None \<Rightarrow> Inl NotFound) = Inr s' \<and>
    storage_image s' = storage_image s"
proof (cases "file")
  case None
  with assms(1) show ?thesis
    by (auto simp: file_in_step_def storage_open_def storage_image_def default_durable_state_def)
next
  case (Some bs)
  with assms show ?thesis
    by (auto simp: file_in_step_def storage_open_def storage_from_record_record)
qed

end
