(* ===== verification/Actor.thy ===== *)
theory Actor
  imports Kv_Replica Storage
begin

text \<open>
  \<^verbatim>\<open>crates/kurogane-runtime/src/actor.rs\<close>: the single owner of a replica, its store and its
  transport, with the request loop \<^verbatim>\<open>run\<close>. With a healthy disk every request leaves the store in
  step with the node (\<open>in_step_run_actor\<close>), through the contract \<open>durable_store\<close>; with a failing
  one a batch stops before anything is sent (\<open>dispatch_failed\<close>). A peer request is answered by
  exactly the one message its batch ends with (\<open>handle_peer_request_reply\<close>).
\<close>

section \<open>The actor\<close>

text \<open>The transport is what was handed to it, in order (\<open>ac_sent\<close>), and the addresses it was
  given (\<open>ac_peers\<close>); whether an address parses is a parameter. \<open>ac_io\<close> lists how the coming
  flushes end; when it is used up they succeed.\<close>

record actor =
  ac_replica :: replica
  ac_storage :: "storage \<times> bytes option"
  ac_sent :: "(node_id \<times> message) list"
  ac_peers :: "(node_id \<times> string) list"
  ac_io :: "flush_outcome list"
  leader_hint :: "node_id option"
  compact_threshold :: u64

datatype propose_outcome = Accepted u64 | NotLeader "node_id option"

datatype add_learner_outcome = LearnerAccepted bool | LearnerNotLeader "node_id option"

definition new_actor :: "replica \<Rightarrow> storage \<times> bytes option \<Rightarrow> u64 \<Rightarrow> actor" where
  "new_actor r st threshold = \<lparr>ac_replica = r, ac_storage = st, ac_sent = [], ac_peers = [],
     ac_io = [], leader_hint = None, compact_threshold = threshold\<rparr>"

definition actor_entry_term :: "actor \<Rightarrow> u64 \<Rightarrow> u64 option option" where
  "actor_entry_term a index = do {
     found \<leftarrow> entry_at (rp_node (ac_replica a)) index;
     Some (map_option entry_term found)
   }"

definition put_effect :: "encoder \<Rightarrow> actor \<Rightarrow> effect \<Rightarrow> (actor \<times> (io_error + unit)) option" where
  "put_effect enc a e = do {
     let outcome = (case ac_io a of [] \<Rightarrow> Flushed | x # _ \<Rightarrow> x);
     (st, res) \<leftarrow> storage_apply enc outcome (ac_storage a) e;
     Some (a\<lparr>ac_storage := st, ac_io := tl (ac_io a)\<rparr>, res)
   }"

fun dispatch :: "encoder \<Rightarrow> actor \<Rightarrow> effect list \<Rightarrow> (actor \<times> (io_error + unit)) option" where
  "dispatch enc a [] = Some (a, Inr ())"
| "dispatch enc a (Send to m # es) = dispatch enc (a\<lparr>ac_sent := ac_sent a @ [(to, m)]\<rparr>) es"
| "dispatch enc a (e # es) = do {
     (a', res) \<leftarrow> put_effect enc a e;
     case res of Inl err \<Rightarrow> Some (a', Inl err) | Inr _ \<Rightarrow> dispatch enc a' es
   }"

text \<open>\<^verbatim>\<open>?\<close> on an I/O result: continue with the new state unless the call failed.\<close>

definition then_io ::
    "(actor \<times> (io_error + 'a)) option \<Rightarrow> (actor \<Rightarrow> 'a \<Rightarrow> (actor \<times> (io_error + 'b)) option) \<Rightarrow>
     (actor \<times> (io_error + 'b)) option" where
  "then_io m f = do {
     (a, res) \<leftarrow> m;
     case res of Inl err \<Rightarrow> Some (a, Inl err) | Inr x \<Rightarrow> f a x
   }"

definition maybe_compact :: "encoder \<Rightarrow> actor \<Rightarrow> (actor \<times> (io_error + unit)) option" where
  "maybe_compact enc a = do {
     applied \<leftarrow> sub64 (last_applied (rp_state_machine (ac_replica a)))
       (boundary (rp_node (ac_replica a)));
     if applied < compact_threshold a then Some (a, Inr ())
     else do {
       (r, res) \<leftarrow> replica_compact (ac_replica a) (compact_threshold a div 2);
       case res of
         None \<Rightarrow> Some (a\<lparr>ac_replica := r\<rparr>, Inr ())
       | Some effects \<Rightarrow> dispatch enc (a\<lparr>ac_replica := r\<rparr>) effects
     }
   }"

definition update_leader_hint :: "actor \<Rightarrow> node_id \<Rightarrow> message \<Rightarrow> actor" where
  "update_leader_hint a sender m =
     (let hint = (\<lambda>leader t.
        if leader = sender \<and> current_term (rp_node (ac_replica a)) \<le> t
        then a\<lparr>leader_hint := Some leader\<rparr> else a)
      in case m of
        AppendEntries r \<Rightarrow> hint (ae_leader_id r) (ae_term r)
      | InstallSnapshot r \<Rightarrow> hint (is_leader_id r) (is_term r)
      | _ \<Rightarrow> a)"

definition handle_event :: "encoder \<Rightarrow> actor \<Rightarrow> event \<Rightarrow> (actor \<times> (io_error + unit)) option" where
  "handle_event enc a ev = do {
     let a1 = (case ev of Step sender m \<Rightarrow> update_leader_hint a sender m | Tick _ \<Rightarrow> a);
     (r, effects) \<leftarrow> replica_step (ac_replica a1) ev;
     then_io (dispatch enc (a1\<lparr>ac_replica := r\<rparr>) effects) (\<lambda>a' _. maybe_compact enc a')
   }"

text \<open>The loop of \<^verbatim>\<open>handle_peer_request\<close> over the effects before the reply: only three kinds are
  written there.\<close>

fun put_request_effects ::
    "encoder \<Rightarrow> actor \<Rightarrow> effect list \<Rightarrow> (actor \<times> (io_error + unit)) option" where
  "put_request_effects enc a [] = Some (a, Inr ())"
| "put_request_effects enc a (Send to m # es) = put_request_effects enc a es"
| "put_request_effects enc a (PersistLearners ls # es) = put_request_effects enc a es"
| "put_request_effects enc a (e # es) =
     then_io (put_effect enc a e) (\<lambda>a' _. put_request_effects enc a' es)"

definition handle_peer_request ::
    "encoder \<Rightarrow> actor \<Rightarrow> node_id \<Rightarrow> message \<Rightarrow> (actor \<times> (io_error + message option)) option" where
  "handle_peer_request enc a sender m = do {
     let a1 = update_leader_hint a sender m;
     (r, effects) \<leftarrow> replica_step (ac_replica a1) (Step sender m);
     let a2 = a1\<lparr>ac_replica := r\<rparr>;
     if effects = [] then Some (a2, Inr None)
     else (case last effects of
       Send _ reply \<Rightarrow>
         then_io (put_request_effects enc a2 (butlast effects)) (\<lambda>a3 _.
           then_io (maybe_compact enc a3) (\<lambda>a4 _. Some (a4, Inr (Some reply))))
     | _ \<Rightarrow> None)
   }"

definition actor_propose ::
    "encoder \<Rightarrow> actor \<Rightarrow> command \<Rightarrow> (actor \<times> (io_error + propose_outcome)) option" where
  "actor_propose enc a c = do {
     (r, res) \<leftarrow> replica_propose (ac_replica a) c;
     let a1 = a\<lparr>ac_replica := r\<rparr>;
     case res of
       None \<Rightarrow> Some (a1, Inr (NotLeader (leader_hint a1)))
     | Some (index, effects) \<Rightarrow>
         then_io (dispatch enc a1 effects) (\<lambda>a2 _.
           then_io (maybe_compact enc a2) (\<lambda>a3 _. Some (a3, Inr (Accepted index))))
   }"

definition actor_propose_config_change ::
    "encoder \<Rightarrow> actor \<Rightarrow> node_id list \<Rightarrow> (actor \<times> (io_error + propose_outcome)) option" where
  "actor_propose_config_change enc a vs = do {
     (r, res) \<leftarrow> replica_propose_config_change (ac_replica a) vs;
     let a1 = a\<lparr>ac_replica := r\<rparr>;
     case res of
       None \<Rightarrow> Some (a1, Inr (NotLeader (leader_hint a1)))
     | Some (index, effects) \<Rightarrow>
         then_io (dispatch enc a1 effects) (\<lambda>a2 _.
           then_io (maybe_compact enc a2) (\<lambda>a3 _. Some (a3, Inr (Accepted index))))
   }"

definition actor_add_learner ::
    "encoder \<Rightarrow> (string \<Rightarrow> bool) \<Rightarrow> actor \<Rightarrow> node_id \<Rightarrow> string \<Rightarrow>
     (actor \<times> (io_error + add_learner_outcome)) option" where
  "actor_add_learner enc valid_address a i address =
     (if role (rp_node (ac_replica a)) \<noteq> Leader
      then Some (a, Inr (LearnerNotLeader (leader_hint a)))
      else do {
        (r, effects) \<leftarrow> replica_add_learner (ac_replica a) i;
        then_io (dispatch enc (a\<lparr>ac_replica := r\<rparr>) effects) (\<lambda>a1 _.
          then_io (maybe_compact enc a1) (\<lambda>a2 _.
            if valid_address address
            then Some (a2\<lparr>ac_peers := (i, address) # ac_peers a2\<rparr>, Inr (LearnerAccepted True))
            else Some (a2, Inr (LearnerAccepted False))))
      })"

definition actor_remove_learner ::
    "encoder \<Rightarrow> actor \<Rightarrow> node_id \<Rightarrow> (actor \<times> (io_error + unit)) option" where
  "actor_remove_learner enc a i = do {
     (r, effects) \<leftarrow> replica_remove_learner (ac_replica a) i;
     then_io (dispatch enc (a\<lparr>ac_replica := r\<rparr>) effects) (\<lambda>a1 _. maybe_compact enc a1)
   }"

section \<open>The request loop\<close>

datatype actor_request =
    RqTick u64
  | RqPeerRequest node_id message
  | RqPeerResponse node_id message
  | RqPropose command
  | RqProposeConfigChange "node_id list"
  | RqAddLearner node_id string
  | RqRemoveLearner node_id
  | RqAppliedResult u64
  | RqEntryTerm u64

datatype actor_reply =
    RpNone
  | RpPeer "message option"
  | RpPropose propose_outcome
  | RpAddLearner add_learner_outcome
  | RpDone
  | RpApplied "apply_result option"
  | RpEntryTerm "u64 option"

text \<open>\<^verbatim>\<open>.expect("durable storage write must succeed")\<close>.\<close>

definition expect_io :: "(actor \<times> (io_error + 'a)) option \<Rightarrow> (actor \<times> 'a) option" where
  "expect_io m = do { (a, res) \<leftarrow> m; x \<leftarrow> expect res; Some (a, x) }"

fun serve ::
    "encoder \<Rightarrow> (string \<Rightarrow> bool) \<Rightarrow> actor \<Rightarrow> actor_request \<Rightarrow> (actor \<times> actor_reply) option" where
  "serve enc valid a (RqTick t) =
     do { (a', _) \<leftarrow> expect_io (handle_event enc a (Tick t)); Some (a', RpNone) }"
| "serve enc valid a (RqPeerRequest sender m) =
     do { (a', reply) \<leftarrow> expect_io (handle_peer_request enc a sender m); Some (a', RpPeer reply) }"
| "serve enc valid a (RqPeerResponse sender m) =
     do { (a', _) \<leftarrow> expect_io (handle_event enc a (Step sender m)); Some (a', RpNone) }"
| "serve enc valid a (RqPropose c) =
     do { (a', x) \<leftarrow> expect_io (actor_propose enc a c); Some (a', RpPropose x) }"
| "serve enc valid a (RqProposeConfigChange vs) =
     do { (a', x) \<leftarrow> expect_io (actor_propose_config_change enc a vs); Some (a', RpPropose x) }"
| "serve enc valid a (RqAddLearner i address) =
     do { (a', x) \<leftarrow> expect_io (actor_add_learner enc valid a i address); Some (a', RpAddLearner x) }"
| "serve enc valid a (RqRemoveLearner i) =
     do { (a', _) \<leftarrow> expect_io (actor_remove_learner enc a i); Some (a', RpDone) }"
| "serve enc valid a (RqAppliedResult index) =
     Some (a, RpApplied (applied_result (ac_replica a) index))"
| "serve enc valid a (RqEntryTerm index) =
     do { t \<leftarrow> actor_entry_term a index; Some (a, RpEntryTerm t) }"

text \<open>\<^verbatim>\<open>run\<close>: one request at a time until the channel closes; \<open>published\<close> is the value the applied
  watch shows after each request.\<close>

fun run_actor ::
    "encoder \<Rightarrow> (string \<Rightarrow> bool) \<Rightarrow> actor \<Rightarrow> actor_request list \<Rightarrow>
     (actor \<times> actor_reply list \<times> u64 list) option" where
  "run_actor enc valid a [] = Some (a, [], [])"
| "run_actor enc valid a (rq # rqs) = do {
     (a', reply) \<leftarrow> serve enc valid a rq;
     (a'', replies, published) \<leftarrow> run_actor enc valid a' rqs;
     Some (a'', reply # replies, last_applied (rp_state_machine (ac_replica a')) # published)
   }"

section \<open>Failed writes stop the batch\<close>

lemma dispatch_sends:
  "\<forall>e \<in> set es. is_send e \<Longrightarrow> dispatch enc a es = Some (a', res) \<Longrightarrow> res = Inr ()"
proof (induction es arbitrary: a)
  case (Cons e es)
  then show ?case by (cases e) auto
qed simp

lemma put_effect_frame:
  "put_effect enc a e = Some (a', res) \<Longrightarrow> ac_sent a' = ac_sent a \<and> ac_replica a' = ac_replica a"
  by (auto simp: put_effect_def bind_eq_Some_conv Let_def)

lemma dispatch_failed:
  "dispatch enc a es = Some (a', Inl err) \<Longrightarrow> writes_first es \<Longrightarrow> ac_sent a' = ac_sent a"
proof (induction es arbitrary: a)
  case (Cons e es)
  show ?case
  proof (cases "is_send e")
    case True
    with Cons.prems dispatch_sends [of "e # es" enc a a' "Inl err"] show ?thesis by auto
  next
    case False
    then have "dispatch enc a (e # es) = do {
        (a', res) \<leftarrow> put_effect enc a e;
        case res of Inl err \<Rightarrow> Some (a', Inl err) | Inr _ \<Rightarrow> dispatch enc a' es }"
      by (cases e) auto
    with Cons.prems(1) obtain a1 r where p: "put_effect enc a e = Some (a1, r)"
      and k: "(case r of Inl err \<Rightarrow> Some (a1, Inl err) | Inr _ \<Rightarrow> dispatch enc a1 es) = Some (a', Inl err)"
      by (auto simp: bind_eq_Some_conv)
    from Cons.prems(2) have "writes_first es" by simp
    with k put_effect_frame [OF p] Cons.IH [of a1] show ?thesis by (cases r) auto
  qed
qed simp

lemma dispatch_replica: "dispatch enc a es = Some (a', res) \<Longrightarrow> ac_replica a' = ac_replica a"
proof (induction es arbitrary: a)
  case (Cons e es)
  show ?case
  proof (cases "is_send e")
    case True
    with Cons show ?thesis by (cases e) fastforce+
  next
    case False
    then have "dispatch enc a (e # es) = do {
        (a', res) \<leftarrow> put_effect enc a e;
        case res of Inl err \<Rightarrow> Some (a', Inl err) | Inr _ \<Rightarrow> dispatch enc a' es }"
      by (cases e) auto
    with Cons.prems obtain a1 r where p: "put_effect enc a e = Some (a1, r)"
      and k: "(case r of Inl err \<Rightarrow> Some (a1, Inl err) | Inr _ \<Rightarrow> dispatch enc a1 es) = Some (a', res)"
      by (auto simp: bind_eq_Some_conv)
    with put_effect_frame [OF p] Cons.IH [of a1] show ?thesis by (cases r) auto
  qed
qed simp

section \<open>The actor keeps its store in step\<close>

definition actor_in_step :: "encoder \<Rightarrow> actor \<Rightarrow> bool" where
  "actor_in_step enc a \<longleftrightarrow> node_inv (rp_node (ac_replica a)) \<and>
     persisted (storage_image (fst (ac_storage a))) (rp_node (ac_replica a)) \<and>
     file_in_step enc (ac_storage a) \<and> ac_io a = []"

fun sends_of :: "effect list \<Rightarrow> (node_id \<times> message) list" where
  "sends_of [] = []"
| "sends_of (Send to m # es) = (to, m) # sends_of es"
| "sends_of (_ # es) = sends_of es"

lemma put_effect_ok:
  "ac_io a = [] \<Longrightarrow> put_effect enc a e =
     map_option (\<lambda>sf. (a\<lparr>ac_storage := sf\<rparr>, Inr ())) (storage_write enc (ac_storage a) e)"
  by (cases "storage_update (fst (ac_storage a)) e")
     (auto simp: put_effect_def storage_write_def storage_apply_def flush_def Let_def)

lemma storage_write_send [simp]: "storage_write enc sf (Send to m) = Some sf"
  by (cases sf) (simp add: storage_write_eq)

lemma dispatch_ok:
  "ac_io a = [] \<Longrightarrow> dispatch enc a es =
     map_option (\<lambda>sf. (a\<lparr>ac_storage := sf, ac_sent := ac_sent a @ sends_of es\<rparr>, Inr ()))
       (file_store.put_all enc (ac_storage a) es)"
proof (induction es arbitrary: a)
  case (Cons e es)
  show ?case
  proof (cases "is_send e")
    case True
    then obtain to m where "e = Send to m" by (cases e) auto
    with Cons show ?thesis by simp
  next
    case False
    then have "dispatch enc a (e # es) = do {
        (a', res) \<leftarrow> put_effect enc a e;
        case res of Inl err \<Rightarrow> Some (a', Inl err) | Inr _ \<Rightarrow> dispatch enc a' es }"
      and "sends_of (e # es) = sends_of es"
      by (cases e; simp)+
    with Cons show ?thesis
      by (cases "storage_write enc (ac_storage a) e") (auto simp: put_effect_ok)
  qed
qed simp

text \<open>One batch of effects of an operation of the node, with a healthy disk.\<close>

lemma in_step_batch:
  assumes "actor_in_step enc a" and "run_op (rp_node (ac_replica a)) op = Some (rp_node r, es)"
    and "file_store.put_all enc (ac_storage a) es = Some sf"
    and "a' = a\<lparr>ac_replica := r, ac_storage := sf, ac_sent := ms\<rparr>"
  shows "actor_in_step enc a'"
proof -
  have a: "node_inv (rp_node (ac_replica a))"
    "persisted (storage_image (fst (ac_storage a))) (rp_node (ac_replica a))"
    using assms(1) by (simp_all add: actor_in_step_def)
  from file_store.put_all_run_op [OF assms(2) a(1), of "ac_storage a" enc] a(2) assms(3)
  have "persisted (storage_image (fst sf)) (rp_node r)" by auto
  with assms a node_inv_run_op [OF assms(2) a(1)] show ?thesis
    by (auto simp: actor_in_step_def dest: file_in_step_write_all)
qed

lemma in_step_dispatch:
  assumes "actor_in_step enc a" and "run_op (rp_node (ac_replica a)) op = Some (rp_node r, es)"
    and "dispatch enc (a\<lparr>ac_replica := r\<rparr>) es = Some (a', res)"
  shows "actor_in_step enc a' \<and> res = Inr ()"
proof -
  have io: "ac_io (a\<lparr>ac_replica := r\<rparr>) = []" using assms(1) by (simp add: actor_in_step_def)
  from assms(3) obtain sf where sf: "file_store.put_all enc (ac_storage a) es = Some sf"
    and a': "a' = a\<lparr>ac_replica := r, ac_storage := sf, ac_sent := ac_sent a @ sends_of es\<rparr>"
    and "res = Inr ()"
    unfolding dispatch_ok [OF io] by auto
  from in_step_batch [OF assms(1,2) sf a'] this(3) show ?thesis by simp
qed

lemma replica_compact_run_op:
  assumes "replica_compact r retain = Some (r', res)"
  shows "(res = None \<longrightarrow> r' = r) \<and> (\<forall>es. res = Some es \<longrightarrow>
    (\<exists>op. run_op (rp_node r) op = Some (rp_node r', es)))"
proof -
  have "\<exists>op. run_op (rp_node r) op = Some (n, es)" if "compact (rp_node r) i data = Some (n, Inr es)" for i data n es
    using that by (intro exI [of _ "Op_Compact i data"]) simp
  with assms show ?thesis
    by (auto simp: replica_compact_def Let_def run_simps split: if_splits)
qed

lemma in_step_maybe_compact:
  assumes "maybe_compact enc a = Some (a', res)" and "actor_in_step enc a"
  shows "actor_in_step enc a' \<and> res = Inr ()"
proof (cases "last_applied (rp_state_machine (ac_replica a)) - boundary (rp_node (ac_replica a))
    < compact_threshold a")
  case True
  with assms show ?thesis by (auto simp: maybe_compact_def bind_eq_Some_conv u64_simps)
next
  case False
  with assms(1) obtain r c where c: "replica_compact (ac_replica a) (compact_threshold a div 2) = Some (r, c)"
    and k: "(case c of None \<Rightarrow> Some (a\<lparr>ac_replica := r\<rparr>, Inr ())
       | Some effects \<Rightarrow> dispatch enc (a\<lparr>ac_replica := r\<rparr>) effects) = Some (a', res)"
    by (auto simp: maybe_compact_def bind_eq_Some_conv u64_simps)
  show ?thesis
  proof (cases c)
    case None
    with replica_compact_run_op [OF c] k assms(2) show ?thesis by auto
  next
    case (Some es)
    with replica_compact_run_op [OF c] obtain op where "run_op (rp_node (ac_replica a)) op = Some (rp_node r, es)"
      by blast
    from in_step_dispatch [OF assms(2) this] k Some show ?thesis by simp
  qed
qed

lemma in_step_hint [simp]: "actor_in_step enc (update_leader_hint a sender m) = actor_in_step enc a"
  "ac_replica (update_leader_hint a sender m) = ac_replica a"
  by (auto simp: update_leader_hint_def actor_in_step_def Let_def split: message.split)

lemma then_io_Some:
  "then_io m f = Some (a', res) \<longleftrightarrow>
     (\<exists>a err. m = Some (a, Inl err) \<and> a' = a \<and> res = Inl err) \<or> (\<exists>a x. m = Some (a, Inr x) \<and> f a x = Some (a', res))"
proof (cases m)
  case (Some ax)
  then show ?thesis by (cases ax; cases "snd ax") (auto simp: then_io_def)
qed (simp add: then_io_def)

text \<open>Every handler is an operation of the node, a batch of effects and a compaction.\<close>

lemma in_step_then_compact:
  assumes "actor_in_step enc a" and "run_op (rp_node (ac_replica a)) op = Some (rp_node r, es)"
    and "then_io (dispatch enc (a\<lparr>ac_replica := r\<rparr>) es) (\<lambda>a1 _. then_io (maybe_compact enc a1) f) = Some (a', res)"
    and "\<And>a2. actor_in_step enc a2 \<Longrightarrow> f a2 () = Some (a', res) \<Longrightarrow> actor_in_step enc a'"
  shows "actor_in_step enc a'"
  using assms(3) in_step_dispatch [OF assms(1,2)] assms(4)
  by (auto simp: then_io_Some dest!: in_step_maybe_compact)

section \<open>Answering a peer\<close>

lemma put_request_effects_ok:
  "list_all is_write ws \<Longrightarrow> ac_io a = [] \<Longrightarrow> put_request_effects enc a ws =
     map_option (\<lambda>sf. (a\<lparr>ac_storage := sf\<rparr>, Inr ())) (file_store.put_all enc (ac_storage a) ws)"
proof (induction ws arbitrary: a)
  case (Cons e ws)
  then have "put_request_effects enc a (e # ws) =
      then_io (put_effect enc a e) (\<lambda>a' _. put_request_effects enc a' ws)"
    by (cases e) auto
  with Cons show ?case
    by (cases "storage_write enc (ac_storage a) e") (auto simp: put_effect_ok then_io_def)
qed simp

lemma put_all_snoc_send:
  "file_store.put_all enc sf (ws @ [Send to m]) = file_store.put_all enc sf ws"
  by (induction ws arbitrary: sf) (auto intro!: Option.bind_cong)

lemma handle_peer_request_reply:
  assumes "replica_step (ac_replica a) (Step sender m) = Some (r, es)" and "is_request m"
    and "node_inv (rp_node (ac_replica a))"
  shows "handle_peer_request enc a sender m =
    (let a2 = (update_leader_hint a sender m)\<lparr>ac_replica := r\<rparr> in
     if es = [] then Some (a2, Inr None)
     else then_io (put_request_effects enc a2 (butlast es)) (\<lambda>a3 _.
       then_io (maybe_compact enc a3) (\<lambda>a4 _. Some (a4, Inr (Some (snd (last (sends_of es))))))))"
proof -
  from replica_step_run_op [OF assms(1)] have "step (rp_node (ac_replica a)) (Step sender m) = Some (rp_node r, es)"
    by simp
  from request_batch_step [OF this assms(2,3)] have "es = [] \<or> request_batch sender m es" by auto
  then show ?thesis
  proof
    assume "request_batch sender m es"
    then obtain ws reply where es: "es = ws @ [Send sender reply]" by (auto simp: request_batch_def)
    have "sends_of (ws @ [Send sender reply]) = sends_of ws @ [(sender, reply)]"
      by (induction ws rule: sends_of.induct) auto
    with assms(1) show ?thesis by (simp add: handle_peer_request_def es Let_def)
  qed (use assms(1) in \<open>simp add: handle_peer_request_def Let_def\<close>)
qed

lemma in_step_peer_request:
  assumes "handle_peer_request enc a sender m = Some (a', res)" and "actor_in_step enc a"
    and "is_request m"
  shows "actor_in_step enc a'"
proof -
  let ?a = "update_leader_hint a sender m"
  from assms(1) obtain r es where rs: "replica_step (ac_replica a) (Step sender m) = Some (r, es)"
    by (auto simp: handle_peer_request_def bind_eq_Some_conv Let_def)
  have inv: "node_inv (rp_node (ac_replica a))" and io: "ac_io ?a = []" and st: "actor_in_step enc ?a"
    using assms(2) in_step_hint(1) [of enc a sender m] by (auto simp: actor_in_step_def)
  have op: "run_op (rp_node (ac_replica ?a)) (Op_Event (Step sender m)) = Some (rp_node r, es)"
    using replica_step_run_op [OF rs] by simp
  then have "step (rp_node (ac_replica a)) (Step sender m) = Some (rp_node r, es)" by simp
  from request_batch_step [OF this assms(3) inv] consider "es = []" | "request_batch sender m es" by auto
  then show ?thesis
  proof cases
    case 1
    with op in_step_batch [OF st op, of "ac_storage ?a" "?a\<lparr>ac_replica := r\<rparr>" "ac_sent ?a"] assms(1)
    show ?thesis by (simp add: handle_peer_request_reply [OF rs assms(3) inv] Let_def)
  next
    case 2
    then obtain ws reply where es: "es = ws @ [Send sender reply]" and ws: "list_all is_write ws"
      by (auto simp: request_batch_def)
    have put: "put_request_effects enc (?a\<lparr>ac_replica := r\<rparr>) ws =
        map_option (\<lambda>sf. (?a\<lparr>ac_replica := r, ac_storage := sf\<rparr>, Inr ()))
          (file_store.put_all enc (ac_storage ?a) es)"
      using io by (simp add: put_request_effects_ok [OF ws] es put_all_snoc_send)
    from assms(1) put es obtain sf where sf: "file_store.put_all enc (ac_storage ?a) es = Some sf"
      and mc: "then_io (maybe_compact enc (?a\<lparr>ac_replica := r, ac_storage := sf\<rparr>))
        (\<lambda>a4 _. Some (a4, Inr (Some (snd (last (sends_of es)))))) = Some (a', res)"
      by (auto simp: handle_peer_request_reply [OF rs assms(3) inv] Let_def then_io_Some)
    have "actor_in_step enc (?a\<lparr>ac_replica := r, ac_storage := sf\<rparr>)"
      using in_step_batch [OF st op sf, of "?a\<lparr>ac_replica := r, ac_storage := sf\<rparr>" "ac_sent ?a"] by simp
    with mc show ?thesis by (auto simp: then_io_Some dest!: in_step_maybe_compact)
  qed
qed

section \<open>Every request keeps the store in step\<close>

lemma in_step_handle_event:
  assumes "handle_event enc a ev = Some (a', res)" and "actor_in_step enc a"
  shows "actor_in_step enc a'"
proof -
  define a1 where "a1 = (case ev of Step sender m \<Rightarrow> update_leader_hint a sender m | Tick _ \<Rightarrow> a)"
  have a1: "actor_in_step enc a1" using assms(2) by (simp add: a1_def split: event.split)
  from assms(1) obtain r es where rs: "replica_step (ac_replica a1) ev = Some (r, es)"
    and k: "then_io (dispatch enc (a1\<lparr>ac_replica := r\<rparr>) es) (\<lambda>a' _. maybe_compact enc a') = Some (a', res)"
    by (auto simp: handle_event_def bind_eq_Some_conv a1_def Let_def)
  from k show ?thesis
    using in_step_dispatch [OF a1 replica_step_run_op [OF rs]]
    by (auto simp: then_io_Some dest!: in_step_maybe_compact)
qed

lemma in_step_frame: "actor_in_step enc a \<Longrightarrow> rp_node r = rp_node (ac_replica a) \<Longrightarrow>
    actor_in_step enc (a\<lparr>ac_replica := r\<rparr>)"
  by (simp add: actor_in_step_def)

lemma in_step_propose:
  assumes "actor_propose enc a c = Some (a', res)" and "actor_in_step enc a"
  shows "actor_in_step enc a'"
proof -
  from assms(1) obtain r out where p: "replica_propose (ac_replica a) c = Some (r, out)"
    by (auto simp: actor_propose_def bind_eq_Some_conv)
  note op = replica_propose_run_op [OF p]
  show ?thesis
  proof (cases out)
    case None
    with p have "rp_node r = rp_node (ac_replica a)"
      by (cases "propose (rp_node (ac_replica a)) (encode c)")
         (auto simp: replica_propose_def bind_eq_Some_conv split: option.splits dest!: propose_rejected)
    with None p assms show ?thesis
      by (auto simp: actor_propose_def intro: in_step_frame)
  next
    case (Some ie)
    then obtain index es where ie: "out = Some (index, es)" by (cases ie) auto
    have op': "run_op (rp_node (ac_replica a)) (Op_Propose (encode c)) = Some (rp_node r, es)"
      using op ie by (simp add: effects_of_def)
    have "then_io (dispatch enc (a\<lparr>ac_replica := r\<rparr>) es) (\<lambda>a1 _. then_io (maybe_compact enc a1)
        (\<lambda>a3 _. Some (a3, Inr (Accepted index)))) = Some (a', res)"
      using assms(1) p ie by (simp add: actor_propose_def)
    from in_step_then_compact [OF assms(2) op' this] show ?thesis by auto
  qed
qed

lemma in_step_config_change:
  assumes "actor_propose_config_change enc a vs = Some (a', res)" and "actor_in_step enc a"
  shows "actor_in_step enc a'"
proof -
  from assms(1) obtain r out where p: "replica_propose_config_change (ac_replica a) vs = Some (r, out)"
    by (auto simp: actor_propose_config_change_def bind_eq_Some_conv)
  note op = replica_propose_config_change_run_op [OF p]
  show ?thesis
  proof (cases out)
    case None
    with p have "rp_node r = rp_node (ac_replica a)"
      by (cases "propose_config_change (rp_node (ac_replica a)) vs")
         (auto simp: replica_propose_config_change_def bind_eq_Some_conv split: option.splits
           dest!: config_change_rejected)
    with None p assms show ?thesis
      by (auto simp: actor_propose_config_change_def intro: in_step_frame)
  next
    case (Some ie)
    then obtain index es where ie: "out = Some (index, es)" by (cases ie) auto
    have op': "run_op (rp_node (ac_replica a)) (Op_Config_Change vs) = Some (rp_node r, es)"
      using op ie by (simp add: effects_of_def)
    have "then_io (dispatch enc (a\<lparr>ac_replica := r\<rparr>) es) (\<lambda>a1 _. then_io (maybe_compact enc a1)
        (\<lambda>a3 _. Some (a3, Inr (Accepted index)))) = Some (a', res)"
      using assms(1) p ie by (simp add: actor_propose_config_change_def)
    from in_step_then_compact [OF assms(2) op' this] show ?thesis by auto
  qed
qed

lemma in_step_add_learner:
  assumes "actor_add_learner enc valid a i address = Some (a', res)" and "actor_in_step enc a"
  shows "actor_in_step enc a'"
proof (cases "role (rp_node (ac_replica a)) = Leader")
  case True
  with assms(1) obtain r es where p: "replica_add_learner (ac_replica a) i = Some (r, es)"
    and k: "then_io (dispatch enc (a\<lparr>ac_replica := r\<rparr>) es) (\<lambda>a1 _.
          then_io (maybe_compact enc a1) (\<lambda>a2 _.
            if valid address
            then Some (a2\<lparr>ac_peers := (i, address) # ac_peers a2\<rparr>, Inr (LearnerAccepted True))
            else Some (a2, Inr (LearnerAccepted False)))) = Some (a', res)"
    by (auto simp: actor_add_learner_def bind_eq_Some_conv)
  show ?thesis
    by (rule in_step_then_compact [OF assms(2) replica_add_learner_run_op [OF p] k])
       (auto simp: actor_in_step_def split: if_splits)
qed (use assms in \<open>auto simp: actor_add_learner_def\<close>)

lemma in_step_remove_learner:
  assumes "actor_remove_learner enc a i = Some (a', res)" and "actor_in_step enc a"
  shows "actor_in_step enc a'"
proof -
  from assms(1) obtain r es where p: "replica_remove_learner (ac_replica a) i = Some (r, es)"
    and k: "then_io (dispatch enc (a\<lparr>ac_replica := r\<rparr>) es) (\<lambda>a' _. maybe_compact enc a') = Some (a', res)"
    by (auto simp: actor_remove_learner_def bind_eq_Some_conv)
  from k show ?thesis
    using in_step_dispatch [OF assms(2) replica_remove_learner_run_op [OF p]]
    by (auto simp: then_io_Some dest!: in_step_maybe_compact)
qed

text \<open>What the server and the transport put into the channel: peer requests carry requests.\<close>

fun request_wf :: "actor_request \<Rightarrow> bool" where
  "request_wf (RqPeerRequest _ m) = is_request m"
| "request_wf _ = True"

lemma expect_io_Some: "expect_io m = Some (a, x) \<longleftrightarrow> m = Some (a, Inr x)"
  by (auto simp: expect_io_def bind_eq_Some_conv expect_eq_Some)

lemma in_step_serve:
  "serve enc valid a rq = Some (a', reply) \<Longrightarrow> actor_in_step enc a \<Longrightarrow> request_wf rq \<Longrightarrow>
     actor_in_step enc a'"
  by (cases rq)
     (auto simp: bind_eq_Some_conv expect_io_Some intro: in_step_handle_event in_step_propose
       in_step_config_change in_step_add_learner in_step_remove_learner in_step_peer_request)

lemma in_step_run_actor:
  "run_actor enc valid a rqs = Some (a', replies, published) \<Longrightarrow> actor_in_step enc a \<Longrightarrow>
     list_all request_wf rqs \<Longrightarrow> actor_in_step enc a'"
proof (induction rqs arbitrary: a replies published)
  case (Cons rq rqs)
  then show ?case by (auto simp: bind_eq_Some_conv dest!: in_step_serve)
qed simp

section \<open>The published cursor\<close>

lemma drain_entry_cursor: "drain_entry n s = Some s' \<Longrightarrow> last_applied (fst s) \<le> last_applied (fst s')"
  by (cases s; cases s') (auto dest: drain_entry_advances)

lemma drain_loop_cursor: "drain_loop n s = Some s' \<Longrightarrow> last_applied (fst s) \<le> last_applied (fst s')"
proof (induction n s rule: drain_loop.induct)
  case (1 n s)
  show ?case
  proof (cases "last_applied (fst s) < commit_index n")
    case True
    with 1(2) obtain s1 where s1: "drain_entry n s = Some s1" and rest: "drain_loop n s1 = Some s'"
      by (subst (asm) drain_loop.simps) (auto simp: bind_eq_Some_conv)
    from 1(1) [OF True s1 rest] drain_entry_cursor [OF s1] show ?thesis by simp
  next
    case False
    with 1(2) show ?thesis by (subst (asm) drain_loop.simps) simp
  qed
qed

lemma drain_committed_cursor:
  assumes "drain_committed r = Some r'"
  shows "last_applied (rp_state_machine r) \<le> last_applied (rp_state_machine r')"
proof -
  from assms obtain s s' where c: "catch_up r = Some s" and d: "drain_loop (rp_node r) s = Some s'"
    and r': "rp_state_machine r' = fst s'"
    by (auto simp: drain_committed_def bind_eq_Some_conv)
  have "last_applied (rp_state_machine r) \<le> last_applied (fst s)"
    using c by (auto simp: catch_up_def Let_def bind_eq_Some_conv expect_eq_Some restore_def
        and_then_eq_Inr split: if_splits sum.splits)
  with drain_loop_cursor [OF d] r' show ?thesis by simp
qed

lemma replica_cursor:
  "replica_step r ev = Some (r', es) \<Longrightarrow> last_applied (rp_state_machine r) \<le> last_applied (rp_state_machine r')"
  "replica_propose r c = Some (r', res) \<Longrightarrow> last_applied (rp_state_machine r) \<le> last_applied (rp_state_machine r')"
  "replica_propose_config_change r vs = Some (r', res) \<Longrightarrow>
     last_applied (rp_state_machine r) \<le> last_applied (rp_state_machine r')"
  "replica_add_learner r i = Some (r', es) \<Longrightarrow> last_applied (rp_state_machine r) \<le> last_applied (rp_state_machine r')"
  "replica_remove_learner r i = Some (r', es) \<Longrightarrow> last_applied (rp_state_machine r) \<le> last_applied (rp_state_machine r')"
  "replica_compact r retain = Some (r', cs) \<Longrightarrow> last_applied (rp_state_machine r) \<le> last_applied (rp_state_machine r')"
  by (auto simp: replica_step_def replica_propose_def replica_propose_config_change_def
      replica_add_learner_def replica_remove_learner_def replica_compact_def bind_eq_Some_conv Let_def
      split: option.splits if_splits prod.splits dest!: drain_committed_cursor)

definition cursor :: "actor \<Rightarrow> u64" where
  "cursor a = last_applied (rp_state_machine (ac_replica a))"

lemma cursor_frame [simp]:
  "cursor (a\<lparr>ac_storage := x1\<rparr>) = cursor a" "cursor (a\<lparr>ac_sent := x2\<rparr>) = cursor a"
  "cursor (a\<lparr>ac_peers := x3\<rparr>) = cursor a" "cursor (update_leader_hint a sender m) = cursor a"
  "cursor (a\<lparr>ac_replica := r\<rparr>) = last_applied (rp_state_machine r)"
  by (simp_all add: cursor_def)

lemma cursor_dispatch: "dispatch enc a es = Some (a', res) \<Longrightarrow> cursor a' = cursor a"
  by (simp add: cursor_def dispatch_replica)

lemma cursor_put_request: "put_request_effects enc a es = Some (a', res) \<Longrightarrow> cursor a' = cursor a"
proof (induction enc a es rule: put_request_effects.induct)
qed (auto simp: then_io_Some dest!: put_effect_frame, (auto simp: cursor_def)+)

lemma cursor_maybe_compact: "maybe_compact enc a = Some (a', res) \<Longrightarrow> cursor a \<le> cursor a'"
  by (auto simp: maybe_compact_def bind_eq_Some_conv cursor_def split: if_splits option.splits
      dest!: replica_cursor(6) dispatch_replica)


lemma cursor_then_compact:
  assumes "then_io (dispatch enc a es) (\<lambda>a1 _. then_io (maybe_compact enc a1) f) = Some (a', res)"
    and "\<And>a2 x out. f a2 x = Some (a', out) \<Longrightarrow> cursor a2 \<le> cursor a'"
  shows "cursor a \<le> cursor a'"
  using assms by (fastforce simp: then_io_Some dest!: cursor_dispatch cursor_maybe_compact)

lemma cursor_handle_event: "handle_event enc a ev = Some (a', res) \<Longrightarrow> cursor a \<le> cursor a'"
  by (cases ev)
     (fastforce simp: handle_event_def bind_eq_Some_conv Let_def then_io_Some cursor_def
       dest!: cursor_dispatch [unfolded cursor_def] cursor_maybe_compact [unfolded cursor_def] replica_cursor(1))+

lemma cursor_peer_request: "handle_peer_request enc a sender m = Some (a', res) \<Longrightarrow> cursor a \<le> cursor a'"
proof -
  let ?a = "update_leader_hint a sender m"
  assume h: "handle_peer_request enc a sender m = Some (a', res)"
  then obtain r es where rs: "replica_step (ac_replica ?a) (Step sender m) = Some (r, es)"
    and k: "(if es = [] then Some (?a\<lparr>ac_replica := r\<rparr>, Inr None)
     else (case last es of
       Send _ reply \<Rightarrow>
         then_io (put_request_effects enc (?a\<lparr>ac_replica := r\<rparr>) (butlast es)) (\<lambda>a3 _.
           then_io (maybe_compact enc a3) (\<lambda>a4 _. Some (a4, Inr (Some reply))))
     | _ \<Rightarrow> None)) = Some (a', res)"
    by (auto simp: handle_peer_request_def bind_eq_Some_conv Let_def)
  have "cursor a \<le> last_applied (rp_state_machine r)"
    using replica_cursor(1) [OF rs] by (simp add: cursor_def)
  also have "\<dots> = cursor (?a\<lparr>ac_replica := r\<rparr>)" by simp
  also have "\<dots> \<le> cursor a'"
    using k by (auto simp: then_io_Some split: if_splits effect.splits
        dest!: cursor_put_request cursor_maybe_compact)
  finally show ?thesis .
qed

lemma cursor_batch:
  assumes "then_io (dispatch enc (a\<lparr>ac_replica := r\<rparr>) es) (\<lambda>a1 _. then_io (maybe_compact enc a1) f) = Some (a', res)"
    and "last_applied (rp_state_machine (ac_replica a)) \<le> last_applied (rp_state_machine r)"
    and "\<And>a2 x out. f a2 x = Some (a', out) \<Longrightarrow> cursor a2 \<le> cursor a'"
  shows "cursor a \<le> cursor a'"
proof -
  have "cursor (a\<lparr>ac_replica := r\<rparr>) \<le> cursor a'"
    using assms(1) by (rule cursor_then_compact) (rule assms(3))
  with assms(2) show ?thesis by (simp add: cursor_def)
qed

lemma cursor_propose: "actor_propose enc a c = Some (a', res) \<Longrightarrow> cursor a \<le> cursor a'"
  by (auto simp: actor_propose_def bind_eq_Some_conv Let_def split: option.splits
      dest!: replica_cursor(2) elim: cursor_batch) (simp_all add: cursor_def)

lemma cursor_config_change: "actor_propose_config_change enc a vs = Some (a', res) \<Longrightarrow> cursor a \<le> cursor a'"
  by (auto simp: actor_propose_config_change_def bind_eq_Some_conv Let_def split: option.splits
      dest!: replica_cursor(3) elim: cursor_batch) (simp_all add: cursor_def)

lemma cursor_add_learner: "actor_add_learner enc valid a i address = Some (a', res) \<Longrightarrow> cursor a \<le> cursor a'"
  by (auto simp: actor_add_learner_def bind_eq_Some_conv Let_def split: if_splits
      dest!: replica_cursor(4) elim!: cursor_batch)

lemma cursor_remove_learner: "actor_remove_learner enc a i = Some (a', res) \<Longrightarrow> cursor a \<le> cursor a'"
  by (fastforce simp: actor_remove_learner_def bind_eq_Some_conv Let_def then_io_Some cursor_def
      dest!: cursor_dispatch [unfolded cursor_def] cursor_maybe_compact [unfolded cursor_def] replica_cursor(5))

lemma cursor_serve: "serve enc valid a rq = Some (a', reply) \<Longrightarrow> cursor a \<le> cursor a'"
  by (cases rq)
     (auto simp: bind_eq_Some_conv expect_io_Some dest!: cursor_handle_event cursor_peer_request
       cursor_propose cursor_config_change cursor_add_learner cursor_remove_learner)

text \<open>The applied index that the watch shows never goes back, and ends at the actor's cursor.\<close>

lemma published_sorted:
  "run_actor enc valid a rqs = Some (a', replies, published) \<Longrightarrow>
     sorted (cursor a # published) \<and> cursor a' = last (cursor a # published) \<and> length published = length rqs"
proof (induction rqs arbitrary: a replies published)
  case (Cons rq rqs)
  then obtain a1 reply rest ps where s: "serve enc valid a rq = Some (a1, reply)"
    and r: "run_actor enc valid a1 rqs = Some (a', rest, ps)"
    and p: "published = cursor a1 # ps"
    by (auto simp: bind_eq_Some_conv cursor_def)
  from Cons.IH [OF r] cursor_serve [OF s] show ?case by (auto simp: p intro: order_trans)
qed simp

end
