(* ===== verification/Runtime.thy ===== *)
theory Runtime
  imports Actor
begin

text \<open>
  The edge of the process: token check (\<^verbatim>\<open>auth.rs\<close>), the gRPC services (\<^verbatim>\<open>server.rs\<close>), the outbound
  transport (\<^verbatim>\<open>peer_client.rs\<close>) and the start of a node from its file (\<^verbatim>\<open>bin/kurogane-node.rs\<close>).
  Calls into the actor task and the network are arguments. \<open>call_reaches_actor\<close> composes both ends
  of a peer call; \<open>start_node_persisted\<close> says a started node is in step with its file.
\<close>

section \<open>Authentication\<close>

datatype status =
    Unauthenticated
  | Unavailable
  | InvalidArgument
  | Internal

definition TOKEN_METADATA_KEY :: string where
  "TOKEN_METADATA_KEY = ''x-cluster-token''"

text \<open>The metadata map of a request belongs to \<^verbatim>\<open>tonic\<close>: its lookup \<open>get\<close>, its insertion \<open>put\<close> and
  the test whether a string is a valid value are arguments. An invalid token panics.\<close>

definition token_interceptor ::
    "('m \<Rightarrow> string \<Rightarrow> string option) \<Rightarrow> string \<Rightarrow> 'm \<Rightarrow> status + 'm" where
  "token_interceptor get token md =
     (case get md TOKEN_METADATA_KEY of
        None \<Rightarrow> Inl Unauthenticated
      | Some presented \<Rightarrow> if presented = token then Inr md else Inl Unauthenticated)"

definition attach_token ::
    "(string \<Rightarrow> bool) \<Rightarrow> ('m \<Rightarrow> string \<Rightarrow> string \<Rightarrow> 'm) \<Rightarrow> 'm \<Rightarrow> string \<Rightarrow> 'm option" where
  "attach_token valid put md token =
     (if valid token then Some (put md TOKEN_METADATA_KEY token) else None)"

lemma attached_token_accepted:
  assumes "\<And>md k v. get (put md k v) k = Some v" and "attach_token valid put md presented = Some md'"
  shows "token_interceptor get token md' = (if presented = token then Inr md' else Inl Unauthenticated)"
  using assms by (auto simp: token_interceptor_def attach_token_def split: if_splits)

section \<open>The peer service\<close>

text \<open>\<open>ask\<close> is \<^verbatim>\<open>ActorHandle::peer_request\<close>: \<open>None\<close> when the actor is gone, \<open>Some None\<close> when the
  request was dropped.\<close>

type_synonym peer_request = "node_id \<Rightarrow> message \<Rightarrow> message option option"

definition answered :: "message option option \<Rightarrow> status + message" where
  "answered reply = (case reply of
     None \<Rightarrow> Inl Unavailable
   | Some None \<Rightarrow> Inl InvalidArgument
   | Some (Some m) \<Rightarrow> Inr m)"

definition serve_request_vote ::
    "peer_request \<Rightarrow> proto_request_vote \<Rightarrow> status + proto_request_vote_reply" where
  "serve_request_vote ask p =
     (let v = request_vote_from_proto p in
      and_then (answered (ask (candidate_id v) (RequestVote v))) (\<lambda>reply.
        case reply of
          RequestVoteResponse r \<Rightarrow> Inr (request_vote_response_to_proto r)
        | _ \<Rightarrow> Inl Internal))"

definition serve_append_entries ::
    "peer_request \<Rightarrow> proto_append_entries \<Rightarrow> status + proto_append_entries_reply" where
  "serve_append_entries ask p =
     (case append_entries_from_proto p of
        Inl _ \<Rightarrow> Inl InvalidArgument
      | Inr v \<Rightarrow>
          and_then (answered (ask (ae_leader_id v) (AppendEntries v))) (\<lambda>reply.
            case reply of
              AppendEntriesResponse r \<Rightarrow> Inr (append_entries_response_to_proto r)
            | _ \<Rightarrow> Inl Internal))"

definition serve_install_snapshot ::
    "peer_request \<Rightarrow> proto_install_snapshot \<Rightarrow> status + proto_install_snapshot_reply" where
  "serve_install_snapshot ask p =
     (let v = install_snapshot_from_proto p in
      and_then (answered (ask (is_leader_id v) (InstallSnapshot v))) (\<lambda>reply.
        case reply of
          InstallSnapshotResponse r \<Rightarrow> Inr (install_snapshot_response_to_proto r)
        | _ \<Rightarrow> Inl Internal))"

section \<open>The client service\<close>

datatype propose_reply =
    ReplyApplied u64 "proto_result_kind option"
  | ReplyNotLeader "u64 option"
  | ReplyIndeterminate

datatype wait_result = WaitApplied | WaitClosed | WaitTimeout

text \<open>\<^verbatim>\<open>wait_for_applied\<close>; the list holds the values the watch shows to the waiter, from the one it finds
  first, and ends when the channel closes.\<close>

fun wait_for_applied :: "u64 list \<Rightarrow> u64 \<Rightarrow> bool" where
  "wait_for_applied [] index = False"
| "wait_for_applied (v # vs) index = (if index \<le> v then True else wait_for_applied vs index)"

lemma wait_for_applied_iff: "wait_for_applied vs index \<longleftrightarrow> (\<exists>v \<in> set vs. index \<le> v)"
  by (induction vs) auto

text \<open>The \<^verbatim>\<open>Propose\<close> handler asks the actor several times; each answer is an argument, since other
  requests may be served in between: the outcome of the proposal, the term of the entry read
  right after it, how the wait on the applied index ended, the term read after the wait, and the
  result. \<open>None\<close> in an answer means the actor is gone.\<close>

definition client_propose ::
    "proto_command_kind option option \<Rightarrow> (command \<Rightarrow> propose_outcome option) \<Rightarrow>
     (u64 \<Rightarrow> u64 option option) \<Rightarrow> wait_result \<Rightarrow> (u64 \<Rightarrow> u64 option option) \<Rightarrow>
     (u64 \<Rightarrow> apply_result option option) \<Rightarrow> status + propose_reply" where
  "client_propose content ask_propose term_before wait term_after ask_result =
     (case content of
        None \<Rightarrow> Inl InvalidArgument
      | Some kind \<Rightarrow> (case command_from_proto kind of
          Inl _ \<Rightarrow> Inl InvalidArgument
        | Inr c \<Rightarrow> (case ask_propose c of
            None \<Rightarrow> Inl Unavailable
          | Some (NotLeader hint) \<Rightarrow> Inr (ReplyNotLeader (map_option node_no hint))
          | Some (Accepted index) \<Rightarrow>
              (let expected = Option.bind (term_before index) id in
               Inr (case wait of
                 WaitApplied \<Rightarrow> (case Option.bind (term_after index) id of
                   Some t \<Rightarrow>
                     (if Some t = expected then
                        (case Option.bind (ask_result index) id of
                           Some applied \<Rightarrow> ReplyApplied index (apply_result_to_proto applied)
                         | None \<Rightarrow> ReplyIndeterminate)
                      else ReplyIndeterminate)
                 | None \<Rightarrow> ReplyIndeterminate)
               | _ \<Rightarrow> ReplyIndeterminate)))))"

definition client_propose_config_change ::
    "u64 list \<Rightarrow> (node_id list \<Rightarrow> propose_outcome option) \<Rightarrow> status + (u64 option + u64)" where
  "client_propose_config_change vs ask =
     (case ask (propose_config_change_from_proto vs) of
        None \<Rightarrow> Inl Unavailable
      | Some (Accepted index) \<Rightarrow> Inr (Inr index)
      | Some (NotLeader hint) \<Rightarrow> Inr (Inl (map_option node_no hint)))"

definition client_add_learner ::
    "proto_add_learner \<Rightarrow> (node_id \<Rightarrow> string \<Rightarrow> add_learner_outcome option) \<Rightarrow>
     status + (u64 option + bool)" where
  "client_add_learner p ask =
     (let (i, address) = add_learner_from_proto p in
      case ask i address of
        None \<Rightarrow> Inl Unavailable
      | Some (LearnerAccepted connected) \<Rightarrow> Inr (Inr connected)
      | Some (LearnerNotLeader hint) \<Rightarrow> Inr (Inl (map_option node_no hint)))"

section \<open>Outbound requests\<close>

text \<open>\<^verbatim>\<open>GrpcPeerTransport::send\<close>: what goes on the wire to a peer with a known address, and the
  message fed back for the response. A response message is never sent this way; \<open>Some None\<close> is a
  call that sends nothing.\<close>

datatype wire_request =
    WireVote proto_request_vote
  | WireAppend proto_append_entries
  | WireSnapshot proto_install_snapshot

datatype wire_response =
    WireVoteReply proto_request_vote_reply
  | WireAppendReply proto_append_entries_reply
  | WireSnapshotReply proto_install_snapshot_reply

fun to_wire_request :: "message \<Rightarrow> wire_request option" where
  "to_wire_request (RequestVote r) = Some (WireVote (request_vote_to_proto r))"
| "to_wire_request (AppendEntries r) = Some (WireAppend (append_entries_to_proto r))"
| "to_wire_request (InstallSnapshot r) = Some (WireSnapshot (install_snapshot_to_proto r))"
| "to_wire_request _ = None"

fun from_wire_response :: "wire_response \<Rightarrow> message" where
  "from_wire_response (WireVoteReply p) = RequestVoteResponse (request_vote_response_from_proto p)"
| "from_wire_response (WireAppendReply p) = AppendEntriesResponse (append_entries_response_from_proto p)"
| "from_wire_response (WireSnapshotReply p) = InstallSnapshotResponse (install_snapshot_response_from_proto p)"

definition transport_send ::
    "(string \<Rightarrow> bool) \<Rightarrow> ('m \<Rightarrow> string \<Rightarrow> string \<Rightarrow> 'm) \<Rightarrow> 'm \<Rightarrow> (node_id \<times> string) list \<Rightarrow> string \<Rightarrow>
     node_id \<Rightarrow> message \<Rightarrow> (string \<times> 'm \<times> wire_request) option option" where
  "transport_send valid put blank clients token to m =
     (case map_of clients to of
        None \<Rightarrow> Some None
      | Some address \<Rightarrow> (case to_wire_request m of
          None \<Rightarrow> Some None
        | Some w \<Rightarrow> do {
            md \<leftarrow> attach_token valid put blank token;
            Some (Some (address, md, w))
          }))"

text \<open>The server's end of one call.\<close>

fun serve_wire :: "peer_request \<Rightarrow> wire_request \<Rightarrow> status + wire_response" where
  "serve_wire ask (WireVote p) = and_then (serve_request_vote ask p) (\<lambda>r. Inr (WireVoteReply r))"
| "serve_wire ask (WireAppend p) = and_then (serve_append_entries ask p) (\<lambda>r. Inr (WireAppendReply r))"
| "serve_wire ask (WireSnapshot p) = and_then (serve_install_snapshot ask p) (\<lambda>r. Inr (WireSnapshotReply r))"

section \<open>Starting a node\<close>

definition is_fresh_storage :: "storage \<Rightarrow> bool" where
  "is_fresh_storage s \<longleftrightarrow> st_hard_state s = default_hard_state \<and> st_log s = [] \<and>
     last_included_index (st_snapshot s) = 0"

definition start_node ::
    "node_id \<Rightarrow> node_id list \<Rightarrow> u64 \<Rightarrow> u64 \<Rightarrow> bool \<Rightarrow> storage \<Rightarrow> node option" where
  "start_node i member_ids timeout heartbeat join_as_learner s =
     (if join_as_learner \<and> is_fresh_storage s then expect (new_learner i timeout heartbeat)
      else do {
        res \<leftarrow> recover i member_ids timeout heartbeat (st_hard_state s) (st_log s)
          \<lparr>metadata = st_snapshot s, snap_data = st_snapshot_data s, snap_config = st_snapshot_config s\<rparr>
          (st_learners s);
        expect res
      })"

definition start_actor ::
    "node_id \<Rightarrow> node_id list \<Rightarrow> u64 \<Rightarrow> u64 \<Rightarrow> bool \<Rightarrow> u64 \<Rightarrow> storage \<Rightarrow> bytes option \<Rightarrow> actor option" where
  "start_actor i member_ids timeout heartbeat join threshold s file = do {
     n \<leftarrow> start_node i member_ids timeout heartbeat join s;
     r \<leftarrow> recover_replica n;
     Some (new_actor r (s, file) threshold)
   }"

section \<open>A request survives the wire\<close>

fun sendable_message :: "message \<Rightarrow> bool" where
  "sendable_message (AppendEntries r) = list_all sendable_entry (entries r)"
| "sendable_message (InstallSnapshot r) = sendable_config (is_config r)"
| "sendable_message _ = True"

fun sender_of :: "message \<Rightarrow> node_id" where
  "sender_of (RequestVote r) = candidate_id r"
| "sender_of (AppendEntries r) = ae_leader_id r"
| "sender_of (InstallSnapshot r) = is_leader_id r"
| "sender_of _ = NodeId 0"

lemma call_reaches_actor:
  assumes "is_request m" and "sendable_message m" and "to_wire_request m = Some w"
    and "ask (sender_of m) m = Some (Some reply)" and "replies_to m reply"
  shows "\<exists>resp. serve_wire ask w = Inr resp \<and> from_wire_response resp = reply"
proof (cases m)
  case (RequestVote r)
  then obtain x where "reply = RequestVoteResponse x" using assms(5) by (cases reply) auto
  with RequestVote assms show ?thesis
    by (auto simp: serve_request_vote_def answered_def response_round_trips Let_def)
next
  case (AppendEntries r)
  then obtain x where "reply = AppendEntriesResponse x" using assms(5) by (cases reply) auto
  moreover have "append_entries_from_proto (append_entries_to_proto r) = Inr r"
    using AppendEntries assms(2) by (intro append_entries_wire.arrives) simp
  ultimately show ?thesis
    using AppendEntries assms by (auto simp: serve_append_entries_def answered_def response_round_trips)
next
  case (InstallSnapshot r)
  then obtain x where "reply = InstallSnapshotResponse x" using assms(5) by (cases reply) auto
  moreover have "install_snapshot_from_proto (install_snapshot_to_proto r) = r"
    using InstallSnapshot assms(2) install_snapshot_wire.arrives [of r] by simp
  ultimately show ?thesis
    using InstallSnapshot assms
    by (auto simp: serve_install_snapshot_def answered_def response_round_trips Let_def)
qed (use assms(1) in auto)

section \<open>A started actor is in step with its file\<close>

lemma start_node_persisted:
  assumes "start_node i member_ids timeout heartbeat join s = Some n"
    and "image_ok (storage_image s)" and "join \<and> is_fresh_storage s \<longrightarrow>
      st_snapshot s = default_metadata \<and> st_snapshot_data s = [] \<and> st_learners s = []"
  shows "persisted (storage_image s) n \<and> node_inv n"
proof (cases "join \<and> is_fresh_storage s")
  case True
  with assms(1) have "new_learner i timeout heartbeat = Inr n"
    by (simp add: start_node_def expect_eq_Some)
  with True assms(3) show ?thesis
    by (auto simp: new_learner_def persisted_def storage_image_def is_fresh_storage_def
        default_hard_state_def default_metadata_def Let_def node_inv_new_learner split: if_splits
        dest: node_inv_new_learner)
next
  case False
  with assms(1) have "recover_from (storage_image s) i member_ids timeout heartbeat = Some (Inr n)"
    by (auto simp: start_node_def recover_from_def durable_snapshot_def storage_image_def
        bind_eq_Some_conv expect_eq_Some)
  with assms(2) show ?thesis
    by (auto intro: persisted_recover_from recover_from_inv simp: image_ok_def)
qed

end
