(* ===== verification/Actor_Handle.thy ===== *)
theory Actor_Handle
  imports Runtime
begin

text \<open>
  The handle of an actor's task (\<^verbatim>\<open>ActorHandle\<close> in \<^verbatim>\<open>crates/kurogane-runtime/src/actor.rs\<close>) and the timer
  that uses it (\<^verbatim>\<open>timer.rs\<close>). Tokio's channels are arguments: \<open>ask\<close> sends a request and waits on its
  oneshot, with \<open>None\<close> when the channel is closed and \<open>Some None\<close> when the reply was dropped;
  \<open>try_send\<close> puts a request into the bounded queue or drops it. \<open>handle_answers\<close> says that a handle of a
  running task returns what the actor's operation returns.
\<close>

section \<open>What a handle asks\<close>

type_synonym asking = "actor_request \<Rightarrow> actor_reply option option"

fun peer_reply :: "actor_reply \<Rightarrow> message option option" where
  "peer_reply (RpPeer m) = Some m"
| "peer_reply _ = None"

fun outcome_reply :: "actor_reply \<Rightarrow> propose_outcome option" where
  "outcome_reply (RpPropose x) = Some x"
| "outcome_reply _ = None"

fun learner_reply :: "actor_reply \<Rightarrow> add_learner_outcome option" where
  "learner_reply (RpAddLearner x) = Some x"
| "learner_reply _ = None"

fun done_reply :: "actor_reply \<Rightarrow> unit option" where
  "done_reply RpDone = Some ()"
| "done_reply _ = None"

fun applied_reply :: "actor_reply \<Rightarrow> apply_result option option" where
  "applied_reply (RpApplied x) = Some x"
| "applied_reply _ = None"

fun term_reply :: "actor_reply \<Rightarrow> u64 option option" where
  "term_reply (RpEntryTerm x) = Some x"
| "term_reply _ = None"

definition ask_for :: "(actor_reply \<Rightarrow> 'a option) \<Rightarrow> asking \<Rightarrow> actor_request \<Rightarrow> 'a option" where
  "ask_for typed ask rq = do { answer \<leftarrow> ask rq; reply \<leftarrow> answer; typed reply }"

definition ah_peer_request :: "asking \<Rightarrow> peer_request" where
  "ah_peer_request ask sender m = ask_for peer_reply ask (RqPeerRequest sender m)"

definition ah_propose :: "asking \<Rightarrow> command \<Rightarrow> propose_outcome option" where
  "ah_propose ask c = ask_for outcome_reply ask (RqPropose c)"

definition ah_propose_config_change :: "asking \<Rightarrow> node_id list \<Rightarrow> propose_outcome option" where
  "ah_propose_config_change ask vs = ask_for outcome_reply ask (RqProposeConfigChange vs)"

definition ah_add_learner :: "asking \<Rightarrow> node_id \<Rightarrow> string \<Rightarrow> add_learner_outcome option" where
  "ah_add_learner ask i address = ask_for learner_reply ask (RqAddLearner i address)"

definition ah_remove_learner :: "asking \<Rightarrow> node_id \<Rightarrow> unit option" where
  "ah_remove_learner ask i = ask_for done_reply ask (RqRemoveLearner i)"

definition ah_applied_result :: "asking \<Rightarrow> u64 \<Rightarrow> apply_result option option" where
  "ah_applied_result ask index = ask_for applied_reply ask (RqAppliedResult index)"

definition ah_entry_term :: "asking \<Rightarrow> u64 \<Rightarrow> u64 option option" where
  "ah_entry_term ask index = ask_for term_reply ask (RqEntryTerm index)"

text \<open>The two calls that wait for nothing; \<open>try_send\<close> is the channel's, and whether it took the
  request is ignored.\<close>

definition ah_tick :: "(actor_request \<Rightarrow> 'ch \<Rightarrow> 'ch) \<Rightarrow> u64 \<Rightarrow> 'ch \<Rightarrow> 'ch" where
  "ah_tick try_send next_timeout = try_send (RqTick next_timeout)"

definition ah_peer_response :: "(actor_request \<Rightarrow> 'ch \<Rightarrow> 'ch) \<Rightarrow> node_id \<Rightarrow> message \<Rightarrow> 'ch \<Rightarrow> 'ch" where
  "ah_peer_response try_send sender m = try_send (RqPeerResponse sender m)"

section \<open>The timer\<close>

text \<open>\<^verbatim>\<open>timer::run\<close> after a number of intervals; \<open>random_range k\<close> is what the generator draws from the
  inclusive range at the \<open>k\<close>th.\<close>

primrec timer_run ::
    "(nat \<Rightarrow> u64 \<Rightarrow> u64 \<Rightarrow> u64) \<Rightarrow> (actor_request \<Rightarrow> 'ch \<Rightarrow> 'ch) \<Rightarrow> u64 \<Rightarrow> u64 \<Rightarrow> nat \<Rightarrow> 'ch \<Rightarrow> 'ch" where
  "timer_run random_range try_send min_timeout max_timeout 0 ch = ch"
| "timer_run random_range try_send min_timeout max_timeout (Suc k) ch =
     ah_tick try_send (random_range k min_timeout max_timeout)
       (timer_run random_range try_send min_timeout max_timeout k ch)"

section \<open>A handle of a running actor\<close>

text \<open>The answer to a request that the task of \<open>a\<close> serves next: when the task panics the reply is dropped.\<close>

definition task_answer :: "encoder \<Rightarrow> (string \<Rightarrow> bool) \<Rightarrow> actor \<Rightarrow> asking" where
  "task_answer enc valid a rq = Some (map_option snd (serve enc valid a rq))"

lemma ask_for_task: "ask_for typed (task_answer enc valid a) rq = Some x \<longleftrightarrow>
    (\<exists>a' reply. serve enc valid a rq = Some (a', reply) \<and> typed reply = Some x)"
  by (auto simp: ask_for_def task_answer_def bind_eq_Some_conv)

text \<open>A handle returns exactly what the actor's operation does.\<close>

lemma handle_answers:
  "ah_peer_request (task_answer enc valid a) p m = Some r \<longleftrightarrow> (\<exists>a'. handle_peer_request enc a p m = Some (a', Inr r))"
  "ah_propose (task_answer enc valid a) c = Some out \<longleftrightarrow> (\<exists>a'. actor_propose enc a c = Some (a', Inr out))"
  "ah_propose_config_change (task_answer enc valid a) vs = Some out \<longleftrightarrow>
     (\<exists>a'. actor_propose_config_change enc a vs = Some (a', Inr out))"
  "ah_add_learner (task_answer enc valid a) i address = Some joined \<longleftrightarrow>
     (\<exists>a'. actor_add_learner enc valid a i address = Some (a', Inr joined))"
  "ah_remove_learner (task_answer enc valid a) i = Some () \<longleftrightarrow> (\<exists>a'. actor_remove_learner enc a i = Some (a', Inr ()))"
  "ah_applied_result (task_answer enc valid a) index = Some (applied_result (ac_replica a) index)"
  "ah_entry_term (task_answer enc valid a) index = actor_entry_term a index"
  by (cases "actor_entry_term a index";
      auto simp: ah_peer_request_def ah_propose_def ah_propose_config_change_def ah_add_learner_def
        ah_remove_learner_def ah_applied_result_def ah_entry_term_def ask_for_task bind_eq_Some_conv expect_io_Some;
      auto simp: ask_for_def task_answer_def)+

lemma timer_requests:
  assumes "\<And>k. min_timeout \<le> random_range k min_timeout max_timeout \<and> random_range k min_timeout max_timeout \<le> max_timeout"
    and "\<And>rq ch. set (try_send rq ch) \<subseteq> insert rq (set ch)"
    and "rq \<in> set (timer_run random_range try_send min_timeout max_timeout k ch)" and "rq \<notin> set ch"
  shows "\<exists>t. rq = RqTick t \<and> min_timeout \<le> t \<and> t \<le> max_timeout"
  using assms(3,4)
proof (induction k)
  case (Suc k)
  with assms(1) [of k] assms(2) [of "RqTick (random_range k min_timeout max_timeout)"
      "timer_run random_range try_send min_timeout max_timeout k ch"]
  show ?case by (auto simp: ah_tick_def)
qed simp

end
