(* ===== verification/Text_Format.thy ===== *)
theory Text_Format
  imports Prelude
begin

text \<open>
  The string operations of the standard library that the text formats use: printing and parsing of
  \<^verbatim>\<open>u64\<close> and \<^verbatim>\<open>bool\<close>, \<^verbatim>\<open>split\<close>, \<^verbatim>\<open>split_once\<close>, \<^verbatim>\<open>lines\<close> and \<^verbatim>\<open>join\<close>. What is printed is
  read back.
\<close>

section \<open>Numbers\<close>

definition digit :: "nat \<Rightarrow> char" where
  "digit d = char_of (48 + d)"

fun decimal :: "nat \<Rightarrow> string" where
  "decimal n = (if n < 10 then [digit n] else decimal (n div 10) @ [digit (n mod 10)])"

declare decimal.simps [simp del]

definition digit_value :: "char \<Rightarrow> nat option" where
  "digit_value c = (let k = of_char c in if 48 \<le> k \<and> k \<le> (57 :: nat) then Some (k - 48) else None)"

text \<open>\<^verbatim>\<open>u64::from_str\<close>: an optional plus sign, then at least one digit; overflow is an error.\<close>

fun parse_digits :: "nat \<Rightarrow> string \<Rightarrow> u64 option" where
  "parse_digits acc [] = Some acc"
| "parse_digits acc (c # cs) = do {
     d \<leftarrow> digit_value c;
     if fits64 (acc * 10 + d) then parse_digits (acc * 10 + d) cs else None
   }"

fun parse_u64 :: "string \<Rightarrow> u64 option" where
  "parse_u64 [] = None"
| "parse_u64 (c # cs) =
     (if c = CHR ''+'' then (if cs = [] then None else parse_digits 0 cs) else parse_digits 0 (c # cs))"

text \<open>\<^verbatim>\<open>bool::from_str\<close>.\<close>

definition parse_bool :: "string \<Rightarrow> bool option" where
  "parse_bool s = (if s = ''true'' then Some True else if s = ''false'' then Some False else None)"

section \<open>Splitting and joining\<close>

text \<open>\<^verbatim>\<open>str::split\<close> by a character: always at least one piece.\<close>

fun split_on :: "char \<Rightarrow> string \<Rightarrow> string list" where
  "split_on sep [] = [[]]"
| "split_on sep (c # cs) =
     (if c = sep then [] # split_on sep cs
      else (case split_on sep cs of [] \<Rightarrow> [[c]] | piece # pieces \<Rightarrow> (c # piece) # pieces))"

text \<open>\<^verbatim>\<open>str::split_once\<close>: at the first occurrence.\<close>

fun split_once :: "char \<Rightarrow> string \<Rightarrow> (string \<times> string) option" where
  "split_once sep [] = None"
| "split_once sep (c # cs) =
     (if c = sep then Some ([], cs) else map_option (\<lambda>(a, b). (c # a, b)) (split_once sep cs))"

text \<open>\<^verbatim>\<open>[String]::join\<close>.\<close>

fun join_with :: "string \<Rightarrow> string list \<Rightarrow> string" where
  "join_with sep [] = []"
| "join_with sep [s] = s"
| "join_with sep (s # ss) = s @ sep @ join_with sep ss"

abbreviation newline :: char where "newline \<equiv> CHR 0x0A"

text \<open>\<^verbatim>\<open>str::lines\<close>: a line ends at a newline, which a carriage return may precede; the last newline
  opens no further line.\<close>

definition strip_return :: "string \<Rightarrow> string" where
  "strip_return s = (if s \<noteq> [] \<and> last s = CHR 0x0D then butlast s else s)"

definition lines :: "string \<Rightarrow> string list" where
  "lines s = (let pieces = split_on newline s in
     map strip_return (butlast pieces) @ (if last pieces = [] then [] else [last pieces]))"

section \<open>Reading back what was written\<close>

lemma digit_value_digit: "d < 10 \<Longrightarrow> digit_value (digit d) = Some d"
  by (simp add: digit_value_def digit_def Let_def)

lemma decimal_nonempty [simp]: "decimal n \<noteq> []"
  by (subst decimal.simps) simp

lemma decimal_digits: "c \<in> set (decimal n) \<Longrightarrow> \<exists>d < 10. c = digit d"
proof (induction n rule: decimal.induct)
  case (1 n)
  from 1(2) show ?case
    by (subst (asm) decimal.simps) (auto split: if_splits dest: 1(1) intro: exI [of _ n] exI [of _ "n mod 10"])
qed

lemma digit_not_special:
  "d < 10 \<Longrightarrow> digit d \<noteq> CHR '','' \<and> digit d \<noteq> CHR ''='' \<and> digit d \<noteq> newline \<and> digit d \<noteq> CHR ''+'' \<and>
     digit d \<noteq> CHR 0x0D"
proof -
  assume "d < 10"
  then have "d = 0 \<or> d = 1 \<or> d = 2 \<or> d = 3 \<or> d = 4 \<or> d = 5 \<or> d = 6 \<or> d = 7 \<or> d = 8 \<or> d = 9" by auto
  then show ?thesis by (elim disjE) (simp_all add: digit_def char_of_def)
qed

lemma decimal_plain:
  "CHR '','' \<notin> set (decimal n)" "CHR ''='' \<notin> set (decimal n)" "newline \<notin> set (decimal n)"
  "CHR ''+'' \<notin> set (decimal n)" "CHR 0x0D \<notin> set (decimal n)"
  using decimal_digits digit_not_special by metis+

lemma parse_digits_append:
  "parse_digits acc (s @ t) = Option.bind (parse_digits acc s) (\<lambda>v. parse_digits v t)"
  by (induction s arbitrary: acc) (auto simp: Option.bind_assoc intro!: Option.bind_cong)

lemma parse_digits_decimal: "fits64 n \<Longrightarrow> parse_digits 0 (decimal n) = Some n"
proof (induction n rule: decimal.induct)
  case (1 n)
  show ?case
  proof (cases "n < 10")
    case True
    with 1(2) show ?thesis by (subst decimal.simps) (simp add: digit_value_digit)
  next
    case False
    have "fits64 (n div 10)" using 1(2) by (rule fits64_mono) simp
    with 1(1) [OF False] have "parse_digits 0 (decimal (n div 10)) = Some (n div 10)" .
    with False 1(2) show ?thesis
      by (subst decimal.simps) (simp add: parse_digits_append digit_value_digit)
  qed
qed

lemma parse_u64_decimal [simp]: "fits64 n \<Longrightarrow> parse_u64 (decimal n) = Some n"
proof -
  assume n: "fits64 n"
  obtain c cs where c: "decimal n = c # cs" by (cases "decimal n") auto
  then have "c \<noteq> CHR ''+''" using decimal_plain(4) [of n] by auto
  then show ?thesis using parse_digits_decimal [OF n] c by simp
qed

lemma parse_digits_fits: "fits64 acc \<Longrightarrow> parse_digits acc s = Some v \<Longrightarrow> fits64 v"
  by (induction s arbitrary: acc) (auto simp: bind_eq_Some_conv split: if_splits)

lemma parse_u64_fits: "parse_u64 s = Some v \<Longrightarrow> fits64 v"
  using parse_digits_fits [of 0] by (cases s) (auto simp del: parse_digits.simps split: if_splits)

lemma split_on_plain: "sep \<notin> set s \<Longrightarrow> split_on sep s = [s]"
  by (induction s) auto

lemma split_on_nonempty [simp]: "split_on sep s \<noteq> []"
  by (cases s) (auto split: list.split)

lemma split_on_append: "sep \<notin> set s \<Longrightarrow> split_on sep (s @ sep # t) = s # split_on sep t"
  by (induction s) auto

lemma split_on_join: "\<forall>s \<in> set ss. sep \<notin> set s \<Longrightarrow> ss \<noteq> [] \<Longrightarrow> split_on sep (join_with [sep] ss) = ss"
  by (induction "[sep]" ss rule: join_with.induct) (auto simp: split_on_plain split_on_append)

lemma split_once_append: "sep \<notin> set s \<Longrightarrow> split_once sep (s @ sep # t) = Some (s, t)"
  by (induction s) auto

lemma split_once_SomeD: "split_once sep s = Some (a, b) \<Longrightarrow> s = a @ sep # b \<and> sep \<notin> set a"
  by (induction s arbitrary: a) (auto split: if_splits)

lemma lines_Cons: "newline \<notin> set s \<Longrightarrow> lines (s @ newline # t) = strip_return s # lines t"
  by (simp add: lines_def split_on_append Let_def)

lemma lines_Nil [simp]: "lines [] = []"
  by (simp add: lines_def)

end
