(* ===== verification/Node_Config.thy ===== *)
theory Node_Config
  imports Runtime Text_Format
begin

text \<open>
  The configuration of a process, \<^verbatim>\<open>bin/kurogane-node.rs\<close>: the peers format, the environment variables
  with their defaults, and the start of the actor from them. Whatever settings are accepted, the
  membership they give is one that \<^verbatim>\<open>Node::recover\<close> takes (\<open>start_node_settings\<close>). The parser of socket
  addresses is an argument.
\<close>

section \<open>Peers\<close>

text \<open>Collecting pairs into a \<^verbatim>\<open>BTreeMap\<close>: a later entry replaces an earlier one of the same key.\<close>

fun collect_peers :: "string list \<Rightarrow> (node_id, string) btree \<Rightarrow> (node_id, string) btree option" where
  "collect_peers [] peers = Some peers"
| "collect_peers (entry # rest) peers = do {
     (raw_id, address) \<leftarrow> split_once CHR ''='' entry;
     i \<leftarrow> parse_u64 raw_id;
     collect_peers rest (bt_insert (NodeId i) address peers)
   }"

definition parse_peers :: "string \<Rightarrow> (node_id, string) btree option" where
  "parse_peers raw = collect_peers (split_on CHR '','' raw) []"

section \<open>Environment variables\<close>

text \<open>The environment maps names to values; reading a missing or malformed one panics.\<close>

type_synonym environment = "string \<rightharpoonup> string"

definition env_var :: "environment \<Rightarrow> string \<Rightarrow> string option" where
  "env_var env name = env name"

definition env_var_or :: "environment \<Rightarrow> (string \<Rightarrow> 'a option) \<Rightarrow> string \<Rightarrow> 'a \<Rightarrow> 'a option" where
  "env_var_or env parse name fallback = (case env name of Some v \<Rightarrow> parse v | None \<Rightarrow> Some fallback)"

record settings =
  cfg_id :: node_id
  cfg_peers :: "(node_id, string) btree"
  cfg_listen :: string
  cfg_client :: string
  cfg_path :: string
  cfg_token :: string
  cfg_election_timeout :: u64
  cfg_heartbeat_interval :: u64
  cfg_tick_interval_ms :: u64
  cfg_compact_threshold :: u64
  cfg_join :: bool

text \<open>The settings that \<^verbatim>\<open>main\<close> reads; \<open>socket\<close> is the test whether a string is a socket address.\<close>

definition read_settings :: "(string \<Rightarrow> bool) \<Rightarrow> environment \<Rightarrow> settings option" where
  "read_settings socket env = do {
     raw_id \<leftarrow> env_var env ''KUROGANE_NODE_ID'';
     i \<leftarrow> parse_u64 raw_id;
     raw_peers \<leftarrow> env_var env ''KUROGANE_PEERS'';
     peers \<leftarrow> parse_peers raw_peers;
     listen \<leftarrow> map_of peers (NodeId i);
     _ \<leftarrow> (if socket listen then Some () else None);
     client \<leftarrow> env_var env ''KUROGANE_CLIENT_ADDR'';
     _ \<leftarrow> (if socket client then Some () else None);
     path \<leftarrow> env_var env ''KUROGANE_STORAGE_PATH'';
     token \<leftarrow> env_var env ''KUROGANE_CLUSTER_TOKEN'';
     timeout \<leftarrow> env_var_or env parse_u64 ''KUROGANE_ELECTION_TIMEOUT_TICKS'' 10;
     heartbeat \<leftarrow> env_var_or env parse_u64 ''KUROGANE_HEARTBEAT_INTERVAL_TICKS'' 2;
     tick_ms \<leftarrow> env_var_or env parse_u64 ''KUROGANE_TICK_INTERVAL_MS'' 50;
     threshold \<leftarrow> env_var_or env parse_u64 ''KUROGANE_COMPACT_THRESHOLD'' 50;
     join \<leftarrow> env_var_or env parse_bool ''KUROGANE_JOIN_AS_LEARNER'' False;
     Some \<lparr>cfg_id = NodeId i, cfg_peers = peers, cfg_listen = listen, cfg_client = client,
       cfg_path = path, cfg_token = token, cfg_election_timeout = timeout,
       cfg_heartbeat_interval = heartbeat, cfg_tick_interval_ms = tick_ms,
       cfg_compact_threshold = threshold, cfg_join = join\<rparr>
   }"

definition peer_addresses :: "settings \<Rightarrow> (node_id, string) btree" where
  "peer_addresses cfg =
     map (\<lambda>(i, address). (i, ''http://'' @ address)) (filter (\<lambda>(i, _). i \<noteq> cfg_id cfg) (cfg_peers cfg))"

text \<open>The part of \<^verbatim>\<open>main\<close> from the settings and the opened storage to the actor; the range of the
  timer's timeouts is \<open>[timeout, 2 * timeout]\<close>, whose upper end is checked multiplication.\<close>

definition start_process :: "settings \<Rightarrow> storage \<Rightarrow> bytes option \<Rightarrow> (actor \<times> u64 \<times> u64) option" where
  "start_process cfg s file = do {
     a \<leftarrow> start_actor (cfg_id cfg) (map fst (cfg_peers cfg)) (cfg_election_timeout cfg)
       (cfg_heartbeat_interval cfg) (cfg_join cfg) (cfg_compact_threshold cfg) s file;
     twice \<leftarrow> add64 (cfg_election_timeout cfg) (cfg_election_timeout cfg);
     Some (a\<lparr>ac_peers := peer_addresses cfg\<rparr>, cfg_election_timeout cfg, twice)
   }"

section \<open>Accepted settings start\<close>

lemma collect_peers_ordered: "collect_peers es peers = Some ps \<Longrightarrow> bt_ordered peers \<Longrightarrow> bt_ordered ps"
  by (induction es arbitrary: peers) (auto simp: bind_eq_Some_conv)

lemma parse_peers_ordered: "parse_peers raw = Some ps \<Longrightarrow> bt_ordered ps"
  by (auto simp: parse_peers_def intro: collect_peers_ordered)

definition peer_entry :: "node_id \<times> string \<Rightarrow> string" where
  "peer_entry p = decimal (node_no (fst p)) @ ''='' @ snd p"

lemma collect_peers_entries:
  "list_all (\<lambda>p. fits64 (node_no (fst p))) ps \<Longrightarrow>
     collect_peers (map peer_entry ps) peers = Some (foldl (\<lambda>m (i, address). bt_insert i address m) peers ps)"
proof (induction ps arbitrary: peers)
  case (Cons p ps)
  obtain i address where p: "p = (i, address)" by fastforce
  have "split_once CHR ''='' (peer_entry p) = Some (decimal (node_no i), address)"
    using split_once_append [OF decimal_plain(2)] by (simp add: peer_entry_def p)
  with Cons show ?case by (simp add: p)
qed simp

text \<open>A list of peers in the format of \<^verbatim>\<open>KUROGANE_PEERS\<close> is read as the map it lists.\<close>

lemma parse_peers_entries:
  assumes "list_all (\<lambda>p. fits64 (node_no (fst p)) \<and> CHR '','' \<notin> set (snd p)) ps" and "ps \<noteq> []"
    and "distinct (map fst ps)"
  shows "\<exists>m. parse_peers (join_with '','' (map peer_entry ps)) = Some m \<and> map_of m = map_of ps \<and> bt_ordered m"
proof -
  have "\<forall>s \<in> set (map peer_entry ps). CHR '','' \<notin> set s"
    using assms(1) decimal_plain(1) by (auto simp: peer_entry_def list_all_iff)
  with split_on_join [of "map peer_entry ps" "CHR '',''"] assms(2)
  have "parse_peers (join_with '','' (map peer_entry ps)) = collect_peers (map peer_entry ps) []"
    by (simp add: parse_peers_def)
  also have "\<dots> = Some (foldl (\<lambda>m (i, address). bt_insert i address m) [] ps)"
    using assms(1) by (intro collect_peers_entries) (auto simp: list_all_iff)
  finally have run: "parse_peers (join_with '','' (map peer_entry ps)) = \<dots>" .
  have "bt_ordered m \<Longrightarrow> distinct (map fst ps) \<Longrightarrow>
      map_of (foldl (\<lambda>m (i, address). bt_insert i address m) m ps) = map_of m ++ map_of ps" for m
  proof (induction ps arbitrary: m)
    case (Cons p ps)
    then show ?case
      by (cases p) (simp add: map_add_upd_left dom_map_of_conv_image_fst, simp add: fun_eq_iff map_add_def)
  qed simp
  from this [of "[]"] assms(3) run parse_peers_ordered [OF run] show ?thesis by auto
qed

lemma settings_membership:
  assumes "read_settings socket env = Some cfg"
  shows "sorted_wrt (<) (map fst (cfg_peers cfg))" and "cfg_id cfg \<in> set (map fst (cfg_peers cfg))"
proof -
  from assms obtain raw i where "parse_peers raw = Some (cfg_peers cfg)" "cfg_id cfg = NodeId i"
    "map_of (cfg_peers cfg) (NodeId i) \<noteq> None"
    by (auto simp: read_settings_def bind_eq_Some_conv split: if_splits)
  then show "sorted_wrt (<) (map fst (cfg_peers cfg))" "cfg_id cfg \<in> set (map fst (cfg_peers cfg))"
    using parse_peers_ordered by (auto simp: bt_ordered_def map_of_eq_None_iff)
qed


lemma start_node_settings:
  assumes "read_settings socket env = Some cfg" and "image_ok (storage_image s)"
    and "0 < cfg_heartbeat_interval cfg" and "cfg_heartbeat_interval cfg \<le> cfg_election_timeout cfg"
  shows "\<exists>n. start_node (cfg_id cfg) (map fst (cfg_peers cfg)) (cfg_election_timeout cfg)
      (cfg_heartbeat_interval cfg) (cfg_join cfg) s = Some n \<and> nid n = cfg_id cfg \<and> role n = Follower"
proof (cases "cfg_join cfg \<and> is_fresh_storage s")
  case True
  with assms(3,4) show ?thesis
    by (auto simp: start_node_def new_learner_def expect_def Let_def)
next
  case False
  from recover_from_total [OF assms(2) settings_membership [OF assms(1)] assms(3,4)] obtain n where
    "recover_from (storage_image s) (cfg_id cfg) (map fst (cfg_peers cfg)) (cfg_election_timeout cfg)
      (cfg_heartbeat_interval cfg) = Some (Inr n)" "nid n = cfg_id cfg" "role n = Follower" by blast
  with False show ?thesis
    by (auto simp: start_node_def recover_from_def durable_snapshot_def storage_image_def expect_def)
qed

end
