(* ===== verification/Process.thy ===== *)
theory Process
  imports Actor_Handle Raft_Votes Node_Config
begin

text \<open>
  A process is a life of a Raft node: whatever requests \<^verbatim>\<open>actor::run\<close> serves, the node inside the actor of
  \<^verbatim>\<open>crates/kurogane-runtime\<close> moves by the operations of \<^verbatim>\<open>Node\<close> alone. So what is proved of reachable nodes
  holds of the node of a process. Ticks are the only source of election timeouts.
\<close>

section \<open>The path of a node\<close>

text \<open>The nodes that the operations lead to when ticks offer only the timeouts in \<open>T\<close>.\<close>

inductive node_path :: "u64 set \<Rightarrow> node \<Rightarrow> node \<Rightarrow> bool" for T n where
  here: "node_path T n n"
| onward: "node_path T n m \<Longrightarrow> run_op m op = Some (m', es) \<Longrightarrow> (\<forall>t. op = Op_Event (Tick t) \<longrightarrow> t \<in> T) \<Longrightarrow>
    node_path T n m'"

lemma path_op:
  "run_op n op = Some (m, es) \<Longrightarrow> (\<forall>t. op = Op_Event (Tick t) \<longrightarrow> t \<in> T) \<Longrightarrow> node_path T n m"
  by (rule onward [OF here])

lemma path_trans: "node_path T m k \<Longrightarrow> node_path T n m \<Longrightarrow> node_path T n k"
  by (induction rule: node_path.induct) (auto intro: onward)

lemma path_mono: "node_path T n m \<Longrightarrow> T \<subseteq> S \<Longrightarrow> node_path S n m"
  by (induction rule: node_path.induct) (auto intro: here onward)

lemma path_reachable: "node_path T n m \<Longrightarrow> node_reachable n \<Longrightarrow> node_reachable m"
  by (induction rule: node_path.induct) (auto intro: node_reachable.operates)

lemma path_nid:
  assumes "node_path T n m" and "node_inv n"
  shows "nid m = nid n"
proof -
  from assms have "nid m = nid n \<and> node_inv m"
    by (induction rule: node_path.induct) (auto dest: nid_run_op node_inv_run_op)
  then show ?thesis ..
qed

section \<open>Election timeouts\<close>

lemma timeout_become_leader: "become_leader n = Some (n', es) \<Longrightarrow> election_timeout n' = election_timeout n"
  by (auto simp: become_leader_def run_simps)

lemma timeout_start_election: "start_election n t = Some (n', es) \<Longrightarrow> election_timeout n' \<in> {election_timeout n, t}"
  by (erule start_election_cases) (auto simp: become_candidate_def dest: timeout_become_leader)

lemma timeout_advance:
  assumes "advance_commit_index n = Some (n', es)"
  shows "election_timeout n' = election_timeout n"
  by (rule advance_commit_index_preserves [OF assms, where P = "\<lambda>m. election_timeout m = election_timeout n"])
     (auto dest!: advance_point_frame push_follow_up_frame simp: retire_from_leadership_def)

lemma timeout_observe [simp]: "election_timeout (observe_leader n t) = election_timeout n"
  by (simp add: observe_leader_def step_down_def Let_def)

lemma timeout_recompute: "recompute_config n = Some n' \<Longrightarrow> election_timeout n' = election_timeout n"
  by (drule recompute_config_eq_Some) simp

lemma timeout_message:
  "step n (Step sender m) = Some (n', es) \<Longrightarrow> node_inv n \<Longrightarrow> election_timeout n' = election_timeout n"
proof (cases m)
  case (RequestVote r)
  assume "step n (Step sender m) = Some (n', es)"
  with RequestVote show ?thesis by (auto split: if_splits elim!: on_request_vote_cases simp: step_down_def)
next
  case (RequestVoteResponse r)
  assume "step n (Step sender m) = Some (n', es)"
  with RequestVoteResponse show ?thesis
    by (auto simp: on_request_vote_response_def Let_def step_down_def split: if_splits dest!: timeout_become_leader)
next
  case (AppendEntries r)
  assume "step n (Step sender m) = Some (n', es)" "node_inv n"
  with AppendEntries show ?thesis
    by (auto split: if_splits elim!: on_append_entries_cases simp: accepted_def Let_def)
next
  case (AppendEntriesResponse r)
  assume "step n (Step sender m) = Some (n', es)"
  with AppendEntriesResponse show ?thesis
    by (auto simp: on_append_entries_response_def run_simps step_down_def split: if_splits
        dest!: continue_replication_frame timeout_advance)
next
  case (InstallSnapshot r)
  assume "step n (Step sender m) = Some (n', es)"
  with InstallSnapshot show ?thesis by (auto split: if_splits elim!: on_install_snapshot_cases)
next
  case (InstallSnapshotResponse r)
  assume "step n (Step sender m) = Some (n', es)"
  with InstallSnapshotResponse show ?thesis
    by (auto simp: on_install_snapshot_response_def run_simps step_down_def split: if_splits
        dest!: continue_replication_frame timeout_advance)
qed

lemma timeout_tick: "on_tick n t = Some (n', es) \<Longrightarrow> election_timeout n' \<in> {election_timeout n, t}"
  by (cases "role n = Leader")
     (auto simp: on_tick_def on_leader_tick_def run_simps split: if_splits dest!: timeout_start_election)

lemma timeout_run_op:
  assumes "run_op n op = Some (n', es)" and "node_inv n" and "\<forall>t. op = Op_Event (Tick t) \<longrightarrow> t \<in> T"
  shows "election_timeout n' \<in> insert (election_timeout n) T"
proof (cases op)
  case (Op_Event ev)
  with assms show ?thesis by (cases ev) (auto dest!: timeout_tick timeout_message)
qed (use assms in \<open>auto simp: run_simps propose_def propose_config_change_def add_learner_def remove_learner_def
       compacted_def split: if_splits dest!: timeout_advance timeout_recompute elim!: compact_cases\<close>)

lemma path_timeout:
  assumes "node_path T n m" and "node_inv n"
  shows "election_timeout m \<in> insert (election_timeout n) T"
proof -
  from assms have "election_timeout m \<in> insert (election_timeout n) T \<and> node_inv m"
  proof (induction rule: node_path.induct)
    case (onward m op m' es)
    then show ?case using timeout_run_op [OF onward(2), of T] node_inv_run_op [OF onward(2)] by auto
  qed simp
  then show ?thesis ..
qed

section \<open>A process moves its node by the node's operations\<close>

abbreviation actor_node :: "actor \<Rightarrow> node" where
  "actor_node a \<equiv> rp_node (ac_replica a)"

lemma put_request_replica: "put_request_effects enc a es = Some (a', res) \<Longrightarrow> ac_replica a' = ac_replica a"
proof (induction enc a es rule: put_request_effects.induct)
qed (auto simp: then_io_Some dest!: put_effect_frame)

lemma path_maybe_compact:
  assumes "maybe_compact enc a = Some (a', res)"
  shows "node_path T (actor_node a) (actor_node a')"
proof -
  have "node_path T (rp_node r) (rp_node r')" if "replica_compact r retain = Some (r', c)" for r retain r' c
    using that by (auto simp: replica_compact_def Let_def run_simps here split: if_splits
        intro!: path_op [where op = "Op_Compact i d" for i d])
  with assms show ?thesis
    by (auto simp: maybe_compact_def bind_eq_Some_conv here split: if_splits option.splits dest!: dispatch_replica)
qed

text \<open>An operation of the replica, its batch and a compaction.\<close>

lemma path_then_compact:
  assumes "then_io (maybe_compact enc a1) f = Some (a', res)"
    and "\<And>a2 x out. f a2 x = Some (a', out) \<Longrightarrow> ac_replica a' = ac_replica a2"
  shows "node_path T (actor_node a1) (actor_node a')"
proof -
  from assms(1) obtain a2 x where a2: "maybe_compact enc a1 = Some (a2, x)" and "ac_replica a' = ac_replica a2"
    by (auto simp: then_io_Some dest: assms(2))
  with path_maybe_compact [OF a2] show ?thesis by simp
qed

lemma path_batch:
  assumes "run_op (actor_node a) op = Some (rp_node r, es)" and "\<forall>t. op = Op_Event (Tick t) \<longrightarrow> t \<in> T"
    and "then_io (dispatch enc (b\<lparr>ac_replica := r\<rparr>) es') g = Some (a', res)"
    and "\<And>a1. g a1 () = Some (a', res) \<Longrightarrow> node_path T (actor_node a1) (actor_node a')"
  shows "node_path T (actor_node a) (actor_node a')"
proof -
  have moved: "node_path T (actor_node a) (rp_node r)" by (rule path_op [OF assms(1,2)])
  from assms(3) consider err where "dispatch enc (b\<lparr>ac_replica := r\<rparr>) es' = Some (a', Inl err)"
    | a1 where "dispatch enc (b\<lparr>ac_replica := r\<rparr>) es' = Some (a1, Inr ())" "g a1 () = Some (a', res)"
    by (auto simp: then_io_Some)
  then show ?thesis
  proof cases
    case 1
    with moved show ?thesis by (auto dest: dispatch_replica)
  next
    case 2
    have "actor_node a1 = rp_node r" using dispatch_replica [OF 2(1)] by simp
    with path_trans [OF assms(4) [OF 2(2)]] moved show ?thesis by simp
  qed
qed

lemma path_event:
  assumes "handle_event enc a ev = Some (a', res)" and "\<forall>t. ev = Tick t \<longrightarrow> t \<in> T"
  shows "node_path T (actor_node a) (actor_node a')"
proof -
  define a1 where "a1 = (case ev of Step sender m \<Rightarrow> update_leader_hint a sender m | Tick _ \<Rightarrow> a)"
  have a1: "ac_replica a1 = ac_replica a" by (simp add: a1_def split: event.split)
  from assms(1) obtain r es where rs: "replica_step (ac_replica a1) ev = Some (r, es)"
    and k: "then_io (dispatch enc (a1\<lparr>ac_replica := r\<rparr>) es) (\<lambda>a' _. maybe_compact enc a') = Some (a', res)"
    by (auto simp: handle_event_def bind_eq_Some_conv a1_def Let_def)
  show ?thesis
    by (rule path_batch [OF replica_step_run_op [OF rs [unfolded a1]] _ k])
       (use assms(2) in \<open>auto intro: path_maybe_compact\<close>)
qed

lemma path_peer_request:
  assumes "handle_peer_request enc a sender m = Some (a', res)"
  shows "node_path T (actor_node a) (actor_node a')"
proof -
  let ?a = "update_leader_hint a sender m"
  from assms obtain r es where rs: "replica_step (ac_replica a) (Step sender m) = Some (r, es)"
    and k: "(if es = [] then Some (?a\<lparr>ac_replica := r\<rparr>, Inr None)
     else (case last es of
       Send _ reply \<Rightarrow>
         then_io (put_request_effects enc (?a\<lparr>ac_replica := r\<rparr>) (butlast es)) (\<lambda>a3 _.
           then_io (maybe_compact enc a3) (\<lambda>a4 _. Some (a4, Inr (Some reply))))
     | _ \<Rightarrow> None)) = Some (a', res)"
    by (auto simp: handle_peer_request_def bind_eq_Some_conv Let_def)
  have moved: "node_path T (actor_node a) (rp_node r)"
    by (rule path_op [OF replica_step_run_op [OF rs]]) simp
  from k consider "ac_replica a' = r"
    | a3 reply where "ac_replica a3 = r" "then_io (maybe_compact enc a3) (\<lambda>a4 _. Some (a4, Inr (Some reply))) = Some (a', res)"
    by (fastforce simp: then_io_Some split: if_splits effect.splits dest!: put_request_replica)
  then show ?thesis
  proof cases
    case 2
    from path_trans [OF path_then_compact [OF 2(2)]] moved 2(1) show ?thesis by auto
  qed (use moved in simp)
qed

lemma path_propose:
  assumes "actor_propose enc a c = Some (a', res)"
  shows "node_path T (actor_node a) (actor_node a')"
proof -
  from assms obtain r out where p: "replica_propose (ac_replica a) c = Some (r, out)"
    by (auto simp: actor_propose_def bind_eq_Some_conv)
  note op = replica_propose_run_op [OF p]
  show ?thesis
  proof (cases out)
    case None
    with p assms path_op [OF op] show ?thesis by (auto simp: actor_propose_def)
  next
    case (Some ie)
    then obtain index es where ie: "out = Some (index, es)" by (cases ie) auto
    have "then_io (dispatch enc (a\<lparr>ac_replica := r\<rparr>) es) (\<lambda>a1 _. then_io (maybe_compact enc a1)
        (\<lambda>a3 _. Some (a3, Inr (Accepted index)))) = Some (a', res)"
      using assms p ie by (simp add: actor_propose_def)
    from path_batch [OF op _ this] show ?thesis by (auto intro: path_then_compact)
  qed
qed

lemma path_config_change:
  assumes "actor_propose_config_change enc a vs = Some (a', res)"
  shows "node_path T (actor_node a) (actor_node a')"
proof -
  from assms obtain r out where p: "replica_propose_config_change (ac_replica a) vs = Some (r, out)"
    by (auto simp: actor_propose_config_change_def bind_eq_Some_conv)
  note op = replica_propose_config_change_run_op [OF p]
  show ?thesis
  proof (cases out)
    case None
    with p assms path_op [OF op] show ?thesis by (auto simp: actor_propose_config_change_def)
  next
    case (Some ie)
    then obtain index es where ie: "out = Some (index, es)" by (cases ie) auto
    have "then_io (dispatch enc (a\<lparr>ac_replica := r\<rparr>) es) (\<lambda>a1 _. then_io (maybe_compact enc a1)
        (\<lambda>a3 _. Some (a3, Inr (Accepted index)))) = Some (a', res)"
      using assms p ie by (simp add: actor_propose_config_change_def)
    from path_batch [OF op _ this] show ?thesis by (auto intro: path_then_compact)
  qed
qed

lemma path_add_learner:
  assumes "actor_add_learner enc valid a i address = Some (a', res)"
  shows "node_path T (actor_node a) (actor_node a')"
proof (cases "role (actor_node a) = Leader")
  case True
  with assms obtain r es where p: "replica_add_learner (ac_replica a) i = Some (r, es)"
    and k: "then_io (dispatch enc (a\<lparr>ac_replica := r\<rparr>) es) (\<lambda>a1 _.
          then_io (maybe_compact enc a1) (\<lambda>a2 _.
            if valid address
            then Some (a2\<lparr>ac_peers := (i, address) # ac_peers a2\<rparr>, Inr (LearnerAccepted True))
            else Some (a2, Inr (LearnerAccepted False)))) = Some (a', res)"
    by (auto simp: actor_add_learner_def bind_eq_Some_conv)
  show ?thesis
    by (rule path_batch [OF replica_add_learner_run_op [OF p] _ k])
       (auto elim!: path_then_compact split: if_splits)
qed (use assms in \<open>auto simp: actor_add_learner_def here\<close>)

lemma path_remove_learner:
  assumes "actor_remove_learner enc a i = Some (a', res)"
  shows "node_path T (actor_node a) (actor_node a')"
proof -
  from assms obtain r es where p: "replica_remove_learner (ac_replica a) i = Some (r, es)"
    and k: "then_io (dispatch enc (a\<lparr>ac_replica := r\<rparr>) es) (\<lambda>a' _. maybe_compact enc a') = Some (a', res)"
    by (auto simp: actor_remove_learner_def bind_eq_Some_conv)
  from path_batch [OF replica_remove_learner_run_op [OF p] _ k] show ?thesis by (auto intro: path_maybe_compact)
qed

lemma path_serve:
  assumes "serve enc valid a rq = Some (a', reply)"
  shows "node_path {t. rq = RqTick t} (actor_node a) (actor_node a')"
  using assms
  by (cases rq)
     (auto simp: bind_eq_Some_conv expect_io_Some here intro: path_event path_peer_request path_propose
       path_config_change path_add_learner path_remove_learner)

lemma path_run_actor:
  "run_actor enc valid a rqs = Some (a', replies, published) \<Longrightarrow>
     node_path {t. RqTick t \<in> set rqs} (actor_node a) (actor_node a')"
proof (induction rqs arbitrary: a replies published)
  case (Cons rq rqs)
  then obtain a1 reply rest ps where s: "serve enc valid a rq = Some (a1, reply)"
    and r: "run_actor enc valid a1 rqs = Some (a', rest, ps)"
    by (auto simp: bind_eq_Some_conv)
  show ?case by (rule path_trans [OF path_mono [OF Cons.IH [OF r]] path_mono [OF path_serve [OF s]]]) auto
qed (simp add: here)

lemma start_node_reachable:
  assumes "start_node i ids timeout heartbeat join s = Some n" and "image_ok (storage_image s)"
  shows "node_reachable n \<and> nid n = i \<and> election_timeout n = timeout"
proof (cases "join \<and> is_fresh_storage s")
  case True
  with assms(1) have "new_learner i timeout heartbeat = Inr n" by (simp add: start_node_def expect_eq_Some)
  from node_reachable.joins [OF this] this show ?thesis
    by (auto simp: new_learner_def Let_def split: if_splits)
next
  case False
  with assms(1) have rec: "recover i ids timeout heartbeat (st_hard_state s) (st_log s)
      \<lparr>metadata = st_snapshot s, snap_data = st_snapshot_data s, snap_config = st_snapshot_config s\<rparr>
      (st_learners s) = Some (Inr n)"
    by (auto simp: start_node_def bind_eq_Some_conv expect_eq_Some)
  with assms(2) have "node_reachable n"
    by (intro node_reachable.recovers [OF rec]) (simp add: image_ok_def storage_image_def)
  with recover_Inr(1) [OF rec] show ?thesis by (simp add: recovered_def Let_def)
qed

lemma started_reachable:
  assumes "start_process cfg s file = Some (a, lo, hi)" and "image_ok (storage_image s)"
  shows "node_reachable (actor_node a)" and "nid (actor_node a) = cfg_id cfg"
    and "election_timeout (actor_node a) = lo" and "lo = cfg_election_timeout cfg" and "hi = 2 * lo"
proof -
  from assms(1) obtain n r where n: "start_node (cfg_id cfg) (map fst (cfg_peers cfg)) (cfg_election_timeout cfg)
      (cfg_heartbeat_interval cfg) (cfg_join cfg) s = Some n" and r: "recover_replica n = Some r"
    and "ac_replica a = r" "lo = cfg_election_timeout cfg" "hi = 2 * lo"
    by (auto simp: start_process_def start_actor_def new_actor_def bind_eq_Some_conv u64_simps)
  moreover have "rp_node r = n" using r by (auto simp: recover_replica_def bind_eq_Some_conv)
  ultimately show "node_reachable (actor_node a)" "nid (actor_node a) = cfg_id cfg"
    "election_timeout (actor_node a) = lo" "lo = cfg_election_timeout cfg" "hi = 2 * lo"
    using start_node_reachable [OF n assms(2)] by simp_all
qed

text \<open>The requests a process gets from its timer carry timeouts in the configured range, so its node
  never has any other.\<close>

lemma timed_run_actor:
  assumes "start_process cfg s file = Some (a, lo, hi)" and "image_ok (storage_image s)"
    and "run_actor enc valid a rqs = Some (a', replies, published)"
    and "\<forall>t. RqTick t \<in> set rqs \<longrightarrow> lo \<le> t \<and> t \<le> hi"
  shows "node_reachable (actor_node a')" and "nid (actor_node a') = cfg_id cfg"
    and "lo \<le> election_timeout (actor_node a') \<and> election_timeout (actor_node a') \<le> hi"
proof -
  note start = started_reachable [OF assms(1,2)]
  note path = path_run_actor [OF assms(3)]
  show "node_reachable (actor_node a')" by (rule path_reachable [OF path start(1)])
  show "nid (actor_node a') = cfg_id cfg" using path_nid [OF path node_reachable_inv [OF start(1)]] start(2) by simp
  from path_timeout [OF path node_reachable_inv [OF start(1)]] start(3-5) assms(4)
  show "lo \<le> election_timeout (actor_node a') \<and> election_timeout (actor_node a') \<le> hi" by auto
qed

end
