(* ===== verification/Runtime_Properties.thy ===== *)
theory Runtime_Properties
  imports Process Kv_Properties
begin

text \<open>
  The properties of the runtime: the file store, the actor that owns a replica, and the calls
  between processes.
\<close>

section \<open>A small process\<close>

text \<open>The second voter of the trio, started from an empty directory, and a vote it is asked for.\<close>

definition no_storage :: storage where
  "no_storage = \<lparr>st_path = ''state'', st_hard_state = default_hard_state, st_log = [],
     st_snapshot = default_metadata, st_snapshot_data = [], st_snapshot_config = default_config,
     st_learners = []\<rparr>"

definition term_codec :: encoder where
  "term_codec p = [word_of_nat (pss_current_term p)]"

definition started :: actor where
  "started = new_actor \<lparr>rp_node = trio_voter (NodeId 2), rp_state_machine = new_state_machine,
     rp_results = Map.empty\<rparr> (no_storage, None) 4"

lemma started_eq: "start_actor (NodeId 2) trio 1 1 False 4 no_storage None = Some started"
proof -
  have "recover (NodeId 2) trio 1 1 default_hard_state [] default_snapshot [] = Some (Inr (trio_voter (NodeId 2)))"
    using trio_voter_new [OF trio_2] by (simp add: new_node_def)
  then have "start_node (NodeId 2) trio 1 1 False no_storage = Some (trio_voter (NodeId 2))"
    by (simp add: start_node_def no_storage_def default_snapshot_def expect_eq_Some)
  moreover have "boundary (trio_voter (NodeId 2)) = 0"
    by (simp add: trio_voter_def recovered_def Let_def default_snapshot_def default_metadata_def)
  ultimately show ?thesis
    by (simp add: start_actor_def started_def recover_replica_def)
qed

lemma no_storage_ok: "image_ok (storage_image no_storage)" "file_in_step enc (no_storage, None)"
  by (simp_all add: image_ok_def storage_image_def no_storage_def default_metadata_def file_in_step_def
      default_durable_state_def)


section \<open>The store\<close>

text \<open>C24. The file store refines the durable image: a flushed write does to the record in memory what
  the specification says, an effect that panics there panics here, and reading the file back after
  any sequence of writes gives the image the specification computes. The protobuf codec is only
  assumed to decode what it encoded.\<close>

theorem file_reopens_as_specified:
  assumes "file_store.put_all enc (s, file) es = Some (s', file')" and "file_in_step enc (s, file)"
    and "storable s'" and "dec (enc (storage_record s')) = Inr (storage_record s')"
  shows "\<exists>opened. storage_open dec (st_path s')
      (case file' of Some bs \<Rightarrow> Inr bs | None \<Rightarrow> Inl NotFound) = Inr opened \<and>
    durable_apply_all (storage_image s) es = Some (storage_image opened)"
proof -
  from storage_reopen [where dec = dec, OF file_in_step_write_all [OF assms(1,2)] assms(3)] assms(4) obtain opened where
    o: "storage_open dec (st_path s') (case file' of Some bs \<Rightarrow> Inr bs | None \<Rightarrow> Inl NotFound) = Inr opened"
    "storage_image opened = storage_image s'" by blast
  with file_store.put_all_image [of enc "(s, file)" es] assms(1) show ?thesis by auto
qed

theorem file_reopens_as_specified_witness:
  "\<exists>s file opened. file_store.put_all term_codec (no_storage, None)
       [PersistHardState 3 None, PersistLog 1 [sample_entry 3 7]] = Some (s, file) \<and>
     storage_open (\<lambda>_. Inr (storage_record s)) ''state''
       (case file of Some bs \<Rightarrow> Inr bs | None \<Rightarrow> Inl NotFound) = Inr opened \<and>
     st_log opened = [sample_entry 3 7] \<and> hs_current_term (st_hard_state opened) = 3"
proof -
  let ?es = "[PersistHardState 3 None, PersistLog 1 [sample_entry 3 7]]"
  obtain s f where run: "file_store.put_all term_codec (no_storage, None) ?es = Some (s, f)"
    and s: "st_path s = ''state''" "storable s"
    by (simp add: storage_write_eq no_storage_def default_metadata_def sub64_def storable_def
        sample_entry_def sendable_entry_def sendable_config_def default_config_def)
  from file_reopens_as_specified [OF run no_storage_ok(2) s(2), of "\<lambda>_. Inr (storage_record s)"]
  obtain opened where o: "storage_open (\<lambda>_. Inr (storage_record s)) (st_path s)
      (case f of Some bs \<Rightarrow> Inr bs | None \<Rightarrow> Inl NotFound) = Inr opened"
    "durable_apply_all (storage_image no_storage) ?es = Some (storage_image opened)" by auto
  have "map_option ds_log (durable_apply_all (storage_image no_storage) ?es) = Some [sample_entry 3 7]"
    "map_option ds_hard_state (durable_apply_all (storage_image no_storage) ?es) =
       Some \<lparr>hs_current_term = 3, hs_voted_for = None\<rparr>"
    by (simp_all add: storage_image_def no_storage_def default_metadata_def sub64_def)
  then have "st_log opened = [sample_entry 3 7] \<and> hs_current_term (st_hard_state opened) = 3"
    unfolding o(2) by (simp add: storage_image_def)
  with run o(1) s(1) show ?thesis by auto
qed

text \<open>C25. A failing disk: whatever way the flush ends, the record in memory takes the effect as
  specified; the call succeeds only when the file holds the whole new record, and after a failure
  the file is the old one, a prefix of the new record, or the new record.\<close>

theorem failed_flush_leaves_a_prefix:
  assumes "storage_apply enc outcome (s, file) e = Some ((s', file'), res)"
  shows "durable_apply (storage_image s) e = Some (storage_image s') \<and>
    (is_send e \<longrightarrow> file' = file \<and> res = Inr ()) \<and>
    (\<not> is_send e \<and> res = Inr () \<longrightarrow> file' = Some (enc (storage_record s'))) \<and>
    (res \<noteq> Inr () \<longrightarrow> file' = file \<or> (\<exists>k. file' = Some (take k (enc (storage_record s')))))"
proof -
  obtain s1 where u: "storage_update s e = Some s1"
    and r: "(if is_send e then Some ((s1, file), Inr ())
      else (let (f, x) = flush enc outcome s1 file in Some ((s1, f), x))) = Some ((s', file'), res)"
    using assms by (cases "storage_update s e"; cases "is_send e") (simp_all add: storage_apply_def)
  have s': "s1 = s'" using r by (auto split: if_splits prod.splits)
  have whole: "\<exists>k. take k bs = bs" for bs :: bytes by (rule exI [of _ "length bs"]) simp
  have "durable_apply (storage_image s) e = Some (storage_image s')"
    using storage_update_image [of s e] u s' by simp
  with r whole show ?thesis
    unfolding s' by (cases outcome) (auto simp: flush_def Let_def eq_commute split: if_splits)
qed

theorem failed_flush_leaves_a_prefix_witness:
  "\<exists>s. storage_apply term_codec (WriteFails 0) (no_storage, None) (PersistHardState 3 None) =
       Some ((s, Some []), Inl OtherIo) \<and> hs_current_term (st_hard_state s) = 3 \<and>
     durable_apply (storage_image no_storage) (PersistHardState 3 None) = Some (storage_image s)"
proof -
  obtain s where run: "storage_apply term_codec (WriteFails 0) (no_storage, None) (PersistHardState 3 None) =
       Some ((s, Some []), Inl OtherIo)" and t: "hs_current_term (st_hard_state s) = 3"
    by (simp add: storage_apply_def flush_def Let_def)
  from failed_flush_leaves_a_prefix [OF run] run t show ?thesis by blast
qed

section \<open>The actor and its file\<close>

lemma started_actor_in_step:
  assumes "start_actor i ids timeout heartbeat join threshold s file = Some a"
    and "image_ok (storage_image s)" and "file_in_step enc (s, file)"
    and "join \<and> is_fresh_storage s \<longrightarrow>
      st_snapshot s = default_metadata \<and> st_snapshot_data s = [] \<and> st_learners s = []"
  shows "actor_in_step enc a" and "replica_consistent (ac_replica a)"
    and "fst (ac_storage a) = s" and "compact_threshold a = threshold"
proof -
  from assms(1) obtain n r where n: "start_node i ids timeout heartbeat join s = Some n"
    and r: "recover_replica n = Some r" and a: "a = new_actor r (s, file) threshold"
    by (auto simp: start_actor_def bind_eq_Some_conv)
  note p = start_node_persisted [OF n assms(2,4)]
  note c = recover_replica_consistent [OF r p [THEN conjunct2]]
  from c(2) p a assms(3) show "actor_in_step enc a" by (simp add: actor_in_step_def new_actor_def)
  from c(1) a show "replica_consistent (ac_replica a)" by (simp add: new_actor_def)
  from a show "fst (ac_storage a) = s" "compact_threshold a = threshold" by (simp_all add: new_actor_def)
qed

lemma started_in_step: "actor_in_step enc started" "replica_consistent (ac_replica started)"
  using started_actor_in_step [OF started_eq no_storage_ok] by auto

text \<open>C22. A process started from its file, serving any sequence of requests on a healthy disk, keeps
  the file in step with its node: the record in memory is an image of the node and the file is
  the encoding of that record (or was never written and the image is the empty one).\<close>

theorem process_stays_in_step:
  assumes "start_actor i ids timeout heartbeat join threshold s file = Some a"
    and "run_actor enc valid a rqs = Some (a', replies, published)"
    and "image_ok (storage_image s)" and "file_in_step enc (s, file)" and "list_all request_wf rqs"
    and "join \<and> is_fresh_storage s \<longrightarrow>
      st_snapshot s = default_metadata \<and> st_snapshot_data s = [] \<and> st_learners s = []"
  shows "node_inv (rp_node (ac_replica a')) \<and>
    persisted (storage_image (fst (ac_storage a'))) (rp_node (ac_replica a')) \<and>
    file_in_step enc (ac_storage a')"
  using in_step_run_actor [OF assms(2) started_actor_in_step(1) [OF assms(1,3,4,6)] assms(5)]
  by (simp add: actor_in_step_def)

text \<open>The vote of the started process.\<close>

definition vote_requests :: "actor_request list" where
  "vote_requests = [RqPeerRequest (NodeId 1) (RequestVote ballot), RqEntryTerm 1]"

lemma started_votes: "\<exists>a. run_actor term_codec (\<lambda>_. True) started vote_requests =
    Some (a, [RpPeer (Some (RequestVoteResponse \<lparr>rvr_term = 1, granted = True\<rparr>)), RpEntryTerm None], [0, 0]) \<and>
    snd (ac_storage a) = Some [1] \<and> voted_for (rp_node (ac_replica a)) = Some (NodeId 1)"
proof -
  have "case run_actor term_codec (\<lambda>_. True) started vote_requests of
      Some (a, replies, published) \<Rightarrow>
        replies = [RpPeer (Some (RequestVoteResponse \<lparr>rvr_term = 1, granted = True\<rparr>)), RpEntryTerm None] \<and>
        published = [0, 0] \<and> snd (ac_storage a) = Some [1] \<and>
        voted_for (rp_node (ac_replica a)) = Some (NodeId 1)
    | None \<Rightarrow> False" by code_simp
  then show ?thesis by (auto split: option.splits)
qed

theorem process_stays_in_step_witness:
  "\<exists>a replies published. run_actor term_codec (\<lambda>_. True) started vote_requests = Some (a, replies, published) \<and>
     voted_for (rp_node (ac_replica a)) = Some (NodeId 1) \<and> snd (ac_storage a) = Some [1] \<and>
     persisted (storage_image (fst (ac_storage a))) (rp_node (ac_replica a)) \<and>
     file_in_step term_codec (ac_storage a)"
proof -
  obtain a replies published where run: "run_actor term_codec (\<lambda>_. True) started vote_requests =
      Some (a, replies, published)" and v: "voted_for (rp_node (ac_replica a)) = Some (NodeId 1)"
    "snd (ac_storage a) = Some [1]"
    using started_votes by blast
  have "list_all request_wf vote_requests" by (simp add: vote_requests_def)
  from process_stays_in_step [OF started_eq run no_storage_ok this] run v show ?thesis by blast
qed

text \<open>C20. A process killed between two requests comes back as a member: when its file is in step with its node
  and the codec decodes the record in it, opening the file and starting a node from it succeeds, and the node has the
  term, vote, log, snapshot, learners and configuration of the one that was killed, provided that one
  had a snapshot or its base configuration is the configured membership.\<close>

theorem process_restart_restores:
  assumes "actor_in_step enc a" and "storable (fst (ac_storage a))"
    and "dec (enc (storage_record (fst (ac_storage a)))) = Inr (storage_record (fst (ac_storage a)))"
    and "sorted_wrt (<) ids" and "i \<in> set ids" and "0 < heartbeat" and "heartbeat \<le> timeout"
    and "0 < boundary (rp_node (ac_replica a)) \<or>
      snapshot_config (rp_node (ac_replica a)) = \<lparr>voters = ids, old_voters = None\<rparr>"
  shows "\<exists>opened n. storage_open dec (st_path (fst (ac_storage a)))
      (case snd (ac_storage a) of Some bs \<Rightarrow> Inr bs | None \<Rightarrow> Inl NotFound) = Inr opened \<and>
    start_node i ids timeout heartbeat False opened = Some n \<and>
    durable_part n = durable_part (rp_node (ac_replica a)) \<and>
    current_config n = current_config (rp_node (ac_replica a))"
proof -
  let ?s = "fst (ac_storage a)" and ?n = "rp_node (ac_replica a)"
  have st: "node_inv ?n" "persisted (storage_image ?s) ?n" "file_in_step enc (?s, snd (ac_storage a))"
    using assms(1) by (simp_all add: actor_in_step_def)
  from storage_reopen [where dec = dec, OF st(3) assms(2)] assms(3) obtain opened where
    o: "storage_open dec (st_path ?s) (case snd (ac_storage a) of Some bs \<Rightarrow> Inr bs | None \<Rightarrow> Inl NotFound) = Inr opened"
    "storage_image opened = storage_image ?s" by blast
  from recover_from_total [OF persisted_image_ok [OF st(2,1)] assms(4-7)] obtain n where
    n: "recover_from (storage_image ?s) i ids timeout heartbeat = Some (Inr n)" by blast
  then have "start_node i ids timeout heartbeat False opened = Some n"
    unfolding o(2) [symmetric]
    by (simp add: start_node_def recover_from_def durable_snapshot_def storage_image_def expect_eq_Some)
  with o(1) recover_from_restores(1,2) [OF st(2,1) n assms(8)] show ?thesis by blast
qed

theorem process_restart_restores_witness:
  "\<exists>a dec opened n. storage_open dec ''state'' (Inr [1]) = Inr opened \<and>
     run_actor term_codec (\<lambda>_. True) started vote_requests = Some a \<and>
     start_node (NodeId 2) trio 1 1 False opened = Some n \<and> voted_for n = Some (NodeId 1)"
proof -
  obtain a replies published where run: "run_actor term_codec (\<lambda>_. True) started vote_requests =
      Some (a, replies, published)" and v: "voted_for (rp_node (ac_replica a)) = Some (NodeId 1)"
    "snd (ac_storage a) = Some [1]"
    using started_votes by blast
  have "case run_actor term_codec (\<lambda>_. True) started vote_requests of
      Some (a, _) \<Rightarrow> snapshot_config (rp_node (ac_replica a)) = \<lparr>voters = trio, old_voters = None\<rparr> \<and>
        st_path (fst (ac_storage a)) = ''state'' \<and> st_log (fst (ac_storage a)) = [] \<and>
        st_snapshot_config (fst (ac_storage a)) = default_config
    | None \<Rightarrow> False" by code_simp
  with run have c: "snapshot_config (rp_node (ac_replica a)) = \<lparr>voters = trio, old_voters = None\<rparr>"
    "st_path (fst (ac_storage a)) = ''state''" "storable (fst (ac_storage a))"
    by (simp_all add: storable_def sendable_config_def default_config_def)
  have "list_all request_wf vote_requests" by (simp add: vote_requests_def)
  from in_step_run_actor [OF run started_in_step(1) this] have st: "actor_in_step term_codec a" .
  have trio: "sorted_wrt (<) trio" "0 < (1::nat)" "1 \<le> (1::nat)" by (simp_all add: trio_def)
  from process_restart_restores [OF st c(3), of "\<lambda>_. Inr (storage_record (fst (ac_storage a)))"
      trio "NodeId 2" 1 1] trio c v obtain opened n where
    "storage_open (\<lambda>_. Inr (storage_record (fst (ac_storage a)))) ''state'' (Inr [1]) = Inr opened"
    "start_node (NodeId 2) trio 1 1 False opened = Some n" "voted_for n = Some (NodeId 1)"
    by (auto simp: durable_part_def)
  with run show ?thesis by blast
qed

section \<open>Failing writes\<close>

text \<open>C23. When a write of an operation's batch fails, nothing of the batch has been sent, whichever write
  it was and however the flush ended.\<close>

theorem failed_write_sends_nothing:
  assumes "run_op n op = Some (n', es)" and "node_inv n"
    and "dispatch enc a es = Some (a', Inl err)"
  shows "ac_sent a' = ac_sent a"
  using dispatch_failed [OF assms(3) writes_first_run_op [OF assms(1,2)]] .

theorem failed_write_sends_nothing_witness:
  "\<exists>n es a. run_op (trio_voter (NodeId 1)) (Op_Event (Tick 1)) = Some (n, es) \<and> sends_of es \<noteq> [] \<and>
     dispatch term_codec (started\<lparr>ac_io := [WriteFails 0]\<rparr>) es = Some (a, Inl OtherIo) \<and> ac_sent a = []"
proof -
  let ?run = "run_op (trio_voter (NodeId 1)) (Op_Event (Tick 1))"
  let ?a = "started\<lparr>ac_io := [WriteFails 0]\<rparr>"
  have "case ?run of Some (n, es) \<Rightarrow> sends_of es \<noteq> [] \<and>
      (case dispatch term_codec ?a es of Some (_, res) \<Rightarrow> res = Inl OtherIo | None \<Rightarrow> False) | None \<Rightarrow> False"
    by code_simp
  then obtain n es a where run: "?run = Some (n, es)" and s: "sends_of es \<noteq> []"
    and d: "dispatch term_codec ?a es = Some (a, Inl OtherIo)"
    by (auto split: option.splits)
  from failed_write_sends_nothing [OF run trio_voter_inv d] have "ac_sent a = []"
    by (simp add: started_def new_actor_def)
  with run s d show ?thesis by blast
qed

section \<open>Compaction\<close>

text \<open>C26. Compaction bounds the log: with a positive threshold, after \<open>maybe_compact\<close> on a consistent replica
  fewer applied entries than the threshold are left above the boundary, and the map the clients see
  is the same.\<close>

theorem applied_log_stays_bounded:
  assumes "maybe_compact enc a = Some (a', res)" and "replica_consistent (ac_replica a)"
    and "0 < compact_threshold a"
  shows "last_applied (rp_state_machine (ac_replica a')) <
      boundary (rp_node (ac_replica a')) + compact_threshold a \<and>
    rp_state_machine (ac_replica a') = rp_state_machine (ac_replica a) \<and>
    replica_consistent (ac_replica a')"
proof (cases "last_applied (rp_state_machine (ac_replica a)) - boundary (rp_node (ac_replica a))
    < compact_threshold a")
  case True
  with assms show ?thesis by (auto simp: maybe_compact_def bind_eq_Some_conv u64_simps)
next
  case False
  let ?la = "last_applied (rp_state_machine (ac_replica a))"
  have "boundary (rp_node (ac_replica a)) \<le> ?la"
    using assms(2) by (simp add: replica_consistent_def Let_def)
  with assms(1) False obtain r c where
    c: "replica_compact (ac_replica a) (compact_threshold a div 2) = Some (r, c)"
    and k: "(case c of None \<Rightarrow> Some (a\<lparr>ac_replica := r\<rparr>, Inr ())
       | Some effects \<Rightarrow> dispatch enc (a\<lparr>ac_replica := r\<rparr>) effects) = Some (a', res)"
    by (auto simp: maybe_compact_def bind_eq_Some_conv u64_simps)
  have "boundary (rp_node (ac_replica a)) < ?la - compact_threshold a div 2"
    using False assms(3) by auto
  with c obtain es where es: "c = Some es"
    by (auto simp: replica_compact_def Let_def bind_eq_Some_conv split: if_splits)
  from es k have "ac_replica a' = r" by (auto dest: dispatch_replica)
  with replica_compact_consistent [OF c [unfolded es] assms(2)] False assms(3) show ?thesis by auto
qed

theorem applied_log_stays_bounded_witness:
  "\<exists>r a. drain_committed informed_replica = Some r \<and>
     maybe_compact term_codec (new_actor r (no_storage, None) 2) = Some (a, Inr ()) \<and>
     last_applied (rp_state_machine (ac_replica a)) < boundary (rp_node (ac_replica a)) + 2"
proof -
  obtain r r' t data c lg where r: "drain_committed informed_replica = Some r" "replica_consistent r"
    "last_applied (rp_state_machine r) = 2" "boundary (rp_node r) = 0"
    "replica_compact r 1 = Some (r', Some [PersistSnapshot 1 t data c, PersistLog 2 lg])"
    using informed_compacts by blast
  obtain a where run: "maybe_compact term_codec (new_actor r (no_storage, None) 2) = Some (a, Inr ())"
    using r(3,4,5) by (simp add: maybe_compact_def new_actor_def sub64_def put_effect_def
        storage_apply_def flush_def Let_def no_storage_def)
  have "replica_consistent (ac_replica (new_actor r (no_storage, None) 2))"
    "0 < compact_threshold (new_actor r (no_storage, None) 2)"
    using r(2) by (simp_all add: new_actor_def)
  from applied_log_stays_bounded [OF run this] run r(1) show ?thesis by (auto simp: new_actor_def)
qed

section \<open>Between processes\<close>

text \<open>C29. Every message that the runtime sends arrives as it was sent. Only a configuration that is
  joint with an empty old voter set is excluded, which the wire cannot tell from a simple one.\<close>

theorem messages_round_trip:
  "request_vote_from_proto (request_vote_to_proto rv) = rv \<and>
   request_vote_response_from_proto (request_vote_response_to_proto rvr) = rvr \<and>
   append_entries_response_from_proto (append_entries_response_to_proto aer) = aer \<and>
   install_snapshot_response_from_proto (install_snapshot_response_to_proto isr) = isr \<and>
   command_from_proto (command_to_proto c) = Inr c \<and>
   apply_result_from_proto (apply_result_to_proto result) = Inr result \<and>
   (list_all sendable_entry (entries ae) \<longrightarrow> append_entries_from_proto (append_entries_to_proto ae) = Inr ae) \<and>
   (sendable_config (is_config snap) \<longrightarrow> install_snapshot_from_proto (install_snapshot_to_proto snap) = snap)"
  using response_round_trips command_wire.arrives apply_result_wire.arrives append_entries_wire.arrives [of ae]
    install_snapshot_wire.arrives [of snap]
  by simp

theorem messages_round_trip_witness:
  "append_entries_from_proto (append_entries_to_proto batch) = Inr batch \<and>
   command_from_proto (command_to_proto set_x) = Inr set_x"
proof -
  have "list_all sendable_entry (entries batch)"
    by (simp add: batch_def sample_entry_def sendable_entry_def)
  with messages_round_trip [where ae = batch and c = set_x] show ?thesis by blast
qed

text \<open>The answer of a running actor to one peer request, as the service sees it through its handle.\<close>

definition ask_actor :: "encoder \<Rightarrow> (string \<Rightarrow> bool) \<Rightarrow> actor \<Rightarrow> peer_request" where
  "ask_actor enc valid a = ah_peer_request (task_answer enc valid a)"

lemma answer_replies:
  assumes "serve enc valid a (RqPeerRequest sender m) = Some (a', RpPeer (Some reply))"
    and "is_request m" and "node_inv (rp_node (ac_replica a))"
  shows "replies_to m reply"
proof -
  from assms(1) have h: "handle_peer_request enc a sender m = Some (a', Inr (Some reply))"
    by (auto simp: bind_eq_Some_conv expect_io_Some)
  then obtain r es where rs: "replica_step (ac_replica a) (Step sender m) = Some (r, es)"
    by (auto simp: handle_peer_request_def bind_eq_Some_conv Let_def)
  have "step (rp_node (ac_replica a)) (Step sender m) = Some (rp_node r, es)"
    using replica_step_run_op [OF rs] by simp
  from request_batch_step [OF this assms(2,3)] h rs show ?thesis
    by (auto simp: handle_peer_request_def request_batch_def then_io_Some Let_def)
qed

text \<open>C27. A peer call end to end: a request is sent with the cluster token to the address of the peer;
  the interceptor there lets it pass under the same token and under no other, the service hands
  the actor exactly the message that was sent, and the caller gets back exactly the actor's reply.
  The metadata map of the transport is only assumed to return what was put under a key.\<close>

theorem peer_call_reaches_actor:
  assumes "\<And>md k v. get (put md k v) k = Some v" and "ok token"
    and "map_of clients to = Some address" and "is_request m" and "sendable_message m"
    and "node_inv (rp_node (ac_replica a))"
    and "serve enc valid a (RqPeerRequest (sender_of m) m) = Some (a', RpPeer (Some reply))"
  shows "\<exists>md w resp. transport_send ok put blank clients token to m = Some (Some (address, md, w)) \<and>
    (\<forall>other. token_interceptor get other md = (if other = token then Inr md else Inl Unauthenticated)) \<and>
    serve_wire (ask_actor enc valid a) w = Inr resp \<and> from_wire_response resp = reply"
proof -
  obtain w where w: "to_wire_request m = Some w" using assms(4) by (cases m) auto
  have md: "attach_token ok put blank token = Some (put blank TOKEN_METADATA_KEY token)"
    using assms(2) by (simp add: attach_token_def)
  have "ask_actor enc valid a (sender_of m) m = Some (Some reply)"
    using assms(7) by (simp add: ask_actor_def ah_peer_request_def ask_for_def task_answer_def)
  from call_reaches_actor [where ask = "ask_actor enc valid a", OF assms(4,5) w this
      answer_replies [OF assms(7,4,6)]] obtain resp where
    "serve_wire (ask_actor enc valid a) w = Inr resp" "from_wire_response resp = reply" by blast
  moreover have "token_interceptor get other (put blank TOKEN_METADATA_KEY token) =
      (if other = token then Inr (put blank TOKEN_METADATA_KEY token) else Inl Unauthenticated)" for other
    using attached_token_accepted [of get put, OF assms(1) md, of other] by auto
  ultimately show ?thesis using w md assms(3) by (simp add: transport_send_def)
qed

theorem peer_call_reaches_actor_witness:
  "\<exists>md w resp. transport_send (\<lambda>_. True) (\<lambda>m k v. m(k \<mapsto> v)) Map.empty [(NodeId 2, ''b'')] ''token''
       (NodeId 2) (RequestVote ballot) = Some (Some (''b'', md, w)) \<and>
     token_interceptor (\<lambda>m. m) ''token'' md = Inr md \<and>
     token_interceptor (\<lambda>m. m) ''guess'' md = Inl Unauthenticated \<and>
     serve_wire (ask_actor term_codec (\<lambda>_. True) started) w = Inr resp \<and>
     from_wire_response resp = RequestVoteResponse \<lparr>rvr_term = 1, granted = True\<rparr>"
proof -
  let ?m = "RequestVote ballot" and ?put = "\<lambda>m k (v :: string). m(k \<mapsto> v)"
  let ?reply = "RequestVoteResponse \<lparr>rvr_term = 1, granted = True\<rparr>"
  have "case serve term_codec (\<lambda>_. True) started (RqPeerRequest (sender_of ?m) ?m) of
      Some (_, reply) \<Rightarrow> reply = RpPeer (Some ?reply) | None \<Rightarrow> False" by code_simp
  then obtain a where run: "serve term_codec (\<lambda>_. True) started (RqPeerRequest (sender_of ?m) ?m) =
      Some (a, RpPeer (Some ?reply))"
    by (cases "serve term_codec (\<lambda>_. True) started (RqPeerRequest (sender_of ?m) ?m)") auto
  have inv: "node_inv (rp_node (ac_replica started))"
    using started_in_step(1) by (simp add: actor_in_step_def)
  from peer_call_reaches_actor [where get = "\<lambda>m. m" and put = ?put and blank = Map.empty and
      token = "''token''" and ok = "\<lambda>_. True" and clients = "[(NodeId 2, ''b'')]" and to = "NodeId 2",
      OF _ _ _ _ _ inv run]
  obtain md w resp where "transport_send (\<lambda>_. True) ?put Map.empty [(NodeId 2, ''b'')] ''token''
       (NodeId 2) ?m = Some (Some (''b'', md, w))"
    and tok: "\<forall>other. token_interceptor (\<lambda>m. m) other md = (if other = ''token'' then Inr md else Inl Unauthenticated)"
    and "serve_wire (ask_actor term_codec (\<lambda>_. True) started) w = Inr resp" "from_wire_response resp = ?reply"
    by auto
  moreover from tok have "token_interceptor (\<lambda>m. m) ''token'' md = Inr md"
    "token_interceptor (\<lambda>m. m) ''guess'' md = Inl Unauthenticated" by simp_all
  ultimately show ?thesis by blast
qed

text \<open>When the client service reports a result, the command it was sent was accepted at that index,
  the wait for the applied index ended in time, the entry there had the same term before and after
  the wait, and the reported result is the one recorded for the index; and in that case it does
  report it.\<close>

lemma applied_reply_is_confirmed:
  "client_propose content ask_propose term_before wait term_after ask_result = Inr (ReplyApplied i x) \<longleftrightarrow>
     (\<exists>c t result. content = Some (command_to_proto c) \<and> ask_propose c = Some (Accepted i) \<and>
        term_before i = Some (Some t) \<and> wait = WaitApplied \<and> term_after i = Some (Some t) \<and>
        ask_result i = Some (Some result) \<and> x = apply_result_to_proto result)"
proof -
  have kind: "command_from_proto k = Inr c \<longleftrightarrow> k = command_to_proto c" for k c
    by (cases k rule: command_from_proto.cases; cases c) auto
  have err: "command_from_proto k = Inl e \<Longrightarrow> k \<noteq> command_to_proto c" for k e c by (auto simp: kind [symmetric])
  have inj: "command_to_proto c = command_to_proto c' \<longleftrightarrow> c = c'" for c c'
    using command_wire.to_wire_inj by blast
  have read: "Some t = Option.bind v id \<longleftrightarrow> v = Some (Some t)" for t and v :: "'b option option"
    by (cases v) auto
  show ?thesis
    by (auto simp: client_propose_def kind inj read Let_def bind_eq_Some_conv split: option.splits sum.splits
        propose_outcome.splits wait_result.splits if_splits dest: err)
qed

lemma sorted_le_last: "sorted xs \<Longrightarrow> v \<in> set xs \<Longrightarrow> v \<le> last xs"
  by (induction xs) (auto split: if_splits)

text \<open>C28. A client that waits for an index on the published cursor, from any point of the actor's work on,
  is released only once that index is applied, and it stays applied: the published values never go
  back.\<close>

theorem awaited_index_is_applied:
  assumes "run_actor enc valid a rqs = Some (a', replies, published)"
    and "wait_for_applied (drop k published) i"
  shows "i \<le> last_applied (rp_state_machine (ac_replica a')) \<and> sorted published"
proof -
  from published_sorted [OF assms(1)] have p: "sorted (cursor a # published)"
    "cursor a' = last (cursor a # published)" by simp_all
  from assms(2) obtain v where v: "v \<in> set published" "i \<le> v"
    by (auto simp: wait_for_applied_iff dest: in_set_dropD)
  then have "published \<noteq> []" by auto
  with p v sorted_le_last [of published v] show ?thesis by (auto simp: cursor_def)
qed

definition first_batch :: append_entries where
  "first_batch = \<lparr>ae_term = 1, ae_leader_id = NodeId 1, prev_log_index = 0, prev_log_term = 0,
     entries = [\<lparr>entry_term = 1, payload = Command (encode get_x)\<rparr>], leader_commit = 1\<rparr>"

theorem awaited_index_is_applied_witness:
  "\<exists>a replies published. run_actor term_codec (\<lambda>_. True) started
       [RqEntryTerm 1, RqPeerRequest (NodeId 1) (AppendEntries first_batch), RqEntryTerm 1] = Some (a, replies, published) \<and>
     published = [0, 1, 1] \<and> 1 \<le> last_applied (rp_state_machine (ac_replica a))"
proof -
  let ?run = "run_actor term_codec (\<lambda>_. True) started
     [RqEntryTerm 1, RqPeerRequest (NodeId 1) (AppendEntries first_batch), RqEntryTerm 1]"
  have "case ?run of Some (a, replies, published) \<Rightarrow> published = [0, 1, 1] | None \<Rightarrow> False" by code_simp
  then obtain a replies published where run: "?run = Some (a, replies, published)" and p: "published = [0, 1, 1]"
    by (auto split: option.splits)
  then have "wait_for_applied (drop 0 published) 1" by simp
  from awaited_index_is_applied [OF run this] run p show ?thesis by blast
qed

section \<open>Starting a process\<close>

text \<open>Whatever environment the process accepts, the membership it reads is one that recovery takes:
  with a sound file and a positive heartbeat interval not above the election timeout, a node
  starts as a follower under the configured id.\<close>

lemma accepted_settings_start:
  assumes "read_settings socket env = Some cfg" and "image_ok (storage_image s)"
    and "0 < cfg_heartbeat_interval cfg" and "cfg_heartbeat_interval cfg \<le> cfg_election_timeout cfg"
  shows "\<exists>n. start_node (cfg_id cfg) (map fst (cfg_peers cfg)) (cfg_election_timeout cfg)
      (cfg_heartbeat_interval cfg) (cfg_join cfg) s = Some n \<and> nid n = cfg_id cfg \<and> role n = Follower"
  using start_node_settings [OF assms] .

definition sample_env :: environment where
  "sample_env = [''KUROGANE_NODE_ID'' \<mapsto> ''2'', ''KUROGANE_PEERS'' \<mapsto> ''3=c:1,1=a:1,2=b:1'',
     ''KUROGANE_CLIENT_ADDR'' \<mapsto> ''b:2'', ''KUROGANE_STORAGE_PATH'' \<mapsto> ''state'',
     ''KUROGANE_CLUSTER_TOKEN'' \<mapsto> ''token'', ''KUROGANE_ELECTION_TIMEOUT_TICKS'' \<mapsto> ''12'']"

lemma accepted_settings_start_witness:
  "\<exists>cfg n. read_settings (\<lambda>_. True) sample_env = Some cfg \<and> map fst (cfg_peers cfg) = trio \<and>
     start_node (NodeId 2) trio 12 2 False no_storage = Some n \<and> nid n = NodeId 2"
proof -
  have "case read_settings (\<lambda>_. True) sample_env of
      Some cfg \<Rightarrow> map fst (cfg_peers cfg) = trio \<and> cfg_id cfg = NodeId 2 \<and> cfg_election_timeout cfg = 12 \<and>
        cfg_heartbeat_interval cfg = 2 \<and> \<not> cfg_join cfg
    | None \<Rightarrow> False" by code_simp
  then obtain cfg where cfg: "read_settings (\<lambda>_. True) sample_env = Some cfg"
    "map fst (cfg_peers cfg) = trio" "cfg_id cfg = NodeId 2" "cfg_election_timeout cfg = 12"
    "cfg_heartbeat_interval cfg = 2" "\<not> cfg_join cfg"
    by (auto split: option.splits)
  from accepted_settings_start [OF cfg(1) no_storage_ok(1)] cfg show ?thesis by auto
qed

definition timed_requests :: "actor_request list" where
  "timed_requests = replicate 12 (RqTick 15)"

text \<open>C21. A process started from accepted settings is a life of a Raft node: after any requests its node
  is a reachable state of the model's node under the configured id. When the ticks among the
  requests are the timer's, its election timeout always lies between the configured one and twice
  that.\<close>

theorem process_node_is_reachable:
  assumes "start_process cfg s file = Some (a, lo, hi)" and "image_ok (storage_image s)"
    and "run_actor enc valid a rqs = Some (a', replies, published)"
    and "\<forall>k. lo \<le> draw k lo hi \<and> draw k lo hi \<le> hi"
    and "\<forall>t. RqTick t \<in> set rqs \<longrightarrow> RqTick t \<in> set (timer_run draw (\<lambda>rq ch. ch @ [rq]) lo hi k [])"
  shows "node_reachable (rp_node (ac_replica a')) \<and> nid (rp_node (ac_replica a')) = cfg_id cfg \<and>
    cfg_election_timeout cfg \<le> election_timeout (rp_node (ac_replica a')) \<and>
    election_timeout (rp_node (ac_replica a')) \<le> 2 * cfg_election_timeout cfg"
proof -
  have "\<forall>t. RqTick t \<in> set rqs \<longrightarrow> lo \<le> t \<and> t \<le> hi"
    using assms(4,5) timer_requests [of lo draw hi "\<lambda>rq ch. ch @ [rq]" _ k "[]"] by fastforce
  from timed_run_actor [OF assms(1-3) this] started_reachable(4,5) [OF assms(1,2)] show ?thesis by simp
qed

theorem process_node_is_reachable_witness:
  "\<exists>cfg a a' replies published. read_settings (\<lambda>_. True) sample_env = Some cfg \<and>
     start_process cfg no_storage None = Some (a, 12, 24) \<and>
     run_actor term_codec (\<lambda>_. True) a timed_requests = Some (a', replies, published) \<and>
     role (rp_node (ac_replica a')) = Candidate \<and> election_timeout (rp_node (ac_replica a')) = 15 \<and>
     node_reachable (rp_node (ac_replica a')) \<and> nid (rp_node (ac_replica a')) = NodeId 2"
proof -
  have "case read_settings (\<lambda>_. True) sample_env of
      Some cfg \<Rightarrow> cfg_id cfg = NodeId 2 \<and> (case start_process cfg no_storage None of
        Some (a, lo, hi) \<Rightarrow> lo = 12 \<and> hi = 24 \<and> (case run_actor term_codec (\<lambda>_. True) a timed_requests of
          Some (a', _, _) \<Rightarrow> role (rp_node (ac_replica a')) = Candidate \<and>
            election_timeout (rp_node (ac_replica a')) = 15
        | None \<Rightarrow> False)
      | None \<Rightarrow> False)
    | None \<Rightarrow> False" by code_simp
  then obtain cfg a a' replies published where cfg: "read_settings (\<lambda>_. True) sample_env = Some cfg"
    "cfg_id cfg = NodeId 2" and a: "start_process cfg no_storage None = Some (a, 12, 24)"
    and run: "run_actor term_codec (\<lambda>_. True) a timed_requests = Some (a', replies, published)"
    and n: "role (rp_node (ac_replica a')) = Candidate" "election_timeout (rp_node (ac_replica a')) = 15"
    by (auto split: option.splits)
  have "\<forall>t. RqTick t \<in> set timed_requests \<longrightarrow>
      RqTick t \<in> set (timer_run (\<lambda>k lo hi. lo + 3) (\<lambda>rq ch. ch @ [rq]) 12 24 1 [])"
    by (simp add: timed_requests_def ah_tick_def)
  from process_node_is_reachable [OF a no_storage_ok(1) run _ this] cfg a run n show ?thesis by auto
qed

end
