(* ===== verification/Simulation.thy ===== *)
theory Simulation
  imports Raft_Votes Ordered_Map "HOL-Library.Multiset"
begin

text \<open>
  \<^verbatim>\<open>crates/kurogane-sim/src/lib.rs\<close>: the seeded generator on 64-bit words with wrap-around, the
  cluster, and the scheduler that delivers messages and ticks nodes in logical time. \<open>sim_inv\<close> is
  kept by every step: each member satisfies the node invariant, no due message stays behind, and
  what was sent is what was delivered plus what is still under way.
  (\<^verbatim>\<open>DurableState\<close> of the same file is in \<open>Raft_Durable\<close>.)
\<close>

unbundle bit_operations_syntax

section \<open>The generator\<close>

type_synonym rng = "64 word"

definition next_u64 :: "rng \<Rightarrow> 64 word \<times> rng" where
  "next_u64 state =
     (let state' = state + 0x9E3779B97F4A7C15;
          z1 = (state' XOR drop_bit 30 state') * 0xBF58476D1CE4E5B9;
          z2 = (z1 XOR drop_bit 27 z1) * 0x94D049BB133111EB
      in (z2 XOR drop_bit 31 z2, state'))"

definition range_inclusive :: "rng \<Rightarrow> u64 \<Rightarrow> u64 \<Rightarrow> (u64 \<times> rng) option" where
  "range_inclusive rng low high = do {
     let (draw, rng') = next_u64 rng;
     span \<leftarrow> sub64 high low;
     width \<leftarrow> add64 span 1;
     v \<leftarrow> add64 low (unat draw mod width);
     Some (v, rng')
   }"

text \<open>For evaluation the remainder is taken on binary integers.\<close>

lemma range_inclusive_code [code]:
  "range_inclusive rng low high = do {
     let (draw, rng') = next_u64 rng;
     span \<leftarrow> sub64 high low;
     width \<leftarrow> add64 span 1;
     v \<leftarrow> add64 low (nat (uint draw mod int width));
     Some (v, rng')
   }"
proof -
  have "nat (uint draw mod int width) = unat draw mod width" for draw :: "64 word" and width
    by (simp only: nat_mod_distrib [OF uint_ge_0 of_nat_0_le_iff] nat_int unat_eq_nat_uint)
  then show ?thesis by (simp add: range_inclusive_def)
qed

lemma draw_le: "low \<le> high \<Longrightarrow> low + d mod (high - low + 1) \<le> (high :: nat)"
  using mod_less_divisor [of "high - low + 1" d] by linarith

lemma range_inclusive_bounds:
  assumes "range_inclusive rng low high = Some (v, rng')"
  shows "low \<le> v" and "v \<le> high" and "rng' = rng + 0x9E3779B97F4A7C15"
proof -
  obtain draw where d: "next_u64 rng = (draw, rng + 0x9E3779B97F4A7C15)"
    by (simp add: next_u64_def Let_def)
  from assms have "low \<le> high" "v = low + unat draw mod (high - low + 1)"
    "rng' = rng + 0x9E3779B97F4A7C15"
    by (auto simp: range_inclusive_def d run_simps)
  then show "low \<le> v" "v \<le> high" "rng' = rng + 0x9E3779B97F4A7C15"
    using draw_le [of low high "unat draw"] by auto
qed

lemma range_inclusive_total:
  assumes "low \<le> high" and "fits64 (high - low + 1)" and "fits64 high"
  shows "\<exists>r. range_inclusive rng low high = Some r"
proof -
  obtain draw state where d: "next_u64 rng = (draw, state)" by fastforce
  have "fits64 (low + unat draw mod (high - low + 1))"
    using fits64_mono [OF assms(3) draw_le [OF assms(1)]] .
  with assms show ?thesis by (simp add: range_inclusive_def d add64_fits)
qed

section \<open>The cluster\<close>

datatype cluster_error = EmptyCluster | DuplicateNode node_id

type_synonym cluster = "(node_id, node) btree"

fun insert_members :: "cluster \<Rightarrow> node list \<Rightarrow> cluster_error + cluster" where
  "insert_members by_id [] = Inr by_id"
| "insert_members by_id (n # ns) =
     (if map_of by_id (nid n) \<noteq> None then Inl (DuplicateNode (nid n))
      else insert_members (bt_insert (nid n) n by_id) ns)"

definition new_cluster :: "node list \<Rightarrow> cluster_error + cluster" where
  "new_cluster ns = (if ns = [] then Inl EmptyCluster else insert_members [] ns)"

definition cluster_len :: "cluster \<Rightarrow> nat" where
  "cluster_len c = length c"

definition cluster_is_empty :: "cluster \<Rightarrow> bool" where
  "cluster_is_empty c \<longleftrightarrow> c = []"

definition node_ids :: "cluster \<Rightarrow> node_id list" where
  "node_ids c = map fst c"

definition replace_node :: "cluster \<Rightarrow> node \<Rightarrow> cluster option" where
  "replace_node c n = (if map_of c (nid n) = None then None else Some (bt_insert (nid n) n c))"

section \<open>The simulation\<close>

datatype trace_event =
    TraceTick u64 node_id u64
  | Delivered u64 node_id node_id message
  | Sent u64 node_id node_id message

record simulation =
  sim_cluster :: cluster
  sim_rng :: rng
  sim_clock :: u64
  sim_inbox :: "(u64, (node_id \<times> node_id \<times> message) list) btree"
  min_timeout :: u64
  max_timeout :: u64
  min_delay :: u64
  max_delay :: u64
  sim_trace :: "trace_event list"

definition new_simulation ::
    "cluster \<Rightarrow> 64 word \<Rightarrow> u64 \<Rightarrow> u64 \<Rightarrow> u64 \<Rightarrow> u64 \<Rightarrow> simulation" where
  "new_simulation c seed min_t max_t min_d max_d =
     \<lparr>sim_cluster = c, sim_rng = seed, sim_clock = 0, sim_inbox = [],
      min_timeout = min_t, max_timeout = max_t, min_delay = min_d, max_delay = max_d,
      sim_trace = []\<rparr>"

definition leaders :: "simulation \<Rightarrow> (node_id \<times> u64) list" where
  "leaders sim = List.map_filter
     (\<lambda>(i, n). if role n = Leader then Some (i, current_term n) else None) (sim_cluster sim)"

text \<open>\<^verbatim>\<open>inbox.entry(at).or_default().push(..)\<close>.\<close>

definition inbox_push ::
    "u64 \<Rightarrow> 'm \<Rightarrow> (u64, 'm list) btree \<Rightarrow> (u64, 'm list) btree" where
  "inbox_push at m inbox =
     bt_insert at ((case map_of inbox at of Some ms \<Rightarrow> ms | None \<Rightarrow> []) @ [m]) inbox"

fun apply_effects :: "simulation \<Rightarrow> node_id \<Rightarrow> effect list \<Rightarrow> simulation option" where
  "apply_effects sim sender [] = Some sim"
| "apply_effects sim sender (Send to m # es) = do {
     (delay, rng) \<leftarrow> range_inclusive (sim_rng sim) (min_delay sim) (max_delay sim);
     at \<leftarrow> add64 (sim_clock sim) delay;
     apply_effects
       (sim\<lparr>sim_trace := sim_trace sim @ [Sent (sim_clock sim) sender to m],
            sim_rng := rng,
            sim_inbox := inbox_push at (sender, to, m) (sim_inbox sim)\<rparr>) sender es
   }"
| "apply_effects sim sender (_ # es) = apply_effects sim sender es"

text \<open>One member handles one event; an unknown member panics.\<close>

definition member_step :: "simulation \<Rightarrow> node_id \<Rightarrow> event \<Rightarrow> simulation option" where
  "member_step sim i ev = do {
     n \<leftarrow> map_of (sim_cluster sim) i;
     (n', effects) \<leftarrow> step n ev;
     apply_effects (sim\<lparr>sim_cluster := bt_insert i n' (sim_cluster sim)\<rparr>) i effects
   }"

fun deliver_all :: "simulation \<Rightarrow> (node_id \<times> node_id \<times> message) list \<Rightarrow> simulation option" where
  "deliver_all sim [] = Some sim"
| "deliver_all sim ((sender, to, m) # due) = do {
     sim' \<leftarrow> member_step
       (sim\<lparr>sim_trace := sim_trace sim @ [Delivered (sim_clock sim) sender to m]\<rparr>) to (Step sender m);
     deliver_all sim' due
   }"

fun tick_all :: "simulation \<Rightarrow> node_id list \<Rightarrow> simulation option" where
  "tick_all sim [] = Some sim"
| "tick_all sim (i # ids) = do {
     (next_timeout, rng) \<leftarrow> range_inclusive (sim_rng sim) (min_timeout sim) (max_timeout sim);
     sim' \<leftarrow> member_step
       (sim\<lparr>sim_rng := rng,
            sim_trace := sim_trace sim @ [TraceTick (sim_clock sim) i next_timeout]\<rparr>)
       i (Tick next_timeout);
     tick_all sim' ids
   }"

definition sim_step :: "simulation \<Rightarrow> simulation option" where
  "sim_step sim = do {
     clock \<leftarrow> add64 (sim_clock sim) 1;
     let due = (case map_of (sim_inbox sim) clock of Some ms \<Rightarrow> ms | None \<Rightarrow> []);
     sim' \<leftarrow> deliver_all
       (sim\<lparr>sim_clock := clock, sim_inbox := bt_remove clock (sim_inbox sim)\<rparr>) due;
     tick_all sim' (node_ids (sim_cluster sim'))
   }"

definition sim_add_learner :: "simulation \<Rightarrow> node_id \<Rightarrow> node_id \<Rightarrow> simulation option" where
  "sim_add_learner sim leader i =
     (case map_of (sim_cluster sim) leader of
        None \<Rightarrow> Some sim
      | Some n \<Rightarrow> do {
          (n', effects) \<leftarrow> add_learner n i;
          apply_effects (sim\<lparr>sim_cluster := bt_insert leader n' (sim_cluster sim)\<rparr>) leader effects
        })"

definition sim_propose_config_change ::
    "simulation \<Rightarrow> node_id \<Rightarrow> node_id list \<Rightarrow> (simulation \<times> u64 option) option" where
  "sim_propose_config_change sim leader vs =
     (case map_of (sim_cluster sim) leader of
        None \<Rightarrow> Some (sim, None)
      | Some n \<Rightarrow> do {
          (n', res) \<leftarrow> propose_config_change n vs;
          let sim' = sim\<lparr>sim_cluster := bt_insert leader n' (sim_cluster sim)\<rparr>;
          case res of
            None \<Rightarrow> Some (sim', None)
          | Some (index, effects) \<Rightarrow> do {
              sim'' \<leftarrow> apply_effects sim' leader effects;
              Some (sim'', Some index)
            }
        })"

section \<open>Invariants of a run\<close>

lemma insert_members_outcome:
  "bt_ordered c \<Longrightarrow>
     (case insert_members c ns of
        Inr c' \<Rightarrow> bt_ordered c' \<and> distinct (map nid ns) \<and> nid ` set ns \<inter> fst ` set c = {} \<and>
          map_of c' = map_of c ++ map_of (rev (map (\<lambda>n. (nid n, n)) ns))
      | Inl (DuplicateNode i) \<Rightarrow> i \<in> nid ` set ns \<and> \<not> (distinct (map nid ns) \<and> nid ` set ns \<inter> fst ` set c = {})
      | Inl EmptyCluster \<Rightarrow> False)"
proof (induction ns arbitrary: c)
  case (Cons n ns)
  show ?case
  proof (cases "map_of c (nid n)")
    case None
    with Cons.IH [of "bt_insert (nid n) n c"] Cons.prems show ?thesis
      by (auto simp: map_of_eq_None_iff split: sum.splits cluster_error.splits)
  next
    case (Some m)
    then have "nid n \<in> fst ` set c" by (metis domI dom_map_of_conv_image_fst)
    with Some show ?thesis by auto
  qed
qed simp

text \<open>Building a cluster: it succeeds exactly for a non-empty list of nodes with distinct ids, and
  then holds each node under its id, in ascending order; a repeated id is named in the error.\<close>

lemma new_cluster_holds_its_nodes:
  "(case new_cluster ns of
      Inr c \<Rightarrow> ns \<noteq> [] \<and> distinct (map nid ns) \<and> sorted_wrt (<) (node_ids c) \<and>
        cluster_len c = length ns \<and> (\<forall>i n. map_of c i = Some n \<longleftrightarrow> n \<in> set ns \<and> nid n = i)
    | Inl EmptyCluster \<Rightarrow> ns = []
    | Inl (DuplicateNode i) \<Rightarrow> \<not> distinct (map nid ns) \<and> i \<in> nid ` set ns)"
proof (cases "ns = []")
  case False
  show ?thesis
  proof (cases "insert_members [] ns")
    case (Inl e)
    with insert_members_outcome [of "[]" ns] False show ?thesis
      by (auto simp: new_cluster_def split: cluster_error.splits)
  next
    case (Inr c)
    with insert_members_outcome [of "[]" ns] have c: "bt_ordered c" "distinct (map nid ns)"
      "map_of c = map_of (rev (map (\<lambda>n. (nid n, n)) ns))" by auto
    have d: "distinct (map fst (rev (map (\<lambda>n. (nid n, n)) ns)))"
      using c(2) by (simp add: comp_def flip: rev_map)
    have look: "map_of c i = Some n \<longleftrightarrow> n \<in> set ns \<and> nid n = i" for i n
      unfolding c(3) map_of_eq_Some_iff [OF d] by auto
    have "fst ` set c = nid ` set ns"
      using look by (simp add: dom_map_of_conv_image_fst [symmetric]) (auto simp: dom_def)
    then have "length c = length ns"
      using distinct_card [OF bt_ordered_distinct [OF c(1)]] distinct_card [OF c(2)] by simp
    with False Inr c look show ?thesis
      by (simp add: new_cluster_def cluster_len_def node_ids_def bt_ordered_def)
  qed
qed (simp add: new_cluster_def)

definition members_ok :: "cluster \<Rightarrow> bool" where
  "members_ok c \<longleftrightarrow> bt_ordered c \<and> (\<forall>(i, n) \<in> set c. nid n = i \<and> node_inv n)"

definition inbox_messages :: "(u64, 'm list) btree \<Rightarrow> 'm multiset" where
  "inbox_messages inbox = \<Sum>\<^sub># (mset (map (mset \<circ> snd) inbox))"


lemma inbox_messages_simps [simp]:
  "inbox_messages [] = {#}"
  "inbox_messages ((k, ms) # m) = mset ms + inbox_messages m"
  by (simp_all add: inbox_messages_def)

lemma inbox_messages_insert:
  "bt_ordered m \<Longrightarrow> inbox_messages (bt_insert k ms m) +
     mset (case map_of m k of Some old \<Rightarrow> old | None \<Rightarrow> []) = inbox_messages m + mset ms"
proof (induction k ms m rule: bt_insert.induct)
  case (2 k v a b m)
  have "k < a \<Longrightarrow> map_of m k = None" using 2(2) by (intro map_of_above) auto
  with 2 show ?case by (auto simp: add_ac split: option.split)
qed simp

lemma inbox_messages_push:
  "bt_ordered m \<Longrightarrow> inbox_messages (inbox_push k x m) = add_mset x (inbox_messages m)"
  using inbox_messages_insert [of m k "(case map_of m k of Some ms \<Rightarrow> ms | None \<Rightarrow> []) @ [x]"]
  by (simp add: inbox_push_def)

lemma inbox_messages_remove:
  "bt_ordered m \<Longrightarrow> inbox_messages m =
     mset (case map_of m k of Some ms \<Rightarrow> ms | None \<Rightarrow> []) + inbox_messages (bt_remove k m)"
proof (induction m)
  case (Cons kv m)
  obtain a b where kv: "kv = (a, b)" by fastforce
  show ?case
  proof (cases "a = k")
    case True
    then have "bt_remove k m = m"
      using Cons.prems by (auto simp: kv bt_remove_def filter_id_conv)
    with True show ?thesis by (simp add: kv bt_remove_def)
  next
    case False
    with Cons.IH Cons.prems show ?thesis by (simp add: kv bt_remove_def)
  qed
qed (simp add: bt_remove_def)

text \<open>Nothing is lost and nothing is invented: what was sent is what was delivered and what is
  still under way.\<close>

fun sent_of :: "trace_event \<Rightarrow> (node_id \<times> node_id \<times> message) option" where
  "sent_of (Sent _ sender to m) = Some (sender, to, m)"
| "sent_of _ = None"

fun delivered_of :: "trace_event \<Rightarrow> (node_id \<times> node_id \<times> message) option" where
  "delivered_of (Delivered _ sender to m) = Some (sender, to, m)"
| "delivered_of _ = None"

definition all_sent :: "trace_event list \<Rightarrow> (node_id \<times> node_id \<times> message) multiset" where
  "all_sent tr = mset (List.map_filter sent_of tr)"

definition all_delivered :: "trace_event list \<Rightarrow> (node_id \<times> node_id \<times> message) multiset" where
  "all_delivered tr = mset (List.map_filter delivered_of tr)"

lemma all_sent_simps [simp]:
  "all_sent [] = {#}" "all_sent (tr @ [Sent t f g m]) = add_mset (f, g, m) (all_sent tr)"
  "all_sent (tr @ [Delivered t f g m]) = all_sent tr" "all_sent (tr @ [TraceTick t i k]) = all_sent tr"
  by (simp_all add: all_sent_def List.map_filter_def)

lemma all_delivered_simps [simp]:
  "all_delivered [] = {#}" "all_delivered (tr @ [Sent t f g m]) = all_delivered tr"
  "all_delivered (tr @ [Delivered t f g m]) = add_mset (f, g, m) (all_delivered tr)"
  "all_delivered (tr @ [TraceTick t i k]) = all_delivered tr"
  by (simp_all add: all_delivered_def List.map_filter_def)

text \<open>The invariant, with the messages taken out of the inbox and not yet handled.\<close>

definition sim_inv :: "simulation \<Rightarrow> (node_id \<times> node_id \<times> message) multiset \<Rightarrow> bool" where
  "sim_inv sim due \<longleftrightarrow> members_ok (sim_cluster sim) \<and> bt_ordered (sim_inbox sim) \<and>
     (0 < min_delay sim \<longrightarrow> (\<forall>at \<in> fst ` set (sim_inbox sim). sim_clock sim < at)) \<and>
     all_sent (sim_trace sim) = all_delivered (sim_trace sim) + due + inbox_messages (sim_inbox sim)"

lemma keys_inbox_push [simp]: "fst ` set (inbox_push at x m) = insert at (fst ` set m)"
  by (simp add: inbox_push_def)

lemma ordered_inbox_push [simp]: "bt_ordered m \<Longrightarrow> bt_ordered (inbox_push at x m)"
  by (simp add: inbox_push_def)

definition sim_frame :: "simulation \<Rightarrow> simulation \<Rightarrow> bool" where
  "sim_frame sim sim' \<longleftrightarrow> sim_clock sim' = sim_clock sim \<and>
     min_delay sim' = min_delay sim \<and> max_delay sim' = max_delay sim \<and>
     min_timeout sim' = min_timeout sim \<and> max_timeout sim' = max_timeout sim \<and>
     node_ids (sim_cluster sim') = node_ids (sim_cluster sim)"

lemma apply_effects_inv:
  assumes "apply_effects sim sender es = Some sim'" and "sim_inv sim due"
  shows "sim_inv sim' due" and "sim_frame sim sim'" and "sim_cluster sim' = sim_cluster sim"
proof -
  have "sim_inv sim' due \<and> sim_frame sim sim' \<and> sim_cluster sim' = sim_cluster sim"
    using assms
  proof (induction sim sender es rule: apply_effects.induct)
    case (2 sim sender to m es)
    then obtain delay rng where d: "range_inclusive (sim_rng sim) (min_delay sim) (max_delay sim) = Some (delay, rng)"
      and rec: "apply_effects
       (sim\<lparr>sim_trace := sim_trace sim @ [Sent (sim_clock sim) sender to m],
            sim_rng := rng,
            sim_inbox := inbox_push (sim_clock sim + delay) (sender, to, m) (sim_inbox sim)\<rparr>) sender es = Some sim'"
      and f: "add64 (sim_clock sim) delay = Some (sim_clock sim + delay)"
      by (auto simp: bind_eq_Some_conv u64_simps)
    have "sim_inv (sim\<lparr>sim_trace := sim_trace sim @ [Sent (sim_clock sim) sender to m],
            sim_rng := rng,
            sim_inbox := inbox_push (sim_clock sim + delay) (sender, to, m) (sim_inbox sim)\<rparr>) due"
      using 2(3) range_inclusive_bounds(1) [OF d]
      by (auto simp: sim_inv_def inbox_messages_push)
    from 2(1) [OF d refl f rec this] show ?case by (simp add: sim_frame_def)
  qed (auto simp: sim_frame_def)
  then show "sim_inv sim' due" "sim_frame sim sim'" "sim_cluster sim' = sim_cluster sim" by auto
qed

lemma members_ok_insert:
  assumes "members_ok c" and "node_inv n'" and "nid n' = i"
  shows "members_ok (bt_insert i n' c)"
  using assms set_bt_insert [of i n' c] by (auto simp: members_ok_def)

lemma member_step_inv:
  assumes "member_step sim i ev = Some sim'" and "sim_inv sim due"
  shows "sim_inv sim' due" and "sim_frame sim sim'"
proof -
  from assms(1) obtain n n' es where n: "map_of (sim_cluster sim) i = Some n"
    and st: "step n ev = Some (n', es)"
    and eff: "apply_effects (sim\<lparr>sim_cluster := bt_insert i n' (sim_cluster sim)\<rparr>) i es = Some sim'"
    by (auto simp: member_step_def bind_eq_Some_conv)
  have ok: "members_ok (sim_cluster sim)" using assms(2) by (simp add: sim_inv_def)
  with map_of_SomeD [OF n] have "nid n = i" "node_inv n" by (auto simp: members_ok_def)
  with st have "nid n' = i" "node_inv n'" by (auto dest: nid_step node_inv_step)
  then have inv: "sim_inv (sim\<lparr>sim_cluster := bt_insert i n' (sim_cluster sim)\<rparr>) due"
    using assms(2) members_ok_insert [OF ok] by (simp add: sim_inv_def)
  have "node_ids (bt_insert i n' (sim_cluster sim)) = node_ids (sim_cluster sim)"
    using ok n by (simp add: node_ids_def bt_insert_known members_ok_def)
  with apply_effects_inv [OF eff inv] show "sim_inv sim' due" "sim_frame sim sim'"
    by (auto simp: sim_frame_def)
qed

lemma sim_frame_trans: "sim_frame a b \<Longrightarrow> sim_frame b c \<Longrightarrow> sim_frame a c"
  by (simp add: sim_frame_def)

lemma deliver_all_inv:
  "deliver_all sim due = Some sim' \<Longrightarrow> sim_inv sim (mset due) \<Longrightarrow> sim_inv sim' {#} \<and> sim_frame sim sim'"
proof (induction sim due rule: deliver_all.induct)
  case (2 sim sender to m due)
  then obtain sim1 where s: "member_step
       (sim\<lparr>sim_trace := sim_trace sim @ [Delivered (sim_clock sim) sender to m]\<rparr>) to (Step sender m) = Some sim1"
    and rec: "deliver_all sim1 due = Some sim'"
    by (auto simp: bind_eq_Some_conv)
  have "sim_inv (sim\<lparr>sim_trace := sim_trace sim @ [Delivered (sim_clock sim) sender to m]\<rparr>) (mset due)"
    using 2(3) by (simp add: sim_inv_def)
  note m = member_step_inv [OF s this]
  from m(2) have "sim_frame sim sim1" by (simp add: sim_frame_def)
  with 2(1) [OF s rec m(1)] show ?case by (auto intro: sim_frame_trans)
qed (simp add: sim_frame_def)

lemma tick_all_inv:
  "tick_all sim ids = Some sim' \<Longrightarrow> sim_inv sim {#} \<Longrightarrow> sim_inv sim' {#} \<and> sim_frame sim sim'"
proof (induction sim ids rule: tick_all.induct)
  case (2 sim i ids)
  then obtain t rng sim1 where d: "range_inclusive (sim_rng sim) (min_timeout sim) (max_timeout sim) = Some (t, rng)"
    and s: "member_step (sim\<lparr>sim_rng := rng,
            sim_trace := sim_trace sim @ [TraceTick (sim_clock sim) i t]\<rparr>) i (Tick t) = Some sim1"
    and rec: "tick_all sim1 ids = Some sim'"
    by (auto simp: bind_eq_Some_conv)
  have "sim_inv (sim\<lparr>sim_rng := rng,
      sim_trace := sim_trace sim @ [TraceTick (sim_clock sim) i t]\<rparr>) {#}"
    using 2(3) by (simp add: sim_inv_def)
  note m = member_step_inv [OF s this]
  from m(2) have "sim_frame sim sim1" by (simp add: sim_frame_def)
  with 2(1) [OF d refl s rec m(1)] show ?case by (auto intro: sim_frame_trans)
qed (simp add: sim_frame_def)

lemma sim_step_inv:
  assumes "sim_step sim = Some sim'" and "sim_inv sim {#}"
  shows "sim_inv sim' {#}" and "sim_clock sim' = sim_clock sim + 1"
    and "node_ids (sim_cluster sim') = node_ids (sim_cluster sim)"
proof -
  let ?c = "sim_clock sim + 1"
  let ?due = "case map_of (sim_inbox sim) ?c of Some ms \<Rightarrow> ms | None \<Rightarrow> []"
  let ?s = "sim\<lparr>sim_clock := ?c, sim_inbox := bt_remove ?c (sim_inbox sim)\<rparr>"
  from assms(1) obtain sim1 where d: "deliver_all ?s ?due = Some sim1"
    and t: "tick_all sim1 (node_ids (sim_cluster sim1)) = Some sim'"
    by (auto simp: sim_step_def bind_eq_Some_conv u64_simps Let_def)
  have "\<forall>at \<in> fst ` set (bt_remove ?c (sim_inbox sim)). ?c < at" if "0 < min_delay sim"
  proof
    fix at assume "at \<in> fst ` set (bt_remove ?c (sim_inbox sim))"
    then have "at \<in> fst ` set (sim_inbox sim)" "at \<noteq> ?c" by (auto simp: bt_remove_def)
    with assms(2) that show "?c < at" by (fastforce simp: sim_inv_def)
  qed
  then have "sim_inv ?s (mset ?due)"
    using assms(2) inbox_messages_remove [of "sim_inbox sim" ?c] by (simp add: sim_inv_def)
  with deliver_all_inv [OF d] tick_all_inv [OF t]
  show "sim_inv sim' {#}" "sim_clock sim' = sim_clock sim + 1"
    "node_ids (sim_cluster sim') = node_ids (sim_cluster sim)"
    by (auto simp: sim_frame_def)
qed

section \<open>Runs\<close>

text \<open>The runs of a simulation: steps and the two membership calls, from any start with well-formed
  members.\<close>

inductive sim_run :: "cluster \<Rightarrow> simulation \<Rightarrow> bool" for c where
  start: "members_ok c \<Longrightarrow> sim_run c (new_simulation c seed min_t max_t min_d max_d)"
| tick: "sim_run c sim \<Longrightarrow> sim_step sim = Some sim' \<Longrightarrow> sim_run c sim'"
| learn: "sim_run c sim \<Longrightarrow> sim_add_learner sim leader i = Some sim' \<Longrightarrow> sim_run c sim'"
| reconfigure: "sim_run c sim \<Longrightarrow> sim_propose_config_change sim leader vs = Some (sim', res) \<Longrightarrow> sim_run c sim'"

lemma sim_inv_operation:
  assumes "sim_inv sim due" and "map_of (sim_cluster sim) i = Some n"
    and "run_op n op = Some (n', es)"
  shows "sim_inv (sim\<lparr>sim_cluster := bt_insert i n' (sim_cluster sim)\<rparr>) due"
    and "node_ids (bt_insert i n' (sim_cluster sim)) = node_ids (sim_cluster sim)"
proof -
  have ok: "members_ok (sim_cluster sim)" using assms(1) by (simp add: sim_inv_def)
  with map_of_SomeD [OF assms(2)] have n: "nid n = i" "node_inv n" by (auto simp: members_ok_def)
  with assms(3) have "nid n' = i" "node_inv n'" by (auto dest: nid_run_op node_inv_run_op)
  then show "sim_inv (sim\<lparr>sim_cluster := bt_insert i n' (sim_cluster sim)\<rparr>) due"
    using assms(1) members_ok_insert [OF ok] by (simp add: sim_inv_def)
  show "node_ids (bt_insert i n' (sim_cluster sim)) = node_ids (sim_cluster sim)"
    using ok assms(2) by (simp add: node_ids_def bt_insert_known members_ok_def)
qed

lemma sim_inv_add_learner:
  assumes "sim_add_learner sim leader i = Some sim'" and "sim_inv sim {#}"
  shows "sim_inv sim' {#} \<and> node_ids (sim_cluster sim') = node_ids (sim_cluster sim)"
proof (cases "map_of (sim_cluster sim) leader")
  case (Some n)
  with assms(1) obtain n' es where op: "add_learner n i = Some (n', es)"
    and eff: "apply_effects (sim\<lparr>sim_cluster := bt_insert leader n' (sim_cluster sim)\<rparr>) leader es = Some sim'"
    by (auto simp: sim_add_learner_def bind_eq_Some_conv)
  from op have "run_op n (Op_Add_Learner i) = Some (n', es)" by simp
  note k = sim_inv_operation [OF assms(2) Some this]
  from apply_effects_inv [OF eff k(1)] k(2) show ?thesis by simp
qed (use assms in \<open>simp add: sim_add_learner_def\<close>)

lemma sim_inv_config_change:
  assumes "sim_propose_config_change sim leader vs = Some (sim', res)" and "sim_inv sim {#}"
  shows "sim_inv sim' {#} \<and> node_ids (sim_cluster sim') = node_ids (sim_cluster sim)"
proof (cases "map_of (sim_cluster sim) leader")
  case (Some n)
  with assms(1) obtain n' out where op: "propose_config_change n vs = Some (n', out)"
    and out: "(case out of None \<Rightarrow> Some (sim\<lparr>sim_cluster := bt_insert leader n' (sim_cluster sim)\<rparr>, None)
      | Some (index, effects) \<Rightarrow> do {
          sim'' \<leftarrow> apply_effects (sim\<lparr>sim_cluster := bt_insert leader n' (sim_cluster sim)\<rparr>) leader effects;
          Some (sim'', Some index) }) = Some (sim', res)"
    by (auto simp: sim_propose_config_change_def bind_eq_Some_conv Let_def)
  have "run_op n (Op_Config_Change vs) = Some (n', effects_of out)" using op by simp
  note k = sim_inv_operation [OF assms(2) Some this]
  show ?thesis
  proof (cases out)
    case None
    with out k show ?thesis by auto
  next
    case (Some ies)
    then obtain index es where ies: "out = Some (index, es)" by (cases ies) auto
    with out have "apply_effects (sim\<lparr>sim_cluster := bt_insert leader n' (sim_cluster sim)\<rparr>) leader es = Some sim'"
      by (auto simp: bind_eq_Some_conv)
    from apply_effects_inv [OF this k(1)] k(2) show ?thesis by simp
  qed
qed (use assms in \<open>simp add: sim_propose_config_change_def\<close>)

lemma sim_run_inv: "sim_run c sim \<Longrightarrow> sim_inv sim {#} \<and> node_ids (sim_cluster sim) = node_ids c"
proof (induction rule: sim_run.induct)
  case (start seed min_t max_t min_d max_d)
  then show ?case by (simp add: new_simulation_def sim_inv_def)
next
  case (tick sim sim')
  then show ?case using sim_step_inv by metis
qed (use sim_inv_add_learner sim_inv_config_change in metis)+

end
