(* ===== verification/Linearizability.thy ===== *)
theory Linearizability
  imports Kv_Replica
begin

text \<open>
  The checker of \<^verbatim>\<open>crates/kurogane-verify/src/lib.rs\<close>: \<^verbatim>\<open>is_linearizable\<close> and its memoized
  backtracking \<^verbatim>\<open>search\<close> over a 128-bit mask of remaining operations. \<open>linearizable\<close> is the
  specification. For every hash function the checker returns on at most 128 operations, panics on
  more, and its positive verdict is right; a negative one is right when the hash function (a
  parameter: the standard library does not specify its algorithm) has no collision among states that
  the search visits with the same operations remaining. A history without concurrency has no such pair
  (\<open>sequential_collision_free\<close>).
\<close>

unbundle bit_operations_syntax

section \<open>Histories\<close>

datatype client_id = ClientId u64

datatype outcome = Applied apply_result | Rejected | Indeterminate

record history_entry =
  he_client :: client_id
  invoke_tick :: u64
  return_tick :: "u64 option"
  he_command :: command
  he_outcome :: outcome

record op =
  op_invoke :: u64
  op_finish :: "u64 option"
  op_command :: command
  op_expected :: "apply_result option"
  op_optional :: bool

definition op_of :: "history_entry \<Rightarrow> op option" where
  "op_of entry = (case he_outcome entry of
     Rejected \<Rightarrow> None
   | Applied result \<Rightarrow> Some \<lparr>op_invoke = invoke_tick entry, op_finish = return_tick entry,
       op_command = he_command entry, op_expected = Some result, op_optional = False\<rparr>
   | Indeterminate \<Rightarrow> Some \<lparr>op_invoke = invoke_tick entry, op_finish = None,
       op_command = he_command entry, op_expected = None, op_optional = True\<rparr>)"

definition precedes :: "op \<Rightarrow> op \<Rightarrow> bool" where
  "precedes a b = (if op_optional a then False
     else case op_finish a of Some finish \<Rightarrow> finish \<le> op_invoke b | None \<Rightarrow> False)"

section \<open>The search\<close>

type_synonym mask = "128 word"
type_synonym failures = "(64 word \<times> mask) set"

definition bit_mask :: "nat \<Rightarrow> mask" where
  "bit_mask i = push_bit i 1"

definition blocked :: "op list \<Rightarrow> mask \<Rightarrow> nat \<Rightarrow> bool" where
  "blocked ops remaining i \<longleftrightarrow>
     (\<exists>j \<in> set [0..<length ops]. j \<noteq> i \<and> remaining AND bit_mask j \<noteq> 0 \<and> precedes (ops ! j) (ops ! i))"

definition matches_expected :: "op \<Rightarrow> apply_result \<Rightarrow> bool" where
  "matches_expected op result = (case op_expected op of Some expected \<Rightarrow> result = expected | None \<Rightarrow> True)"

lemma mask_test: "(remaining AND bit_mask i \<noteq> 0) = (i < 128 \<and> bit remaining i)"
  by (auto simp: bit_mask_def bit_eq_iff [of "_ AND _" "0 :: mask"] bit_simps)

lemma mask_clear_less:
  assumes "remaining AND bit_mask i \<noteq> 0"
  shows "unat (remaining AND NOT (bit_mask i)) < unat remaining"
proof -
  have "bit remaining i" "i < 128" using assms by (auto simp: mask_test)
  moreover have "\<not> bit (remaining AND NOT (bit_mask i)) i"
    using \<open>i < 128\<close> by (simp add: bit_mask_def bit_simps)
  ultimately have "remaining AND NOT (bit_mask i) \<noteq> remaining" by metis
  moreover have "remaining AND NOT (bit_mask i) \<le> remaining" by (rule word_and_le2)
  ultimately have "remaining AND NOT (bit_mask i) < remaining" by simp
  then show ?thesis by (simp add: word_less_nat_alt)
qed

function search ::
    "(state_machine \<Rightarrow> 64 word) \<Rightarrow> op list \<Rightarrow> mask \<Rightarrow> state_machine \<Rightarrow> failures \<Rightarrow>
     (bool \<times> failures) option"
  and try_ops ::
    "(state_machine \<Rightarrow> 64 word) \<Rightarrow> op list \<Rightarrow> nat \<Rightarrow> mask \<Rightarrow> state_machine \<Rightarrow> failures \<Rightarrow>
     (bool \<times> failures) option" where
  "search hash_model ops remaining model failed =
     (if remaining = 0 then Some (True, failed)
      else if (hash_model model, remaining) \<in> failed then Some (False, failed)
      else try_ops hash_model ops 0 remaining model failed)"
| "try_ops hash_model ops i remaining model failed =
     (if length ops \<le> i then Some (False, insert (hash_model model, remaining) failed)
      else if remaining AND bit_mask i = 0 \<or> blocked ops remaining i
        then try_ops hash_model ops (i + 1) remaining model failed
      else do {
        let next_remaining = remaining AND NOT (bit_mask i);
        (found, failed1) \<leftarrow>
          (if op_optional (ops ! i) then search hash_model ops next_remaining model failed
           else Some (False, failed));
        if found then Some (True, failed1)
        else do {
          (next_model, result) \<leftarrow> apply_command model (op_command (ops ! i));
          (found2, failed2) \<leftarrow>
            (if matches_expected (ops ! i) result
             then search hash_model ops next_remaining next_model failed1
             else Some (False, failed1));
          if found2 then Some (True, failed2)
          else try_ops hash_model ops (i + 1) remaining model failed2
        }
      })"
  by pat_completeness auto
termination
  by (relation "measures [\<lambda>x. case x of Inl (_, _, r, _, _) \<Rightarrow> unat r | Inr (_, _, _, r, _, _) \<Rightarrow> unat r,
      \<lambda>x. case x of Inl (_, ops, _, _, _) \<Rightarrow> length ops + 1 | Inr (_, ops, i, _, _, _) \<Rightarrow> length ops - i]")
     (auto intro: mask_clear_less)

declare search.simps [simp del] try_ops.simps [simp del]

definition is_linearizable :: "(state_machine \<Rightarrow> 64 word) \<Rightarrow> history_entry list \<Rightarrow> bool option" where
  "is_linearizable hash_model history =
     (let ops = List.map_filter op_of history in
      if 128 < length ops then None
      else do {
        let full_mask = (if ops = [] then 0 else if length ops = 128 then - 1
          else push_bit (length ops) 1 - 1);
        (found, _) \<leftarrow> search hash_model ops full_mask new_state_machine {};
        Some found
      })"

section \<open>What the search decides\<close>

text \<open>The remaining operations can be completed from a state: some operation not preceded by
  another remaining one comes next; an ambiguous one may also be left out.\<close>

inductive completable :: "op list \<Rightarrow> mask \<Rightarrow> state_machine \<Rightarrow> bool" for ops where
  finished: "completable ops 0 model"
| leave_out: "i < length ops \<Longrightarrow> remaining AND bit_mask i \<noteq> 0 \<Longrightarrow> \<not> blocked ops remaining i \<Longrightarrow>
     op_optional (ops ! i) \<Longrightarrow> completable ops (remaining AND NOT (bit_mask i)) model \<Longrightarrow>
     completable ops remaining model"
| take_next: "i < length ops \<Longrightarrow> remaining AND bit_mask i \<noteq> 0 \<Longrightarrow> \<not> blocked ops remaining i \<Longrightarrow>
     apply_command model (op_command (ops ! i)) = Some (model', result) \<Longrightarrow>
     matches_expected (ops ! i) result \<Longrightarrow>
     completable ops (remaining AND NOT (bit_mask i)) model' \<Longrightarrow> completable ops remaining model"

definition candidate :: "op list \<Rightarrow> mask \<Rightarrow> nat \<Rightarrow> bool" where
  "candidate ops remaining i \<longleftrightarrow>
     i < length ops \<and> remaining AND bit_mask i \<noteq> 0 \<and> \<not> blocked ops remaining i"

lemma try_ops_cases:
  assumes "try_ops h ops i remaining model failed = Some (b, f')"
  obtains (exhausted) "length ops \<le> i" "\<not> b" "f' = insert (h model, remaining) failed"
  | (passed) "i < length ops" "\<not> candidate ops remaining i"
      "try_ops h ops (i + 1) remaining model failed = Some (b, f')"
  | (left_out) "candidate ops remaining i" "op_optional (ops ! i)" b
      "search h ops (remaining AND NOT (bit_mask i)) model failed = Some (True, f')"
  | (taken) f1 model' result where "candidate ops remaining i" b
      "op_optional (ops ! i) \<Longrightarrow>
        search h ops (remaining AND NOT (bit_mask i)) model failed = Some (False, f1)"
      "\<not> op_optional (ops ! i) \<Longrightarrow> f1 = failed"
      "apply_command model (op_command (ops ! i)) = Some (model', result)"
      "matches_expected (ops ! i) result"
      "search h ops (remaining AND NOT (bit_mask i)) model' f1 = Some (True, f')"
  | (tried) f1 model' result f2 where "candidate ops remaining i"
      "op_optional (ops ! i) \<Longrightarrow>
        search h ops (remaining AND NOT (bit_mask i)) model failed = Some (False, f1)"
      "\<not> op_optional (ops ! i) \<Longrightarrow> f1 = failed"
      "apply_command model (op_command (ops ! i)) = Some (model', result)"
      "matches_expected (ops ! i) result \<Longrightarrow>
        search h ops (remaining AND NOT (bit_mask i)) model' f1 = Some (False, f2)"
      "\<not> matches_expected (ops ! i) result \<Longrightarrow> f2 = f1"
      "try_ops h ops (i + 1) remaining model f2 = Some (b, f')"
proof (cases "candidate ops remaining i")
  case False
  with assms exhausted passed show thesis
    by (subst (asm) try_ops.simps) (auto simp: candidate_def split: if_splits)
next
  case True
  then have c: "\<not> length ops \<le> i" "\<not> (remaining AND bit_mask i = 0 \<or> blocked ops remaining i)"
    by (auto simp: candidate_def)
  let ?next = "remaining AND NOT (bit_mask i)"
  from assms c obtain b1 f1 where
    s1: "(if op_optional (ops ! i) then search h ops ?next model failed
         else Some (False, failed)) = Some (b1, f1)"
    and rest: "(if b1 then Some (True, f1)
      else do {
        (next_model, result) \<leftarrow> apply_command model (op_command (ops ! i));
        (found2, failed2) \<leftarrow>
          (if matches_expected (ops ! i) result
           then search h ops ?next next_model f1
           else Some (False, f1));
        if found2 then Some (True, failed2)
        else try_ops h ops (i + 1) remaining model failed2
      }) = Some (b, f')"
    by (subst (asm) try_ops.simps) (auto simp: Let_def bind_eq_Some_conv)
  show thesis
  proof (cases b1)
    case True
    with s1 rest \<open>candidate ops remaining i\<close> show thesis
      by (intro left_out) (auto split: if_splits)
  next
    case False
    with rest obtain model' result b2 f2 where
      a: "apply_command model (op_command (ops ! i)) = Some (model', result)"
      and s2: "(if matches_expected (ops ! i) result then search h ops ?next model' f1
           else Some (False, f1)) = Some (b2, f2)"
      and fin: "(if b2 then Some (True, f2) else try_ops h ops (i + 1) remaining model f2) = Some (b, f')"
      by (auto simp: bind_eq_Some_conv)
    have s1': "op_optional (ops ! i) \<Longrightarrow> search h ops ?next model failed = Some (False, f1)"
      "\<not> op_optional (ops ! i) \<Longrightarrow> f1 = failed"
      using s1 False by auto
    show thesis
    proof (cases b2)
      case True
      with s2 fin \<open>candidate ops remaining i\<close> s1' a show thesis
        by (intro taken) (auto split: if_splits)
    next
      case False
      have s2': "matches_expected (ops ! i) result \<Longrightarrow> search h ops ?next model' f1 = Some (False, f2)"
        "\<not> matches_expected (ops ! i) result \<Longrightarrow> f2 = f1"
        using s2 False by auto
      have "try_ops h ops (i + 1) remaining model f2 = Some (b, f')" using fin False by simp
      from tried [OF \<open>candidate ops remaining i\<close> s1' a s2' this] show thesis .
    qed
  qed
qed

lemma candidate_smaller:
  "candidate ops remaining i \<Longrightarrow> unat (remaining AND NOT (bit_mask i)) < unat remaining"
  by (simp add: candidate_def mask_clear_less)

lemma completable_leave_out:
  "candidate ops remaining i \<Longrightarrow> op_optional (ops ! i) \<Longrightarrow>
     completable ops (remaining AND NOT (bit_mask i)) model \<Longrightarrow> completable ops remaining model"
  by (auto simp: candidate_def intro: leave_out)

lemma completable_take:
  "candidate ops remaining i \<Longrightarrow>
     apply_command model (op_command (ops ! i)) = Some (model', result) \<Longrightarrow>
     matches_expected (ops ! i) result \<Longrightarrow>
     completable ops (remaining AND NOT (bit_mask i)) model' \<Longrightarrow> completable ops remaining model"
  by (auto simp: candidate_def intro: take_next)

text \<open>Whatever the hash function, a positive answer comes from an actual completion.\<close>

lemma search_sound:
  "search h ops remaining model failed = Some (True, f') \<Longrightarrow> completable ops remaining model"
proof (induction remaining arbitrary: model failed f' rule: measure_induct_rule [of unat])
  case (less remaining)
  have loop: "completable ops remaining model" if "try_ops h ops i remaining model failed = Some (True, f')" for i failed
    using that
  proof (induction "length ops - i" arbitrary: i failed rule: less_induct)
    case inner: less
    from inner.prems show ?case
    proof (cases rule: try_ops_cases)
      case passed
      then show ?thesis using inner.hyps [of "i + 1"] by simp
    next
      case left_out
      then show ?thesis using less.IH by (blast intro: completable_leave_out dest: candidate_smaller)
    next
      case (taken f1 model' result)
      then show ?thesis using less.IH by (blast intro: completable_take dest: candidate_smaller)
    next
      case (tried f1 model' result f2)
      then show ?thesis using inner.hyps [of "i + 1" f2] by (auto simp: candidate_def)
    qed simp
  qed
  from less.prems show ?case
    by (auto simp: search.simps intro: finished loop split: if_splits)
qed

section \<open>The set of remaining operations\<close>

definition bits :: "mask \<Rightarrow> nat set" where
  "bits w = {i. i < 128 \<and> bit w i}"

lemma mask_test_bits: "remaining AND bit_mask i \<noteq> 0 \<longleftrightarrow> i \<in> bits remaining"
  using mask_test [of remaining i] by (simp add: bits_def)

lemma bits_clear [simp]: "bits (remaining AND NOT (bit_mask i)) = bits remaining - {i}"
  by (auto simp: bits_def bit_mask_def bit_simps)

lemma finite_bits [simp]: "finite (bits w)"
  by (simp add: bits_def)

lemma bits_0 [simp]: "bits 0 = {}"
  by (simp add: bits_def)

lemma bits_empty: "bits w = {} \<longleftrightarrow> w = 0"
  by (auto simp: bits_def intro!: bit_word_eqI)

lemma bits_full:
  assumes "n \<le> 128"
  shows "bits (if n = 0 then 0 else if n = 128 then - 1 else push_bit n 1 - 1) = {..<n}"
proof -
  have "bits (mask n) = {..<n}" using assms by (auto simp: bits_def bit_simps)
  moreover have "(if n = 0 then 0 else if n = 128 then - 1 else push_bit n 1 - 1) = (mask n :: mask)"
    by (auto simp: mask_eq_exp_minus_1 push_bit_eq_mult)
  ultimately show ?thesis by simp
qed

lemma candidate_bits:
  "candidate ops remaining i \<longleftrightarrow> i < length ops \<and> i \<in> bits remaining \<and> \<not> blocked ops remaining i"
  by (simp add: candidate_def mask_test_bits)

lemma blocked_bits: "blocked ops remaining i \<longleftrightarrow>
    (\<exists>j < length ops. j \<noteq> i \<and> j \<in> bits remaining \<and> precedes (ops ! j) (ops ! i))"
  by (auto simp: blocked_def mask_test_bits)

section \<open>Linearizability\<close>

text \<open>A linearization takes every confirmed operation and any of the ambiguous ones, in an order
  that respects real time, and the state machine answers what the clients saw.\<close>

fun answers :: "op list \<Rightarrow> state_machine \<Rightarrow> nat list \<Rightarrow> bool" where
  "answers ops model [] = True"
| "answers ops model (i # order) =
     (case apply_command model (op_command (ops ! i)) of
        None \<Rightarrow> False
      | Some (model', result) \<Rightarrow> matches_expected (ops ! i) result \<and> answers ops model' order)"

definition real_time :: "op list \<Rightarrow> nat list \<Rightarrow> bool" where
  "real_time ops order \<longleftrightarrow> sorted_wrt (\<lambda>i j. \<not> precedes (ops ! j) (ops ! i)) order"

definition linearization :: "op list \<Rightarrow> nat set \<Rightarrow> state_machine \<Rightarrow> nat list \<Rightarrow> bool" where
  "linearization ops available model order \<longleftrightarrow>
     distinct order \<and> set order \<subseteq> available \<and>
     (\<forall>i \<in> available. \<not> op_optional (ops ! i) \<longrightarrow> i \<in> set order) \<and>
     real_time ops order \<and> answers ops model order"

lemma precedes_definite: "precedes a b \<Longrightarrow> \<not> op_optional a"
  by (auto simp: precedes_def split: if_splits)

lemma completable_linearization:
  "completable ops remaining model \<Longrightarrow> bits remaining \<subseteq> {..<length ops} \<Longrightarrow>
     \<exists>order. linearization ops (bits remaining) model order"
proof (induction rule: completable.induct)
  case (finished model)
  show ?case by (rule exI [of _ "[]"]) (simp add: linearization_def real_time_def)
next
  case (leave_out i remaining model)
  then obtain order where o: "linearization ops (bits remaining - {i}) model order" by auto
  with leave_out(4) have "linearization ops (bits remaining) model order"
    by (auto simp: linearization_def)
  then show ?case ..
next
  case (take_next i remaining model model' result)
  then obtain order where o: "linearization ops (bits remaining - {i}) model' order" by auto
  have "\<not> precedes (ops ! j) (ops ! i)" if "j \<in> set order" for j
    using o that take_next.hyps(3) take_next.prems by (auto simp: linearization_def blocked_bits)
  with o take_next have "linearization ops (bits remaining) model (i # order)"
    by (auto simp: linearization_def real_time_def mask_test_bits)
  then show ?case ..
qed

lemma completable_optional:
  "bits remaining \<subseteq> {..<length ops} \<Longrightarrow> \<forall>i \<in> bits remaining. op_optional (ops ! i) \<Longrightarrow>
     completable ops remaining model"
proof (induction remaining rule: measure_induct_rule [of unat])
  case (less remaining)
  show ?case
  proof (cases "bits remaining = {}")
    case True
    then show ?thesis by (simp add: bits_empty finished)
  next
    case False
    then obtain i where i: "i \<in> bits remaining" by blast
    with less.prems have c: "candidate ops remaining i"
      by (auto simp: candidate_bits blocked_bits dest!: precedes_definite)
    have "completable ops (remaining AND NOT (bit_mask i)) model"
      using less.prems by (intro less.IH candidate_smaller [OF c]) auto
    with c i less.prems(2) show ?thesis by (blast intro: completable_leave_out)
  qed
qed

lemma linearization_completable:
  "linearization ops (bits remaining) model order \<Longrightarrow> bits remaining \<subseteq> {..<length ops} \<Longrightarrow>
     completable ops remaining model"
proof (induction order arbitrary: remaining model)
  case Nil
  then show ?case by (intro completable_optional) (auto simp: linearization_def)
next
  case (Cons i order)
  then obtain model' result where a: "apply_command model (op_command (ops ! i)) = Some (model', result)"
    and m: "matches_expected (ops ! i) result" and rest: "answers ops model' order"
    by (auto simp: linearization_def split: option.splits)
  have "linearization ops (bits (remaining AND NOT (bit_mask i))) model' order"
    using Cons.prems(1) rest by (auto simp: linearization_def real_time_def)
  then have "completable ops (remaining AND NOT (bit_mask i)) model'"
    using Cons.prems(2) by (intro Cons.IH) auto
  moreover have "candidate ops remaining i"
    using Cons.prems by (auto simp: candidate_bits blocked_bits linearization_def real_time_def
        dest: precedes_definite)
  ultimately show ?case using a m by (blast intro: completable_take)
qed

section \<open>Negative answers\<close>

text \<open>States reached by at most as many commands as there are operations; their cursors fit.\<close>

fun run_commands :: "state_machine \<Rightarrow> command list \<Rightarrow> state_machine option" where
  "run_commands model [] = Some model"
| "run_commands model (c # cs) = do { (model', _) \<leftarrow> apply_command model c; run_commands model' cs }"

lemma run_commands_snoc:
  "run_commands model (cs @ [c]) = do { model' \<leftarrow> run_commands model cs; (model'', _) \<leftarrow> apply_command model' c; Some model'' }"
proof (induction cs arbitrary: model)
  case (Cons c' cs)
  then show ?case by (cases "apply_command model c'") auto
qed auto

definition models_after :: "op list \<Rightarrow> nat \<Rightarrow> state_machine set" where
  "models_after ops n = {model. \<exists>cs. length cs \<le> n \<and> set cs \<subseteq> op_command ` set ops \<and>
     run_commands new_state_machine cs = Some model}"

lemma models_after_mono: "m \<le> n \<Longrightarrow> models_after ops m \<subseteq> models_after ops n"
  by (auto simp: models_after_def intro: order_trans)

lemma models_after_step:
  assumes "model \<in> models_after ops n" and "i < length ops"
    and "apply_command model (op_command (ops ! i)) = Some (model', result)"
  shows "model' \<in> models_after ops (Suc n)"
proof -
  from assms(1) obtain cs where cs: "length cs \<le> n" "set cs \<subseteq> op_command ` set ops"
    "run_commands new_state_machine cs = Some model" by (auto simp: models_after_def)
  then have "run_commands new_state_machine (cs @ [op_command (ops ! i)]) = Some model'"
    using assms(3) by (simp add: run_commands_snoc)
  with cs assms(2) show ?thesis
    unfolding models_after_def by (intro CollectI exI [of _ "cs @ [op_command (ops ! i)]"]) auto
qed

lemma models_after_last_applied: "model \<in> models_after ops n \<Longrightarrow> last_applied model \<le> n"
proof -
  have "run_commands m cs = Some model \<Longrightarrow> last_applied model = last_applied m + length cs" for m cs
    by (induction cs arbitrary: m) (auto simp: bind_eq_Some_conv apply_command_eq_Some)
  then show "model \<in> models_after ops n \<Longrightarrow> last_applied model \<le> n"
    by (auto simp: models_after_def new_state_machine_def)
qed

text \<open>The budget of a search: commands already applied and operations left.\<close>

definition budget :: "op list \<Rightarrow> mask \<Rightarrow> state_machine \<Rightarrow> bool" where
  "budget ops remaining model \<longleftrightarrow> bits remaining \<subseteq> {..<length ops} \<and>
     model \<in> models_after ops (length ops - card (bits remaining))"

lemma budget_model: "budget ops remaining model \<Longrightarrow> model \<in> models_after ops (length ops)"
  using models_after_mono [of "length ops - card (bits remaining)" "length ops"]
  by (auto simp: budget_def)

lemma card_bits_le: "bits remaining \<subseteq> {..<n} \<Longrightarrow> card (bits remaining) \<le> n"
  using card_mono [of "{..<n}" "bits remaining"] by simp

lemma budget_leave_out:
  assumes "budget ops remaining model" and "candidate ops remaining i"
  shows "budget ops (remaining AND NOT (bit_mask i)) model"
proof -
  have "length ops - card (bits remaining) \<le> length ops - card (bits remaining - {i})"
    by (intro diff_le_mono2 card_mono) auto
  from models_after_mono [OF this, of ops] assms(1) show ?thesis by (auto simp: budget_def)
qed

lemma budget_take:
  assumes "budget ops remaining model" and "candidate ops remaining i"
    and "apply_command model (op_command (ops ! i)) = Some (model', result)"
  shows "budget ops (remaining AND NOT (bit_mask i)) model'"
proof -
  have i: "i < length ops" "i \<in> bits remaining" using assms(2) by (auto simp: candidate_bits)
  have "0 < card (bits remaining)" using i by (auto simp: card_gt_0_iff)
  moreover have "card (bits remaining) \<le> length ops" using assms(1) by (auto simp: budget_def intro: card_bits_le)
  ultimately have "length ops - card (bits (remaining AND NOT (bit_mask i))) =
      Suc (length ops - card (bits remaining))"
    using i(2) by simp
  with models_after_step [OF _ i(1) assms(3)] assms(1) show ?thesis
    unfolding budget_def by auto
qed

text \<open>What the search visits: it starts from the fresh state with every operation remaining, and an
  unblocked operation is left out or answers as expected.\<close>

inductive visited :: "op list \<Rightarrow> mask \<Rightarrow> state_machine \<Rightarrow> bool" for ops where
  starts: "bits remaining = {..<length ops} \<Longrightarrow> visited ops remaining new_state_machine"
| omits: "visited ops remaining model \<Longrightarrow> candidate ops remaining i \<Longrightarrow> op_optional (ops ! i) \<Longrightarrow>
     visited ops (remaining AND NOT (bit_mask i)) model"
| applies: "visited ops remaining model \<Longrightarrow> candidate ops remaining i \<Longrightarrow>
     apply_command model (op_command (ops ! i)) = Some (model', result) \<Longrightarrow> matches_expected (ops ! i) result \<Longrightarrow>
     visited ops (remaining AND NOT (bit_mask i)) model'"

definition collision_free :: "(state_machine \<Rightarrow> 64 word) \<Rightarrow> op list \<Rightarrow> bool" where
  "collision_free h ops \<longleftrightarrow> (\<forall>remaining. inj_on h {model. visited ops remaining model})"

lemma collision_freeD: "collision_free h ops \<Longrightarrow> visited ops remaining m1 \<Longrightarrow> visited ops remaining m2 \<Longrightarrow>
    h m1 = h m2 \<Longrightarrow> m1 = m2"
  by (auto simp: collision_free_def inj_on_def)

definition failures_ok :: "(state_machine \<Rightarrow> 64 word) \<Rightarrow> op list \<Rightarrow> failures \<Rightarrow> bool" where
  "failures_ok h ops failed \<longleftrightarrow>
     (\<forall>remaining model. visited ops remaining model \<longrightarrow> (h model, remaining) \<in> failed \<longrightarrow>
        \<not> completable ops remaining model)"

lemma failures_ok_insert:
  assumes "collision_free h ops" and "visited ops remaining model" and "\<not> completable ops remaining model"
    and "failures_ok h ops failed"
  shows "failures_ok h ops (insert (h model, remaining) failed)"
  unfolding failures_ok_def
proof (intro allI impI)
  fix remaining' model' assume v: "visited ops remaining' model'"
    and "(h model', remaining') \<in> insert (h model, remaining) failed"
  then consider "(h model', remaining') \<in> failed" | "remaining' = remaining" "h model' = h model" by auto
  then show "\<not> completable ops remaining' model'"
  proof cases
    case 1
    with v assms(4) show ?thesis by (simp add: failures_ok_def)
  next
    case 2
    with v collision_freeD [OF assms(1) _ assms(2)] assms(3) show ?thesis by auto
  qed
qed

definition choice_fails :: "op list \<Rightarrow> mask \<Rightarrow> state_machine \<Rightarrow> nat \<Rightarrow> bool" where
  "choice_fails ops remaining model i \<longleftrightarrow>
     (candidate ops remaining i \<longrightarrow>
       (op_optional (ops ! i) \<longrightarrow> \<not> completable ops (remaining AND NOT (bit_mask i)) model) \<and>
       (\<forall>model' result. apply_command model (op_command (ops ! i)) = Some (model', result) \<longrightarrow>
          matches_expected (ops ! i) result \<longrightarrow>
          \<not> completable ops (remaining AND NOT (bit_mask i)) model'))"

lemma not_completable:
  assumes "\<forall>i < length ops. choice_fails ops remaining model i" and "remaining \<noteq> 0"
  shows "\<not> completable ops remaining model"
proof
  assume "completable ops remaining model"
  then show False
    using assms by cases (auto simp: choice_fails_def candidate_def)
qed

lemma search_complete:
  assumes "collision_free h ops"
  shows "search h ops remaining model failed = Some (b, f') \<Longrightarrow> failures_ok h ops failed \<Longrightarrow>
    visited ops remaining model \<Longrightarrow>
    failures_ok h ops f' \<and> (\<not> b \<longrightarrow> \<not> completable ops remaining model)"
proof (induction remaining arbitrary: model failed b f' rule: measure_induct_rule [of unat])
  case (less remaining)
  have loop: "failures_ok h ops f' \<and> (\<not> b \<longrightarrow> \<not> completable ops remaining model)"
    if "try_ops h ops i remaining model failed = Some (b, f')" and "failures_ok h ops failed"
      and "\<forall>k < i. choice_fails ops remaining model k" and "remaining \<noteq> 0" for i failed
    using that
  proof (induction "length ops - i" arbitrary: i failed rule: less_induct)
    case inner: less
    from inner.prems(1) show ?case
    proof (cases rule: try_ops_cases)
      case exhausted
      then have "\<not> completable ops remaining model"
        using inner.prems(3,4) by (intro not_completable) auto
      with exhausted failures_ok_insert [OF assms less.prems(3) _ inner.prems(2)] show ?thesis by simp
    next
      case passed
      then have "choice_fails ops remaining model i" by (simp add: choice_fails_def)
      with passed inner.prems show ?thesis
        by (intro inner.hyps [of "i + 1"]) (auto simp: less_Suc_eq)
    next
      case left_out
      with less.IH [OF candidate_smaller [OF left_out(1)] left_out(4) inner.prems(2)]
        visited.omits [OF less.prems(3) left_out(1,2)] show ?thesis
        by simp
    next
      case (taken f1 model' result)
      note IH = less.IH [OF candidate_smaller [OF taken(1)]]
      have "failures_ok h ops f1"
        using IH [OF taken(3) inner.prems(2) visited.omits [OF less.prems(3) taken(1)]] taken(4) inner.prems(2)
        by blast
      with IH [OF taken(7) _ visited.applies [OF less.prems(3) taken(1,5,6)]] taken(2) show ?thesis by simp
    next
      case (tried f1 model' result f2)
      note IH = less.IH [OF candidate_smaller [OF tried(1)]]
      have f1: "failures_ok h ops f1" "op_optional (ops ! i) \<longrightarrow>
          \<not> completable ops (remaining AND NOT (bit_mask i)) model"
        using IH [OF tried(2) inner.prems(2) visited.omits [OF less.prems(3) tried(1)]] tried(3) inner.prems(2)
        by blast+
      have f2: "failures_ok h ops f2" "matches_expected (ops ! i) result \<longrightarrow>
          \<not> completable ops (remaining AND NOT (bit_mask i)) model'"
        using IH [OF tried(5) f1(1) visited.applies [OF less.prems(3) tried(1,4)]] tried(6) f1(1) by blast+
      have "choice_fails ops remaining model i"
        using f1(2) f2(2) tried(4) by (auto simp: choice_fails_def)
      with tried(1,7) f2(1) inner.prems(3,4) show ?thesis
        by (intro inner.hyps [of "i + 1"]) (auto simp: less_Suc_eq candidate_def)
    qed
  qed
  from less.prems show ?case
    using loop [of 0 failed]
    by (auto simp: search.simps failures_ok_def split: if_splits)
qed

lemma search_total:
  "length ops \<le> 128 \<Longrightarrow> budget ops remaining model \<Longrightarrow>
     \<exists>r. search h ops remaining model failed = Some r"
proof (induction remaining arbitrary: model failed rule: measure_induct_rule [of unat])
  case (less remaining)
  have "fits64 (last_applied model + 1)"
    using models_after_last_applied [OF budget_model [OF less.prems(2)]] less.prems(1)
    by (simp add: fits64_def)
  note applied = apply_command_total [OF this]
  define next_model where "next_model c = model\<lparr>last_applied := last_applied model + 1,
    kv_entries := exec_command (kv_entries model) c\<rparr>" for c
  define result where "result c = result_of (kv_entries model) c" for c
  have a: "apply_command model c = Some (next_model c, result c)" for c
    unfolding next_model_def result_def by (rule applied)
  have loop: "\<exists>r. try_ops h ops i remaining model failed = Some r" for i failed
  proof (induction "length ops - i" arbitrary: i failed rule: less_induct)
    case inner: less
    show ?case
    proof (cases "candidate ops remaining i")
      case False
      then show ?thesis
        using inner [of "i + 1" failed]
        by (subst try_ops.simps) (auto simp: candidate_def)
    next
      case True
      then have c: "\<not> length ops \<le> i" "\<not> (remaining AND bit_mask i = 0 \<or> blocked ops remaining i)"
        by (auto simp: candidate_def)
      let ?next = "remaining AND NOT (bit_mask i)"
      have IH: "\<exists>b f. search h ops ?next m fs = Some (b, f)" if "budget ops ?next m" for m fs
        using less.IH [OF candidate_smaller [OF True] less.prems(1) that] by auto
      note b = budget_leave_out [OF less.prems(2) True] budget_take [OF less.prems(2) True a]
      obtain b1 f1 where 1: "(if op_optional (ops ! i) then search h ops ?next model failed
          else Some (False, failed)) = Some (b1, f1)"
        using IH [OF b(1), of failed] by (cases "op_optional (ops ! i)") auto
      obtain b2 f2 where 2: "(if matches_expected (ops ! i) (result (op_command (ops ! i)))
          then search h ops ?next (next_model (op_command (ops ! i))) f1
          else Some (False, f1)) = Some (b2, f2)"
        using IH [OF b(2), of f1]
        by (cases "matches_expected (ops ! i) (result (op_command (ops ! i)))") auto
      show ?thesis
        using c 1 2 a inner [of "i + 1" f2]
        by (subst try_ops.simps) (simp add: Let_def, blast)
    qed
  qed
  then show ?case by (auto simp: search.simps)
qed

text \<open>The operations of a history and the verdict on it.\<close>

definition ops_of :: "history_entry list \<Rightarrow> op list" where
  "ops_of history = List.map_filter op_of history"

definition linearizable :: "history_entry list \<Rightarrow> bool" where
  "linearizable history \<longleftrightarrow>
     (\<exists>order. linearization (ops_of history) {..<length (ops_of history)} new_state_machine order)"

lemma is_linearizable_search:
  assumes "length (ops_of history) \<le> 128"
  obtains full where "bits full = {..<length (ops_of history)}"
    and "is_linearizable h history = map_option fst (search h (ops_of history) full new_state_machine {})"
    and "budget (ops_of history) full new_state_machine"
proof -
  let ?ops = "ops_of history"
  define full where "full = (if length ?ops = 0 then 0 else if length ?ops = 128 then - 1
    else push_bit (length ?ops) 1 - 1 :: mask)"
  have b: "bits full = {..<length ?ops}"
    using bits_full [OF assms] by (simp add: full_def)
  moreover have "is_linearizable h history = map_option fst (search h ?ops full new_state_machine {})"
    using assms by (cases "search h ?ops full new_state_machine {}")
      (auto simp: is_linearizable_def ops_of_def [symmetric] Let_def full_def)
  moreover have "budget ?ops full new_state_machine"
    by (auto simp: budget_def b models_after_def intro: exI [of _ "[]"])
  ultimately show thesis by (rule that)
qed

lemma is_linearizable_sound:
  assumes "is_linearizable h history = Some True"
  shows "linearizable history"
proof -
  have len: "length (ops_of history) \<le> 128"
    using assms by (auto simp: is_linearizable_def ops_of_def Let_def split: if_splits)
  from len obtain full where full: "bits full = {..<length (ops_of history)}"
    and s: "is_linearizable h history = map_option fst (search h (ops_of history) full new_state_machine {})"
    by (rule is_linearizable_search)
  from assms s obtain f where "search h (ops_of history) full new_state_machine {} = Some (True, f)"
    by auto
  from completable_linearization [OF search_sound [OF this]] full show ?thesis
    by (simp add: linearizable_def)
qed

lemma is_linearizable_total:
  assumes "length (ops_of history) \<le> 128"
  shows "\<exists>verdict. is_linearizable h history = Some verdict"
proof -
  from assms obtain full where s: "is_linearizable h history = map_option fst (search h (ops_of history) full new_state_machine {})"
    and bud: "budget (ops_of history) full new_state_machine"
    by (rule is_linearizable_search)
  from search_total [OF assms bud] s show ?thesis by fastforce
qed

lemma is_linearizable_complete:
  assumes "length (ops_of history) \<le> 128" and "collision_free h (ops_of history)"
  shows "is_linearizable h history = Some (linearizable history)"
proof -
  let ?ops = "ops_of history"
  from assms(1) obtain full where full: "bits full = {..<length ?ops}"
    and s: "is_linearizable h history = map_option fst (search h ?ops full new_state_machine {})"
    and bud: "budget ?ops full new_state_machine"
    by (rule is_linearizable_search)
  from search_total [OF assms(1) bud] obtain b f where
    r: "search h ?ops full new_state_machine {} = Some (b, f)" by fastforce
  from search_complete [OF assms(2) r _ visited.starts [OF full]]
  have "\<not> b \<Longrightarrow> \<not> completable ?ops full new_state_machine"
    by (simp add: failures_ok_def)
  moreover have "b \<Longrightarrow> completable ?ops full new_state_machine"
    using r by (auto intro: search_sound)
  moreover have "completable ?ops full new_state_machine \<longleftrightarrow> linearizable history"
    using completable_linearization [of ?ops full] linearization_completable [of ?ops full] full
    by (auto simp: linearizable_def)
  ultimately show ?thesis using r s by auto
qed

text \<open>When every operation is confirmed and ends before the next begins, the remaining ones fix the state:
  no hash function has a collision that matters.\<close>

lemma sequential_candidate:
  assumes "sorted_wrt precedes ops" and "candidate ops remaining i" and "bits remaining = {k..<length ops}"
  shows "i = k"
proof (rule ccontr)
  assume "i \<noteq> k"
  with assms(2,3) have "k < i" "i < length ops" by (auto simp: candidate_bits)
  with assms have "precedes (ops ! k) (ops ! i)" "k \<in> bits remaining" by (auto simp: sorted_wrt_iff_nth_less)
  with assms(2) \<open>k < i\<close> \<open>i < length ops\<close> show False by (auto simp: candidate_bits blocked_bits)
qed

lemma sequential_visited:
  assumes "sorted_wrt precedes ops" and "\<forall>op \<in> set ops. \<not> op_optional op" and "visited ops remaining model"
  shows "\<exists>k \<le> length ops. bits remaining = {k..<length ops} \<and>
    run_commands new_state_machine (map op_command (take k ops)) = Some model"
  using assms(3)
proof (induction rule: visited.induct)
  case (starts remaining)
  then show ?case by (intro exI [of _ 0] conjI) (simp_all add: lessThan_atLeast0)
next
  case (omits remaining model i)
  then have "ops ! i \<in> set ops" by (simp add: candidate_bits)
  with assms(2) omits.hyps(3) show ?case by blast
next
  case (applies remaining model i model' result)
  then obtain k where k: "k \<le> length ops" "bits remaining = {k..<length ops}"
    and run: "run_commands new_state_machine (map op_command (take k ops)) = Some model" by blast
  have i: "i = k" by (rule sequential_candidate [OF assms(1) applies.hyps(2) k(2)])
  have "k < length ops" using applies.hyps(2) k by (auto simp: candidate_bits)
  then have "map op_command (take (Suc k) ops) = map op_command (take k ops) @ [op_command (ops ! k)]"
    by (simp add: take_Suc_conv_app_nth)
  with run applies.hyps(3) have "run_commands new_state_machine (map op_command (take (Suc k) ops)) = Some model'"
    by (simp add: run_commands_snoc i)
  moreover have "bits (remaining AND NOT (bit_mask i)) = {Suc k..<length ops}" unfolding i bits_clear k(2) by auto
  ultimately show ?case using \<open>k < length ops\<close> by (intro exI [of _ "Suc k"]) simp
qed

lemma sequential_collision_free:
  assumes "sorted_wrt precedes ops" and "\<forall>op \<in> set ops. \<not> op_optional op"
  shows "collision_free h ops"
proof -
  have "m1 = m2" if "visited ops remaining m1" and "visited ops remaining m2" for remaining m1 m2
  proof -
    from sequential_visited [OF assms that(1)] obtain k where k: "k \<le> length ops" "bits remaining = {k..<length ops}"
      "run_commands new_state_machine (map op_command (take k ops)) = Some m1" by blast
    from sequential_visited [OF assms that(2)] obtain l where l: "l \<le> length ops" "bits remaining = {l..<length ops}"
      "run_commands new_state_machine (map op_command (take l ops)) = Some m2" by blast
    have "card {k..<length ops} = card {l..<length ops}" using k(2) l(2) by simp
    with k(1) l(1) have "k = l" by simp
    with k(3) l(3) show ?thesis by simp
  qed
  then show ?thesis by (auto simp: collision_free_def inj_on_def)
qed

end
