(* ===== verification/Harness.thy ===== *)
theory Harness
  imports Simulation Linearizability
begin

text \<open>
  The fault-injecting harness of \<^verbatim>\<open>crates/kurogane-verify/src/lib.rs\<close>: replicas with their
  durable images, partitions, crashes and restarts, client operations with deadlines, and the
  generated runs. \<open>harness_inv\<close> says every live replica is in step with its durable image, so a
  crash at any point between events loses nothing that was acknowledged.
\<close>

unbundle bit_operations_syntax

section \<open>The harness\<close>

datatype fault_kind = Isolated | Healed | Crashed | Restarted

record fault_event =
  fe_tick :: u64
  fe_node :: node_id
  fe_kind :: fault_kind

record pending_op =
  po_client :: client_id
  po_invoke_tick :: u64
  po_target :: node_id
  po_index :: u64
  po_term :: u64
  po_command :: command
  po_deadline :: u64

record harness =
  hn_replicas :: "(node_id, replica) btree"
  hn_durable :: "(node_id, durable_state) btree"
  hn_isolated :: "node_id set"
  hn_peers :: "node_id list"
  hn_election_timeout :: u64
  hn_heartbeat_interval :: u64
  hn_rng :: rng
  hn_clock :: u64
  hn_inbox :: "(u64, (node_id \<times> node_id \<times> message) list) btree"
  hn_min_timeout :: u64
  hn_max_timeout :: u64
  hn_min_delay :: u64
  hn_max_delay :: u64
  apply_timeout_ticks :: u64
  hn_trace :: "trace_event list"
  hn_pending :: "pending_op list"
  hn_history :: "history_entry list"
  hn_faults :: "fault_event list"

fun boot_replicas ::
    "node_id list \<Rightarrow> u64 \<Rightarrow> u64 \<Rightarrow> node_id list \<Rightarrow>
     (node_id, replica) btree \<times> (node_id, durable_state) btree \<Rightarrow>
     ((node_id, replica) btree \<times> (node_id, durable_state) btree) option" where
  "boot_replicas peers timeout heartbeat [] acc = Some acc"
| "boot_replicas peers timeout heartbeat (i # ids) (replicas, durable) = do {
     res \<leftarrow> new_node i peers timeout heartbeat;
     n \<leftarrow> expect res;
     r \<leftarrow> new_replica n;
     boot_replicas peers timeout heartbeat ids
       (bt_insert i r replicas, bt_insert i default_durable_state durable)
   }"

definition new_harness ::
    "node_id list \<Rightarrow> u64 \<Rightarrow> u64 \<Rightarrow> 64 word \<Rightarrow> u64 \<Rightarrow> u64 \<Rightarrow> u64 \<Rightarrow> u64 \<Rightarrow> u64 \<Rightarrow> harness option" where
  "new_harness peers timeout heartbeat seed min_t max_t min_d max_d apply_timeout = do {
     (replicas, durable) \<leftarrow> boot_replicas peers timeout heartbeat peers ([], []);
     Some \<lparr>hn_replicas = replicas, hn_durable = durable, hn_isolated = {}, hn_peers = peers,
       hn_election_timeout = timeout, hn_heartbeat_interval = heartbeat, hn_rng = seed,
       hn_clock = 0, hn_inbox = [], hn_min_timeout = min_t, hn_max_timeout = max_t,
       hn_min_delay = min_d, hn_max_delay = max_d, apply_timeout_ticks = apply_timeout,
       hn_trace = [], hn_pending = [], hn_history = [], hn_faults = []\<rparr>
   }"

definition current_leader :: "harness \<Rightarrow> node_id option" where
  "current_leader h =
     map_option fst (find (\<lambda>(_, r). role (rp_node r) = Leader) (hn_replicas h))"

section \<open>Faults\<close>

definition record_fault :: "harness \<Rightarrow> node_id \<Rightarrow> fault_kind \<Rightarrow> harness" where
  "record_fault h i kind =
     h\<lparr>hn_faults := hn_faults h @ [\<lparr>fe_tick = hn_clock h, fe_node = i, fe_kind = kind\<rparr>]\<rparr>"

definition isolate :: "harness \<Rightarrow> node_id \<Rightarrow> harness" where
  "isolate h i =
     (if i \<in> hn_isolated h then h
      else record_fault (h\<lparr>hn_isolated := insert i (hn_isolated h)\<rparr>) i Isolated)"

definition heal :: "harness \<Rightarrow> node_id \<Rightarrow> harness" where
  "heal h i =
     (if i \<in> hn_isolated h
      then record_fault (h\<lparr>hn_isolated := hn_isolated h - {i}\<rparr>) i Healed else h)"

definition crash :: "harness \<Rightarrow> node_id \<Rightarrow> harness" where
  "crash h i =
     (if map_of (hn_replicas h) i \<noteq> None
      then record_fault (h\<lparr>hn_replicas := bt_remove i (hn_replicas h)\<rparr>) i Crashed else h)"

definition restart :: "harness \<Rightarrow> node_id \<Rightarrow> harness option" where
  "restart h i =
     (if map_of (hn_replicas h) i \<noteq> None \<or> i \<notin> set (hn_peers h) then Some h
      else case map_of (hn_durable h) i of
        None \<Rightarrow> Some h
      | Some d \<Rightarrow> do {
          res \<leftarrow> recover i (hn_peers h) (hn_election_timeout h) (hn_heartbeat_interval h)
            (ds_hard_state d) (ds_log d)
            \<lparr>metadata = ds_snapshot d, snap_data = ds_snapshot_data d,
             snap_config = ds_snapshot_config d\<rparr> (ds_learners d);
          n \<leftarrow> expect res;
          r \<leftarrow> recover_replica n;
          Some (record_fault (h\<lparr>hn_replicas := bt_insert i r (hn_replicas h)\<rparr>) i Restarted)
        })"

section \<open>Effects\<close>

definition persist_effects :: "harness \<Rightarrow> node_id \<Rightarrow> effect list \<Rightarrow> harness option" where
  "persist_effects h sender es =
     (case map_of (hn_durable h) sender of
        None \<Rightarrow> Some h
      | Some d \<Rightarrow> do {
          d' \<leftarrow> durable_apply_all d es;
          Some (h\<lparr>hn_durable := bt_insert sender d' (hn_durable h)\<rparr>)
        })"

fun route_effects :: "harness \<Rightarrow> node_id \<Rightarrow> effect list \<Rightarrow> harness option" where
  "route_effects h sender [] = Some h"
| "route_effects h sender (Send to m # es) =
     (if sender \<in> hn_isolated h \<or> to \<in> hn_isolated h then route_effects h sender es
      else do {
        (delay, rng) \<leftarrow> range_inclusive (hn_rng h) (hn_min_delay h) (hn_max_delay h);
        at \<leftarrow> add64 (hn_clock h) delay;
        route_effects
          (h\<lparr>hn_trace := hn_trace h @ [Sent (hn_clock h) sender to m], hn_rng := rng,
             hn_inbox := inbox_push at (sender, to, m) (hn_inbox h)\<rparr>) sender es
      })"
| "route_effects h sender (_ # es) = route_effects h sender es"

definition harness_apply_effects :: "harness \<Rightarrow> node_id \<Rightarrow> effect list \<Rightarrow> harness option" where
  "harness_apply_effects h sender es = do {
     h' \<leftarrow> persist_effects h sender es;
     route_effects h' sender es
   }"

section \<open>Client operations\<close>

definition reject :: "harness \<Rightarrow> client_id \<Rightarrow> command \<Rightarrow> harness" where
  "reject h client c =
     h\<lparr>hn_history := hn_history h @ [\<lparr>he_client = client, invoke_tick = hn_clock h,
        return_tick = Some (hn_clock h), he_command = c, he_outcome = Rejected\<rparr>]\<rparr>"

definition submit :: "harness \<Rightarrow> client_id \<Rightarrow> node_id \<Rightarrow> command \<Rightarrow> harness option" where
  "submit h client target c =
     (case map_of (hn_replicas h) target of
        None \<Rightarrow> Some (reject h client c)
      | Some r \<Rightarrow> do {
          (r', res) \<leftarrow> replica_propose r c;
          let h1 = h\<lparr>hn_replicas := bt_insert target r' (hn_replicas h)\<rparr>;
          case res of
            None \<Rightarrow> Some (reject h1 client c)
          | Some (index, effects) \<Rightarrow> do {
              found \<leftarrow> entry_at (rp_node r') index;
              e \<leftarrow> found;
              h2 \<leftarrow> harness_apply_effects h1 target effects;
              deadline \<leftarrow> add64 (hn_clock h2) (apply_timeout_ticks h2);
              Some (h2\<lparr>hn_pending := hn_pending h2 @ [\<lparr>po_client = client,
                po_invoke_tick = hn_clock h2, po_target = target, po_index = index,
                po_term = entry_term e, po_command = c, po_deadline = deadline\<rparr>]\<rparr>)
            }
        })"

text \<open>What a waiting client can learn now: the result at its index, if the entry there is still
  the one it proposed.\<close>

definition confirmed :: "harness \<Rightarrow> pending_op \<Rightarrow> apply_result option option" where
  "confirmed h p =
     (case map_of (hn_replicas h) (po_target p) of
        None \<Rightarrow> Some None
      | Some r \<Rightarrow>
          if last_applied (rp_state_machine r) < po_index p then Some None
          else do {
            found \<leftarrow> entry_at (rp_node r) (po_index p);
            Some (case found of
              Some e \<Rightarrow> if entry_term e = po_term p then applied_result r (po_index p) else None
            | None \<Rightarrow> None)
          })"

definition settle :: "pending_op \<Rightarrow> u64 option \<Rightarrow> outcome \<Rightarrow> history_entry" where
  "settle p at result = \<lparr>he_client = po_client p, invoke_tick = po_invoke_tick p, return_tick = at,
     he_command = po_command p, he_outcome = result\<rparr>"

fun resolve_all ::
    "harness \<Rightarrow> pending_op list \<Rightarrow> (history_entry list \<times> pending_op list) option" where
  "resolve_all h [] = Some ([], [])"
| "resolve_all h (p # ps) = do {
     applied \<leftarrow> confirmed h p;
     (done_ops, waiting) \<leftarrow> resolve_all h ps;
     Some (case applied of
       Some result \<Rightarrow> (settle p (Some (hn_clock h)) (Applied result) # done_ops, waiting)
     | None \<Rightarrow>
         if po_deadline p \<le> hn_clock h
         then (settle p (Some (hn_clock h)) Indeterminate # done_ops, waiting)
         else (done_ops, p # waiting))
   }"

definition resolve_pending :: "harness \<Rightarrow> harness option" where
  "resolve_pending h = do {
     (done_ops, waiting) \<leftarrow> resolve_all h (hn_pending h);
     Some (h\<lparr>hn_history := hn_history h @ done_ops, hn_pending := waiting\<rparr>)
   }"

definition finish :: "harness \<Rightarrow> history_entry list" where
  "finish h = hn_history h @ map (\<lambda>p. settle p None Indeterminate) (hn_pending h)"

section \<open>Time\<close>

definition replica_event :: "harness \<Rightarrow> node_id \<Rightarrow> replica \<Rightarrow> event \<Rightarrow> harness option" where
  "replica_event h i r ev = do {
     (r', effects) \<leftarrow> replica_step r ev;
     harness_apply_effects (h\<lparr>hn_replicas := bt_insert i r' (hn_replicas h)\<rparr>) i effects
   }"

fun harness_deliver :: "harness \<Rightarrow> (node_id \<times> node_id \<times> message) list \<Rightarrow> harness option" where
  "harness_deliver h [] = Some h"
| "harness_deliver h ((sender, to, m) # due) =
     (if sender \<in> hn_isolated h \<or> to \<in> hn_isolated h then harness_deliver h due
      else case map_of (hn_replicas h) to of
        None \<Rightarrow> harness_deliver h due
      | Some r \<Rightarrow> do {
          h' \<leftarrow> replica_event
            (h\<lparr>hn_trace := hn_trace h @ [Delivered (hn_clock h) sender to m]\<rparr>) to r (Step sender m);
          harness_deliver h' due
        })"

fun harness_tick :: "harness \<Rightarrow> node_id list \<Rightarrow> harness option" where
  "harness_tick h [] = Some h"
| "harness_tick h (i # ids) = do {
     (next_timeout, rng) \<leftarrow> range_inclusive (hn_rng h) (hn_min_timeout h) (hn_max_timeout h);
     r \<leftarrow> map_of (hn_replicas h) i;
     h' \<leftarrow> replica_event
       (h\<lparr>hn_rng := rng, hn_trace := hn_trace h @ [TraceTick (hn_clock h) i next_timeout]\<rparr>)
       i r (Tick next_timeout);
     harness_tick h' ids
   }"

definition harness_step :: "harness \<Rightarrow> harness option" where
  "harness_step h = do {
     clock \<leftarrow> add64 (hn_clock h) 1;
     let due = (case map_of (hn_inbox h) clock of Some ms \<Rightarrow> ms | None \<Rightarrow> []);
     h1 \<leftarrow> harness_deliver
       (h\<lparr>hn_clock := clock, hn_inbox := bt_remove clock (hn_inbox h)\<rparr>) due;
     h2 \<leftarrow> harness_tick h1 (map fst (hn_replicas h1));
     resolve_pending h2
   }"

section \<open>Generated runs\<close>

record run_config =
  rc_peers :: "node_id list"
  rc_election_timeout :: u64
  rc_heartbeat_interval :: u64
  rc_min_delay :: u64
  rc_max_delay :: u64
  rc_apply_timeout_ticks :: u64
  client_count :: u64
  total_ticks :: u64
  submit_chance_percent :: u64
  fault_chance_percent :: u64

definition to_le_bytes :: "u64 \<Rightarrow> bytes" where
  "to_le_bytes n = map (\<lambda>k. word_of_nat (n div 256 ^ k)) [0..<8]"

definition random_command :: "rng \<Rightarrow> u64 \<Rightarrow> (command \<times> rng) option" where
  "random_command rng unique = do {
     (k, rng1) \<leftarrow> range_inclusive rng 0 2;
     let key = [[97], [98], [99]] ! k;
     (kind, rng2) \<leftarrow> range_inclusive rng1 0 2;
     Some (if kind = 0 then Set key (to_le_bytes unique)
           else if kind = 1 then Get key else Delete key, rng2)
   }"

definition pick_peer :: "rng \<Rightarrow> node_id list \<Rightarrow> (node_id \<times> rng) option" where
  "pick_peer rng peers = do {
     last \<leftarrow> sub64 (length peers) 1;
     (k, rng') \<leftarrow> range_inclusive rng 0 last;
     if k < length peers then Some (peers ! k, rng') else None
   }"

definition inject_random_fault ::
    "harness \<Rightarrow> rng \<Rightarrow> node_id list \<Rightarrow> (harness \<times> rng) option" where
  "inject_random_fault h rng peers = do {
     (target, rng1) \<leftarrow> pick_peer rng peers;
     (kind, rng2) \<leftarrow> range_inclusive rng1 0 3;
     h' \<leftarrow> (if kind = 0 then Some (isolate h target)
            else if kind = 1 then Some (heal h target)
            else if kind = 2 then Some (crash h target)
            else restart h target);
     Some (h', rng2)
   }"

record driver =
  dr_harness :: harness
  dr_rng :: rng
  dr_busy :: "client_id set"
  dr_seen :: nat
  dr_key_counter :: u64

fun drive_clients :: "run_config \<Rightarrow> u64 list \<Rightarrow> driver \<Rightarrow> driver option" where
  "drive_clients config [] d = Some d"
| "drive_clients config (k # ks) d =
     (if ClientId k \<in> dr_busy d then drive_clients config ks d
      else do {
        (chance, rng1) \<leftarrow> range_inclusive (dr_rng d) 0 99;
        if submit_chance_percent config \<le> chance
        then drive_clients config ks (d\<lparr>dr_rng := rng1\<rparr>)
        else do {
          (target, rng2) \<leftarrow> (case current_leader (dr_harness d) of
             Some i \<Rightarrow> Some (i, rng1)
           | None \<Rightarrow> pick_peer rng1 (rc_peers config));
          key_counter \<leftarrow> add64 (dr_key_counter d) 1;
          (c, rng3) \<leftarrow> random_command rng2 key_counter;
          h \<leftarrow> submit (dr_harness d) (ClientId k) target c;
          drive_clients config ks
            (d\<lparr>dr_harness := h, dr_rng := rng3, dr_busy := insert (ClientId k) (dr_busy d),
               dr_key_counter := key_counter\<rparr>)
        }
      })"

definition drive_tick :: "run_config \<Rightarrow> driver \<Rightarrow> driver option" where
  "drive_tick config d = do {
     h \<leftarrow> harness_step (dr_harness d);
     let busy = dr_busy d - he_client ` set (drop (dr_seen d) (hn_history h));
     let seen = length (hn_history h);
     (chance, rng1) \<leftarrow> range_inclusive (dr_rng d) 0 99;
     (h', rng2) \<leftarrow> (if chance < fault_chance_percent config
       then inject_random_fault h rng1 (rc_peers config) else Some (h, rng1));
     drive_clients config [0..<client_count config]
       (d\<lparr>dr_harness := h', dr_rng := rng2, dr_busy := busy, dr_seen := seen\<rparr>)
   }"

fun drive :: "nat \<Rightarrow> run_config \<Rightarrow> driver \<Rightarrow> driver option" where
  "drive 0 config d = Some d"
| "drive (Suc n) config d = do { d' \<leftarrow> drive_tick config d; drive n config d' }"

definition run ::
    "64 word \<Rightarrow> run_config \<Rightarrow> (trace_event list \<times> history_entry list \<times> fault_event list) option" where
  "run seed config = do {
     twice \<leftarrow> add64 (rc_election_timeout config) (rc_election_timeout config);
     h \<leftarrow> new_harness (rc_peers config) (rc_election_timeout config) (rc_heartbeat_interval config)
       seed (rc_election_timeout config) twice
       (rc_min_delay config) (rc_max_delay config) (rc_apply_timeout_ticks config);
     d \<leftarrow> drive (total_ticks config) config
       \<lparr>dr_harness = h, dr_rng = seed XOR 0xD1B54A32D192ED03, dr_busy = {}, dr_seen = 0,
        dr_key_counter = 0\<rparr>;
     let h' = dr_harness d;
     Some (hn_trace h', finish h', hn_faults h')
   }"

section \<open>Live replicas and their images\<close>

definition in_step :: "harness \<Rightarrow> node_id \<Rightarrow> replica \<Rightarrow> bool" where
  "in_step h i r \<longleftrightarrow> nid (rp_node r) = i \<and> node_inv (rp_node r) \<and>
     (\<exists>d. map_of (hn_durable h) i = Some d \<and> persisted d (rp_node r))"

definition harness_inv :: "harness \<Rightarrow> bool" where
  "harness_inv h \<longleftrightarrow> bt_ordered (hn_replicas h) \<and> bt_ordered (hn_durable h) \<and>
     (\<forall>(i, r) \<in> set (hn_replicas h). in_step h i r) \<and>
     (\<forall>(i, d) \<in> set (hn_durable h). image_ok d)"

lemma route_effects_frame:
  "route_effects h sender es = Some h' \<Longrightarrow> hn_replicas h' = hn_replicas h \<and>
     hn_durable h' = hn_durable h \<and> hn_pending h' = hn_pending h \<and> hn_history h' = hn_history h \<and>
     hn_peers h' = hn_peers h \<and> hn_election_timeout h' = hn_election_timeout h \<and>
     hn_heartbeat_interval h' = hn_heartbeat_interval h \<and> hn_clock h' = hn_clock h \<and>
     apply_timeout_ticks h' = apply_timeout_ticks h"
proof (induction h sender es rule: route_effects.induct)
  case (2 h sender to m es)
  then show ?case by (auto simp: bind_eq_Some_conv split: if_splits)
qed auto

text \<open>Carrying out the effects of one operation of one live replica.\<close>

lemma harness_inv_operation:
  assumes inv: "harness_inv h" and r: "map_of (hn_replicas h) i = Some r"
    and op: "run_op (rp_node r) op = Some (rp_node r', es)"
    and eff: "harness_apply_effects (h\<lparr>hn_replicas := bt_insert i r' (hn_replicas h)\<rparr>) i es = Some h'"
  shows "harness_inv h'"
proof -
  have old: "in_step h i r" using inv map_of_SomeD [OF r] by (auto simp: harness_inv_def)
  then obtain d where d: "map_of (hn_durable h) i = Some d" "persisted d (rp_node r)"
    and n: "node_inv (rp_node r)" "nid (rp_node r) = i" by (auto simp: in_step_def)
  from persistsD [OF persists_run_op [OF op n(1)] d(2)] obtain d' where
    d': "durable_apply_all d es = Some d'" "persisted d' (rp_node r')" by blast
  have n': "node_inv (rp_node r')" "nid (rp_node r') = i"
    using node_inv_run_op [OF op n(1)] nid_run_op [OF op n(1)] n(2) by auto
  let ?h = "h\<lparr>hn_replicas := bt_insert i r' (hn_replicas h), hn_durable := bt_insert i d' (hn_durable h)\<rparr>"
  have "route_effects ?h i es = Some h'"
    using eff d(1) d'(1) by (simp add: harness_apply_effects_def persist_effects_def)
  note frame = route_effects_frame [OF this]
  have ord: "bt_ordered (hn_durable h)" "bt_ordered (hn_replicas h)"
    using inv by (simp_all add: harness_inv_def)
  have "in_step ?h j s" if "(j, s) \<in> set (bt_insert i r' (hn_replicas h))" for j s
  proof (cases "(j, s) = (i, r')")
    case True
    then show ?thesis using n' d'(2) ord by (auto simp: in_step_def)
  next
    case False
    have "distinct (map fst (bt_insert i r' (hn_replicas h)))"
      using ord by (intro bt_ordered_distinct) simp
    with that have "map_of (bt_insert i r' (hn_replicas h)) j = Some s" by simp
    with False ord have "j \<noteq> i" "map_of (hn_replicas h) j = Some s" by (auto split: if_splits)
    then have "in_step h j s" using inv map_of_SomeD [of "hn_replicas h" j s] by (auto simp: harness_inv_def)
    with \<open>j \<noteq> i\<close> ord show ?thesis by (auto simp: in_step_def)
  qed
  moreover have "image_ok x" if "(j, x) \<in> set (bt_insert i d' (hn_durable h))" for j x
    using that set_bt_insert [of i d' "hn_durable h"] inv persisted_image_ok [OF d'(2) n'(1)]
    by (auto simp: harness_inv_def)
  ultimately have "harness_inv ?h" using ord by (auto simp: harness_inv_def)
  then show ?thesis using frame by (auto simp: harness_inv_def in_step_def)
qed

lemma harness_inv_update [simp]:
  "harness_inv (h\<lparr>hn_rng := a1\<rparr>) = harness_inv h"
  "harness_inv (h\<lparr>hn_clock := a2\<rparr>) = harness_inv h"
  "harness_inv (h\<lparr>hn_inbox := a3\<rparr>) = harness_inv h"
  "harness_inv (h\<lparr>hn_trace := a4\<rparr>) = harness_inv h"
  "harness_inv (h\<lparr>hn_pending := a5\<rparr>) = harness_inv h"
  "harness_inv (h\<lparr>hn_history := a6\<rparr>) = harness_inv h"
  "harness_inv (h\<lparr>hn_faults := a7\<rparr>) = harness_inv h"
  "harness_inv (h\<lparr>hn_isolated := a8\<rparr>) = harness_inv h"
  by (simp_all add: harness_inv_def in_step_def)

lemma harness_inv_event:
  assumes "replica_event h i r ev = Some h'" and "harness_inv h" and "map_of (hn_replicas h) i = Some r"
  shows "harness_inv h'"
proof -
  from assms(1) obtain r' es where "replica_step r ev = Some (r', es)"
    and "harness_apply_effects (h\<lparr>hn_replicas := bt_insert i r' (hn_replicas h)\<rparr>) i es = Some h'"
    by (auto simp: replica_event_def bind_eq_Some_conv)
  with assms(2,3) show ?thesis by (blast intro: harness_inv_operation replica_step_run_op)
qed

lemma harness_inv_deliver: "harness_deliver h due = Some h' \<Longrightarrow> harness_inv h \<Longrightarrow> harness_inv h'"
proof (induction h due rule: harness_deliver.induct)
  case (2 h sender to m due)
  show ?case
  proof (cases "sender \<in> hn_isolated h \<or> to \<in> hn_isolated h \<or> map_of (hn_replicas h) to = None")
    case True
    with 2 show ?thesis by (auto split: if_splits)
  next
    case False
    then obtain r where r: "map_of (hn_replicas h) to = Some r" by auto
    let ?h = "h\<lparr>hn_trace := hn_trace h @ [Delivered (hn_clock h) sender to m]\<rparr>"
    from False r 2(4) obtain h1 where h1: "replica_event ?h to r (Step sender m) = Some h1"
      and rec: "harness_deliver h1 due = Some h'"
      by (auto simp: bind_eq_Some_conv)
    have "harness_inv h1"
      using harness_inv_event [OF h1] 2(5) r by simp
    with 2(3) [OF _ r h1 rec] False show ?thesis by simp
  qed
qed simp

lemma harness_inv_tick: "harness_tick h ids = Some h' \<Longrightarrow> harness_inv h \<Longrightarrow> harness_inv h'"
proof (induction h ids rule: harness_tick.induct)
  case (2 h i ids)
  then obtain t rng r h1 where d: "range_inclusive (hn_rng h) (hn_min_timeout h) (hn_max_timeout h) = Some (t, rng)"
    and r: "map_of (hn_replicas h) i = Some r"
    and h1: "replica_event (h\<lparr>hn_rng := rng, hn_trace := hn_trace h @ [TraceTick (hn_clock h) i t]\<rparr>)
       i r (Tick t) = Some h1"
    and rec: "harness_tick h1 ids = Some h'"
    by (auto simp: bind_eq_Some_conv)
  have "harness_inv h1"
    using harness_inv_event [OF h1] 2(3) r by simp
  with 2(1) [OF d refl r h1 rec] show ?case by simp
qed simp

lemma harness_inv_step:
  assumes "harness_step h = Some h'" and "harness_inv h"
  shows "harness_inv h'"
proof -
  from assms(1) obtain c due h1 h2 where
    h1: "harness_deliver (h\<lparr>hn_clock := c, hn_inbox := bt_remove c (hn_inbox h)\<rparr>) due = Some h1"
    and h2: "harness_tick h1 (map fst (hn_replicas h1)) = Some h2"
    and p: "resolve_pending h2 = Some h'"
    by (auto simp: harness_step_def bind_eq_Some_conv Let_def)
  have "harness_inv (h\<lparr>hn_clock := c, hn_inbox := bt_remove c (hn_inbox h)\<rparr>)"
    using assms(2) by simp
  with harness_inv_tick [OF h2 harness_inv_deliver [OF h1]] p show ?thesis
    by (auto simp: resolve_pending_def bind_eq_Some_conv)
qed

lemma harness_inv_submit:
  assumes "submit h client target c = Some h'" and "harness_inv h"
  shows "harness_inv h'"
proof (cases "map_of (hn_replicas h) target")
  case None
  with assms show ?thesis by (auto simp: submit_def reject_def)
next
  case (Some r)
  with assms(1) obtain r' res where p: "replica_propose r c = Some (r', res)"
    by (auto simp: submit_def bind_eq_Some_conv)
  have ord: "bt_ordered (hn_replicas h)" using assms(2) by (simp add: harness_inv_def)
  show ?thesis
  proof (cases res)
    case None
    with p have "r' = r"
      by (cases "propose (rp_node r) (encode c)")
         (auto simp: replica_propose_def bind_eq_Some_conv split: option.splits dest!: propose_rejected)
    then have "bt_insert target r' (hn_replicas h) = hn_replicas h"
      using btree_map.insert_same [OF ord Some] by simp
    with None p Some assms show ?thesis by (auto simp: submit_def reject_def)
  next
    case res: (Some ie)
    then obtain index es where ie: "res = Some (index, es)" by (cases ie) auto
    with p Some assms(1) obtain h2 ps where
      h2: "harness_apply_effects (h\<lparr>hn_replicas := bt_insert target r' (hn_replicas h)\<rparr>) target es = Some h2"
      and h': "h' = h2\<lparr>hn_pending := ps\<rparr>"
      by (auto simp: submit_def bind_eq_Some_conv Let_def)
    have "run_op (rp_node r) (Op_Propose (encode c)) = Some (rp_node r', es)"
      using replica_propose_run_op [OF p] ie by (simp add: effects_of_def)
    from harness_inv_operation [OF assms(2) Some this h2] h' show ?thesis by simp
  qed
qed

section \<open>Crash and restart\<close>

lemma harness_inv_crash: "harness_inv h \<Longrightarrow> harness_inv (crash h i)"
  by (auto simp: crash_def record_fault_def harness_inv_def in_step_def bt_remove_def)

lemma restart_recover_from:
  "recover i peers timeout heartbeat (ds_hard_state d) (ds_log d)
     \<lparr>metadata = ds_snapshot d, snap_data = ds_snapshot_data d, snap_config = ds_snapshot_config d\<rparr>
     (ds_learners d) = recover_from d i peers timeout heartbeat"
  by (simp add: recover_from_def durable_snapshot_def)

lemma recover_from_nid: "recover_from d i peers timeout heartbeat = Some (Inr m) \<Longrightarrow> nid m = i"
  unfolding recover_from_def by (drule recover_Inr(1)) (simp add: recovered_def Let_def)

lemma harness_inv_restart:
  assumes "restart h i = Some h'" and "harness_inv h"
  shows "harness_inv h'"
proof (cases "map_of (hn_replicas h) i \<noteq> None \<or> i \<notin> set (hn_peers h) \<or> map_of (hn_durable h) i = None")
  case True
  then have "restart h i = Some h" by (auto simp: restart_def)
  with assms show ?thesis by simp
next
  case False
  then obtain d where d: "map_of (hn_durable h) i = Some d" by auto
  with False assms(1) obtain n r where
    n: "recover_from d i (hn_peers h) (hn_election_timeout h) (hn_heartbeat_interval h) = Some (Inr n)"
    and r: "recover_replica n = Some r"
    and h': "h' = record_fault (h\<lparr>hn_replicas := bt_insert i r (hn_replicas h)\<rparr>) i Restarted"
    by (auto simp: restart_def restart_recover_from bind_eq_Some_conv run_simps)
  have "image_ok d" using assms(2) map_of_SomeD [OF d] by (auto simp: harness_inv_def)
  then have inv: "node_inv n" using recover_from_inv [OF n] by (simp add: image_ok_def)
  have "rp_node r = n" by (rule recover_replica_consistent(2) [OF r inv])
  with inv persisted_recover_from [OF n] recover_from_nid [OF n] d have "in_step h i r"
    by (simp add: in_step_def)
  with assms(2) set_bt_insert [of i r "hn_replicas h"] show ?thesis
    by (auto simp: h' record_fault_def harness_inv_def in_step_def)
qed

text \<open>A restart never panics when the snapshot on disk is one that a state machine wrote, in
  particular when there is none.\<close>

lemma restart_total:
  assumes "harness_inv h" and "hn_peers h \<noteq> []" "sorted_wrt (<) (hn_peers h)"
    and "0 < hn_heartbeat_interval h" "hn_heartbeat_interval h \<le> hn_election_timeout h"
    and "\<And>d. map_of (hn_durable h) i = Some d \<Longrightarrow> last_included_index (ds_snapshot d) = 0 \<or>
      (\<exists>kvs. restore_loop (new_reader (ds_snapshot_data d)) [] = Inr kvs)"
  shows "\<exists>h'. restart h i = Some h'"
proof (cases "map_of (hn_replicas h) i \<noteq> None \<or> i \<notin> set (hn_peers h) \<or> map_of (hn_durable h) i = None")
  case False
  then obtain d where d: "map_of (hn_durable h) i = Some d" and i: "i \<in> set (hn_peers h)" by auto
  have "image_ok d" using assms(1) map_of_SomeD [OF d] by (auto simp: harness_inv_def)
  then obtain n where n: "n = recovered i (hn_peers h) (hn_election_timeout h) (hn_heartbeat_interval h)
      (ds_hard_state d) (ds_log d) (durable_snapshot d) (ds_learners d)"
    and rec: "recover_from d i (hn_peers h) (hn_election_timeout h) (hn_heartbeat_interval h) = Some (Inr n)"
    using assms(2-5) i
    by (auto simp: recover_from_def image_ok_def durable_snapshot_def recover_total)
  have "\<exists>r. recover_replica n = Some r"
    using assms(6) [OF d]
    by (auto simp: recover_replica_def n recovered_def durable_snapshot_def Let_def restore_def expect_def)
  with rec d False show ?thesis
    by (auto simp: restart_def restart_recover_from expect_def)
qed (auto simp: restart_def)

section \<open>Every operation of a client is accounted for\<close>

definition calls :: "harness \<Rightarrow> (client_id \<times> u64 \<times> command) multiset" where
  "calls h = mset (map (\<lambda>e. (he_client e, invoke_tick e, he_command e)) (hn_history h)) +
     mset (map (\<lambda>p. (po_client p, po_invoke_tick p, po_command p)) (hn_pending h))"

lemma resolve_all_calls:
  "resolve_all h ps = Some (done_ops, waiting) \<Longrightarrow>
     mset (map (\<lambda>p. (po_client p, po_invoke_tick p, po_command p)) ps) =
       mset (map (\<lambda>e. (he_client e, invoke_tick e, he_command e)) done_ops) +
       mset (map (\<lambda>p. (po_client p, po_invoke_tick p, po_command p)) waiting)"
proof (induction h ps arbitrary: done_ops waiting rule: resolve_all.induct)
  case (2 h p ps)
  then obtain applied d w where "confirmed h p = Some applied" and rec: "resolve_all h ps = Some (d, w)"
    and r: "(done_ops, waiting) = (case applied of
       Some result \<Rightarrow> (settle p (Some (hn_clock h)) (Applied result) # d, w)
     | None \<Rightarrow> if po_deadline p \<le> hn_clock h
         then (settle p (Some (hn_clock h)) Indeterminate # d, w) else (d, p # w))"
    by (auto simp: bind_eq_Some_conv)
  from 2(1) [OF this(1) rec] r show ?case
    by (auto simp: settle_def split: option.splits if_splits)
qed simp

lemma calls_resolve: "resolve_pending h = Some h' \<Longrightarrow> calls h' = calls h"
  by (auto simp: resolve_pending_def bind_eq_Some_conv calls_def dest!: resolve_all_calls)

lemma calls_effects: "harness_apply_effects h i es = Some h' \<Longrightarrow>
    hn_history h' = hn_history h \<and> hn_pending h' = hn_pending h \<and> hn_clock h' = hn_clock h"
  by (auto simp: harness_apply_effects_def persist_effects_def bind_eq_Some_conv
      dest!: route_effects_frame split: option.splits)

lemma calls_event: "replica_event h i r ev = Some h' \<Longrightarrow>
    hn_history h' = hn_history h \<and> hn_pending h' = hn_pending h"
  by (auto simp: replica_event_def bind_eq_Some_conv dest!: calls_effects)

lemma calls_deliver: "harness_deliver h due = Some h' \<Longrightarrow>
    hn_history h' = hn_history h \<and> hn_pending h' = hn_pending h"
proof (induction h due rule: harness_deliver.induct)
  case (2 h sender to m due)
  show ?case
  proof (cases "sender \<in> hn_isolated h \<or> to \<in> hn_isolated h \<or> map_of (hn_replicas h) to = None")
    case True
    with 2 show ?thesis by (auto split: if_splits)
  next
    case False
    then obtain r where r: "map_of (hn_replicas h) to = Some r" by auto
    from False r 2(4) obtain h1 where h1: "replica_event
        (h\<lparr>hn_trace := hn_trace h @ [Delivered (hn_clock h) sender to m]\<rparr>) to r (Step sender m) = Some h1"
      and rec: "harness_deliver h1 due = Some h'"
      by (auto simp: bind_eq_Some_conv)
    with 2(3) [OF _ r h1 rec] False calls_event [OF h1] show ?thesis by simp
  qed
qed simp

lemma calls_tick: "harness_tick h ids = Some h' \<Longrightarrow>
    hn_history h' = hn_history h \<and> hn_pending h' = hn_pending h"
proof (induction h ids rule: harness_tick.induct)
  case (2 h i ids)
  then obtain t rng r h1 where d: "range_inclusive (hn_rng h) (hn_min_timeout h) (hn_max_timeout h) = Some (t, rng)"
    and r: "map_of (hn_replicas h) i = Some r"
    and h1: "replica_event (h\<lparr>hn_rng := rng, hn_trace := hn_trace h @ [TraceTick (hn_clock h) i t]\<rparr>)
       i r (Tick t) = Some h1"
    and rec: "harness_tick h1 ids = Some h'"
    by (auto simp: bind_eq_Some_conv)
  from 2(1) [OF d refl r h1 rec] calls_event [OF h1] show ?case by simp
qed simp

lemma calls_step: "harness_step h = Some h' \<Longrightarrow> calls h' = calls h"
proof -
  assume "harness_step h = Some h'"
  then obtain c due h1 h2 where
    h1: "harness_deliver (h\<lparr>hn_clock := c, hn_inbox := bt_remove c (hn_inbox h)\<rparr>) due = Some h1"
    and h2: "harness_tick h1 (map fst (hn_replicas h1)) = Some h2"
    and p: "resolve_pending h2 = Some h'"
    by (auto simp: harness_step_def bind_eq_Some_conv Let_def)
  from calls_resolve [OF p] calls_deliver [OF h1] calls_tick [OF h2] show ?thesis
    by (simp add: calls_def)
qed

lemma calls_submit:
  "submit h client target c = Some h' \<Longrightarrow> calls h' = add_mset (client, hn_clock h, c) (calls h)"
  by (auto simp: submit_def reject_def bind_eq_Some_conv Let_def calls_def split: option.splits
      dest!: calls_effects)

lemma calls_finish: "mset (map (\<lambda>e. (he_client e, invoke_tick e, he_command e)) (finish h)) = calls h"
  by (simp add: finish_def calls_def settle_def comp_def)

section \<open>Runs\<close>

lemma harness_inv_faults:
  "harness_inv h \<Longrightarrow> harness_inv (isolate h i)" "harness_inv h \<Longrightarrow> harness_inv (heal h i)"
  by (simp_all add: isolate_def heal_def record_fault_def)

lemma harness_inv_boot:
  "boot_replicas peers timeout heartbeat ids (rs, ds) = Some (rs', ds') \<Longrightarrow>
     harness_inv (h\<lparr>hn_replicas := rs, hn_durable := ds\<rparr>) \<Longrightarrow>
     harness_inv (h\<lparr>hn_replicas := rs', hn_durable := ds'\<rparr>)"
proof (induction ids arbitrary: rs ds)
  case (Cons i ids)
  let ?h = "h\<lparr>hn_replicas := rs, hn_durable := ds\<rparr>"
  from Cons.prems(1) obtain n r where n: "new_node i peers timeout heartbeat = Some (Inr n)"
    and r: "new_replica n = Some r"
    and rest: "boot_replicas peers timeout heartbeat ids
      (bt_insert i r rs, bt_insert i default_durable_state ds) = Some (rs', ds')"
    by (auto simp: bind_eq_Some_conv expect_eq_Some)
  have p: "persisted default_durable_state n" "node_inv n"
    using lifecycle_persisted [OF lifecycle.boot [OF n]] by auto
  have "nid n = i" using n by (auto simp: new_node_recover_from dest: recover_from_nid)
  have node: "rp_node r = n" using r p(2) unfolding new_replica_def by (rule recover_replica_consistent(2))
  have ord: "bt_ordered rs" "bt_ordered ds" using Cons.prems(2) by (simp_all add: harness_inv_def)
  let ?h' = "h\<lparr>hn_replicas := bt_insert i r rs, hn_durable := bt_insert i default_durable_state ds\<rparr>"
  have "in_step ?h' j s" if "(j, s) \<in> set (bt_insert i r rs)" for j s
  proof (cases "j = i")
    case True
    have "distinct (map fst (bt_insert i r rs))" using ord by (intro bt_ordered_distinct) simp
    with that True have "map_of (bt_insert i r rs) i = Some s" by simp
    with ord have "s = r" by simp
    with True p node \<open>nid n = i\<close> ord show ?thesis by (simp add: in_step_def)
  next
    case False
    with that set_bt_insert [of i r rs] have "(j, s) \<in> set rs" by auto
    with Cons.prems(2) have "in_step ?h j s" by (auto simp: harness_inv_def)
    with False ord show ?thesis by (simp add: in_step_def)
  qed
  moreover have "image_ok default_durable_state" using persisted_image_ok [OF p] .
  ultimately have "harness_inv ?h'"
    using Cons.prems(2) ord set_bt_insert [of i default_durable_state ds]
    by (auto simp: harness_inv_def)
  from Cons.IH [OF rest this] show ?case .
qed simp

text \<open>The runs of a harness, with the operations submitted so far.\<close>

inductive harness_run ::
    "node_id list \<Rightarrow> (client_id \<times> u64 \<times> command) multiset \<Rightarrow> harness \<Rightarrow> bool" for peers where
  boot: "new_harness peers timeout heartbeat seed min_t max_t min_d max_d apply_timeout = Some h \<Longrightarrow>
     harness_run peers {#} h"
| tick: "harness_run peers ops h \<Longrightarrow> harness_step h = Some h' \<Longrightarrow> harness_run peers ops h'"
| submits: "harness_run peers ops h \<Longrightarrow> submit h client target c = Some h' \<Longrightarrow>
     harness_run peers (add_mset (client, hn_clock h, c) ops) h'"
| isolates: "harness_run peers ops h \<Longrightarrow> harness_run peers ops (isolate h i)"
| heals: "harness_run peers ops h \<Longrightarrow> harness_run peers ops (heal h i)"
| crashes: "harness_run peers ops h \<Longrightarrow> harness_run peers ops (crash h i)"
| restarts: "harness_run peers ops h \<Longrightarrow> restart h i = Some h' \<Longrightarrow> harness_run peers ops h'"

lemma calls_faults [simp]:
  "calls (isolate h i) = calls h" "calls (heal h i) = calls h" "calls (crash h i) = calls h"
  "restart h i = Some h' \<Longrightarrow> calls h' = calls h"
  by (auto simp: calls_def isolate_def heal_def crash_def restart_def record_fault_def
      bind_eq_Some_conv split: if_splits option.splits)

lemma harness_run_inv: "harness_run peers ops h \<Longrightarrow> harness_inv h \<and> calls h = ops"
proof (induction rule: harness_run.induct)
  case (boot timeout heartbeat seed min_t max_t min_d max_d apply_timeout h)
  then obtain rs ds where b: "boot_replicas peers timeout heartbeat peers ([], []) = Some (rs, ds)"
    and h: "h = h\<lparr>hn_replicas := rs, hn_durable := ds\<rparr>" "hn_history h = []" "hn_pending h = []"
    by (auto simp: new_harness_def bind_eq_Some_conv)
  have "harness_inv (h\<lparr>hn_replicas := [], hn_durable := []\<rparr>)" by (simp add: harness_inv_def)
  from harness_inv_boot [OF b this] h show ?case by (simp add: calls_def)
next
  case (tick ops h h')
  then show ?case by (metis harness_inv_step calls_step)
next
  case (submits ops h client target c h')
  then show ?case by (metis harness_inv_submit calls_submit)
next
  case (restarts ops h i h')
  then show ?case by (metis harness_inv_restart calls_faults(4))
qed (simp_all add: harness_inv_faults harness_inv_crash)

end
