(* ===== verification/Seed_File.thy ===== *)
theory Seed_File
  imports Harness Text_Format
begin

text \<open>
  \<^verbatim>\<open>save_seed\<close> and \<^verbatim>\<open>load_seed\<close> of \<^verbatim>\<open>crates/kurogane-verify/src/lib.rs\<close>: the text file that keeps a
  seed and a run configuration. Writing and reading the file itself is left out; its contents are
  a string. A saved run is read back as it was (\<open>load_save_seed\<close>).
\<close>

section \<open>The format\<close>

definition seed_line :: "string \<Rightarrow> string \<Rightarrow> string" where
  "seed_line name value = name @ ''='' @ value @ [newline]"

text \<open>The fields of the file in order, and the contents that \<^verbatim>\<open>save_seed\<close> writes.\<close>

definition saved_fields :: "u64 \<Rightarrow> run_config \<Rightarrow> (string \<times> string) list" where
  "saved_fields seed config =
     [(''seed'', decimal seed),
      (''peers'', join_with '','' (map (\<lambda>i. decimal (node_no i)) (rc_peers config))),
      (''election_timeout'', decimal (rc_election_timeout config)),
      (''heartbeat_interval'', decimal (rc_heartbeat_interval config)),
      (''min_delay'', decimal (rc_min_delay config)),
      (''max_delay'', decimal (rc_max_delay config)),
      (''apply_timeout_ticks'', decimal (rc_apply_timeout_ticks config)),
      (''client_count'', decimal (client_count config)),
      (''total_ticks'', decimal (total_ticks config)),
      (''submit_chance_percent'', decimal (submit_chance_percent config)),
      (''fault_chance_percent'', decimal (fault_chance_percent config))]"

definition save_seed :: "u64 \<Rightarrow> run_config \<Rightarrow> string" where
  "save_seed seed config = concat (map (\<lambda>(name, v). seed_line name v) (saved_fields seed config))"

text \<open>\<^verbatim>\<open>load_seed\<close> on the contents of the file; a malformed file panics.\<close>

fun read_fields :: "string list \<Rightarrow> (string \<rightharpoonup> string) \<Rightarrow> (string \<rightharpoonup> string) option" where
  "read_fields [] fs = Some fs"
| "read_fields (line # rest) fs = do {
     (key, value) \<leftarrow> split_once CHR ''='' line;
     read_fields rest (fs(key \<mapsto> value))
   }"

fun parse_ids :: "string list \<Rightarrow> node_id list option" where
  "parse_ids [] = Some []"
| "parse_ids (s # ss) = do { v \<leftarrow> parse_u64 s; vs \<leftarrow> parse_ids ss; Some (NodeId v # vs) }"

definition load_seed :: "string \<Rightarrow> (u64 \<times> run_config) option" where
  "load_seed contents = do {
     fs \<leftarrow> read_fields (lines contents) Map.empty;
     let parse = (\<lambda>name. Option.bind (fs name) parse_u64);
     raw_peers \<leftarrow> fs ''peers'';
     peers \<leftarrow> parse_ids (filter (\<lambda>s. s \<noteq> []) (split_on CHR '','' raw_peers));
     seed \<leftarrow> parse ''seed'';
     timeout \<leftarrow> parse ''election_timeout'';
     heartbeat \<leftarrow> parse ''heartbeat_interval'';
     min_d \<leftarrow> parse ''min_delay'';
     max_d \<leftarrow> parse ''max_delay'';
     apply_timeout \<leftarrow> parse ''apply_timeout_ticks'';
     clients \<leftarrow> parse ''client_count'';
     ticks \<leftarrow> parse ''total_ticks'';
     submits \<leftarrow> parse ''submit_chance_percent'';
     faults \<leftarrow> parse ''fault_chance_percent'';
     Some (seed, \<lparr>rc_peers = peers, rc_election_timeout = timeout, rc_heartbeat_interval = heartbeat,
       rc_min_delay = min_d, rc_max_delay = max_d, rc_apply_timeout_ticks = apply_timeout,
       client_count = clients, total_ticks = ticks, submit_chance_percent = submits,
       fault_chance_percent = faults\<rparr>)
   }"

section \<open>Reading back a saved run\<close>

definition config_fits :: "run_config \<Rightarrow> bool" where
  "config_fits c \<longleftrightarrow> list_all (\<lambda>i. fits64 (node_no i)) (rc_peers c) \<and>
     list_all fits64 [rc_election_timeout c, rc_heartbeat_interval c, rc_min_delay c, rc_max_delay c,
       rc_apply_timeout_ticks c, client_count c, total_ticks c, submit_chance_percent c,
       fault_chance_percent c]"

text \<open>A v of one line: it does not end the line, and is not cut by a carriage return.\<close>

definition plain :: "string \<Rightarrow> bool" where
  "plain s \<longleftrightarrow> newline \<notin> set s \<and> CHR 0x0D \<notin> set s"

lemma plain_decimal [simp]: "plain (decimal n)"
  using decimal_plain [of n] by (simp add: plain_def)

lemma set_join: "set (join_with sep ss) \<subseteq> set sep \<union> \<Union> (set ` set ss)"
  by (induction sep ss rule: join_with.induct) auto

lemma plain_ids [simp]: "plain (join_with '','' (map (\<lambda>i. decimal (f i)) ids))"
proof -
  have "c \<notin> set (join_with '','' (map (\<lambda>i. decimal (f i)) ids))"
    if "c \<noteq> CHR '',''" "\<And>n. c \<notin> set (decimal n)" for c
    using set_join [of "'',''" "map (\<lambda>i. decimal (f i)) ids"] that by auto
  then show ?thesis using decimal_plain by (simp add: plain_def)
qed

lemma strip_return_plain: "CHR 0x0D \<notin> set s \<Longrightarrow> strip_return s = s"
  by (auto simp: strip_return_def dest: last_in_set)

lemma lines_saved:
  "\<forall>(name, v) \<in> set kvs. plain name \<and> plain v \<Longrightarrow>
     lines (concat (map (\<lambda>(name, v). seed_line name v) kvs)) = map (\<lambda>(name, v). name @ ''='' @ v) kvs"
proof (induction kvs)
  case (Cons kv kvs)
  obtain name v where kv: "kv = (name, v)" by fastforce
  have "newline \<notin> set (name @ ''='' @ v)" "strip_return (name @ ''='' @ v) = name @ ''='' @ v"
    using Cons.prems by (auto simp: kv plain_def intro!: strip_return_plain)
  with lines_Cons [of "name @ ''='' @ v"] Cons show ?case by (simp add: kv seed_line_def)
qed simp

lemma read_saved:
  "\<forall>(name, v) \<in> set kvs. CHR ''='' \<notin> set name \<Longrightarrow>
     read_fields (map (\<lambda>(name, v). name @ ''='' @ v) kvs) fs = Some (fs ++ map_of (rev kvs))"
  by (induction kvs arbitrary: fs) (auto simp: split_once_append)

lemma parse_ids_decimal:
  "list_all (\<lambda>i. fits64 (node_no i)) ids \<Longrightarrow> parse_ids (map (\<lambda>i. decimal (node_no i)) ids) = Some ids"
  by (induction ids) auto

lemma split_ids:
  "filter (\<lambda>s. s \<noteq> []) (split_on CHR '','' (join_with '','' (map (\<lambda>i. decimal (f i)) ids))) = map (\<lambda>i. decimal (f i)) ids"
proof (cases "ids = []")
  case False
  then show ?thesis
    using split_on_join [of "map (\<lambda>i. decimal (f i)) ids" "CHR '',''"] decimal_plain(1)
    by (simp add: comp_def)
qed simp

lemma saved_fields_plain:
  "\<forall>(name, v) \<in> set (saved_fields seed c). plain name \<and> plain v"
  "\<forall>(name, v) \<in> set (saved_fields seed c). CHR ''='' \<notin> set name"
  by (simp_all add: saved_fields_def) (simp add: plain_def)

lemma load_save_seed:
  assumes "fits64 seed" and "config_fits c"
  shows "load_seed (save_seed seed c) = Some (seed, c)"
proof -
  have "read_fields (lines (save_seed seed c)) Map.empty = Some (map_of (rev (saved_fields seed c)))"
    unfolding save_seed_def lines_saved [OF saved_fields_plain(1)] read_saved [OF saved_fields_plain(2)]
    by simp
  with assms parse_ids_decimal [of "rc_peers c"] show ?thesis
    by (simp add: load_seed_def saved_fields_def split_ids config_fits_def)
qed

end
