(* ===== verification/Verify_Properties.thy ===== *)
theory Verify_Properties
  imports Seed_File Kv_Properties
begin

text \<open>
  The properties of the simulator, the fault-injecting harness and the linearizability checker.
\<close>

section \<open>The simulator\<close>

text \<open>C40. In every run of the simulator the members keep their invariant and their ids, a message is
  delivered once and only if it was sent (what was sent is what was delivered plus what is under
  way), and with a positive minimal delay nothing that was due is left behind.\<close>

theorem simulator_conserves_messages:
  assumes "sim_run c sim"
  shows "all_sent (sim_trace sim) = all_delivered (sim_trace sim) + inbox_messages (sim_inbox sim) \<and>
    node_ids (sim_cluster sim) = node_ids c \<and>
    (\<forall>i n. map_of (sim_cluster sim) i = Some n \<longrightarrow> nid n = i \<and> node_inv n) \<and>
    (0 < min_delay sim \<longrightarrow> (\<forall>at \<in> fst ` set (sim_inbox sim). sim_clock sim < at))"
  using sim_run_inv [OF assms] by (auto simp: sim_inv_def members_ok_def dest!: map_of_SomeD)

definition small_cluster :: cluster where
  "small_cluster = [(NodeId 1, trio_voter (NodeId 1)), (NodeId 2, trio_voter (NodeId 2))]"

lemma trio_voters_inv: "node_inv (trio_voter i)" "nid (trio_voter i) = i"
proof -
  show "node_inv (trio_voter i)" unfolding trio_voter_def
    by (rule node_inv_recovered) (simp add: default_snapshot_def default_metadata_def fits64_def)
  show "nid (trio_voter i) = i" by (simp add: trio_voter_def recovered_def Let_def)
qed

theorem simulator_conserves_messages_witness:
  "\<exists>sim. sim_step (new_simulation small_cluster 7 1 1 1 1) = Some sim \<and>
     size (all_sent (sim_trace sim)) = 4 \<and>
     all_sent (sim_trace sim) = all_delivered (sim_trace sim) + inbox_messages (sim_inbox sim)"
proof -
  let ?sim = "new_simulation small_cluster 7 1 1 1 1"
  have "case sim_step ?sim of Some sim \<Rightarrow> length (List.map_filter sent_of (sim_trace sim)) = 4 | None \<Rightarrow> False"
    by code_simp
  then obtain sim where run: "sim_step ?sim = Some sim"
    and n: "length (List.map_filter sent_of (sim_trace sim)) = 4" by (auto split: option.splits)
  have "members_ok small_cluster"
    by (simp add: members_ok_def small_cluster_def trio_voters_inv)
  from simulator_conserves_messages [OF sim_run.tick [OF sim_run.start [OF this] run]] run n show ?thesis
    by (simp add: all_sent_def)
qed

section \<open>The linearizability checker\<close>

text \<open>C37. A positive verdict of the checker is right, whatever the hash function of its memo table: the
  confirmed operations and some of the ambiguous ones can be ordered so that real time is
  respected and the state machine gives every confirmed operation the result its client saw.\<close>

theorem checker_sound:
  assumes "is_linearizable h history = Some True"
  shows "\<exists>order. linearization (ops_of history) {..<length (ops_of history)} new_state_machine order"
  using is_linearizable_sound [OF assms] unfolding linearizable_def .

text \<open>A hash that tells apart states with different cursors.\<close>

definition applied_hash :: "state_machine \<Rightarrow> 64 word" where
  "applied_hash sm = word_of_nat (last_applied sm)"

text \<open>A write whose answer was lost, then a read that saw it.\<close>

definition lost_write :: "bytes option \<Rightarrow> history_entry list" where
  "lost_write seen =
     [\<lparr>he_client = ClientId 1, invoke_tick = 1, return_tick = None, he_command = set_x, he_outcome = Indeterminate\<rparr>,
      \<lparr>he_client = ClientId 2, invoke_tick = 5, return_tick = Some 6, he_command = get_x,
       he_outcome = Applied (GetResult seen)\<rparr>]"

theorem checker_sound_witness:
  "is_linearizable applied_hash (lost_write (Some [2])) = Some True \<and>
   (\<exists>order. linearization (ops_of (lost_write (Some [2]))) {..<length (ops_of (lost_write (Some [2])))}
      new_state_machine order)"
proof -
  have v: "is_linearizable applied_hash (lost_write (Some [2])) = Some True" by code_simp
  from checker_sound [OF v] v show ?thesis by blast
qed


text \<open>C36. The checker returns for every history of at most 128 operations that are not rejected, whatever the hash
  function of its memo table, and panics on longer ones. Its verdict is exactly linearizability
  when the hash does not confuse two states that the search visits with the same operations
  remaining.\<close>

theorem checker_decides:
  "(is_linearizable h history = None \<longleftrightarrow> 128 < length (ops_of history)) \<and>
   (length (ops_of history) \<le> 128 \<longrightarrow> collision_free h (ops_of history) \<longrightarrow>
      is_linearizable h history = Some (linearizable history))"
proof (intro conjI impI)
  show "is_linearizable h history = None \<longleftrightarrow> 128 < length (ops_of history)"
    using is_linearizable_total [of history h]
    by (cases "length (ops_of history) \<le> 128") (auto simp: is_linearizable_def ops_of_def Let_def)
qed (rule is_linearizable_complete)

text \<open>A write and a later read that misses it; nothing is concurrent, so even a constant hash decides.\<close>

definition missed_write :: "history_entry list" where
  "missed_write = [\<lparr>he_client = ClientId 1, invoke_tick = 1, return_tick = Some 2, he_command = set_x,
       he_outcome = Applied (SetResult None)\<rparr>,
     \<lparr>he_client = ClientId 2, invoke_tick = 3, return_tick = Some 4, he_command = get_x,
       he_outcome = Applied (GetResult None)\<rparr>]"

theorem checker_decides_witness:
  "is_linearizable (\<lambda>_. 0) missed_write = Some False \<and> \<not> linearizable missed_write"
proof -
  have v: "is_linearizable (\<lambda>_. 0) missed_write = Some False" by code_simp
  have ops: "ops_of missed_write = [\<lparr>op_invoke = 1, op_finish = Some 2, op_command = set_x,
      op_expected = Some (SetResult None), op_optional = False\<rparr>,
    \<lparr>op_invoke = 3, op_finish = Some 4, op_command = get_x,
      op_expected = Some (GetResult None), op_optional = False\<rparr>]"
    by (simp add: missed_write_def ops_of_def op_of_def List.map_filter_def)
  have "collision_free (\<lambda>_. 0) (ops_of missed_write)"
    by (rule sequential_collision_free) (simp_all add: ops precedes_def)
  with checker_decides [of "\<lambda>_. 0" missed_write] v ops show ?thesis by simp
qed


section \<open>The fault-injecting harness\<close>

definition small_harness :: "harness option" where
  "small_harness = new_harness trio 2 1 7 2 3 1 1 9"

lemma small_harness_runs: "\<exists>h h1 h2. small_harness = Some h \<and>
    harness_step h = Some h1 \<and> submit (crash h1 (NodeId 3)) (ClientId 1) (NodeId 3) set_x = Some h2 \<and>
    \<not> Option.is_none (map_of (hn_replicas h2) (NodeId 1)) \<and> hn_clock h1 = 1 \<and> hn_peers h2 = trio \<and>
    hn_heartbeat_interval h2 = 1 \<and> hn_election_timeout h2 = 2"
proof -
  have "case small_harness of None \<Rightarrow> False | Some h \<Rightarrow> (case harness_step h of None \<Rightarrow> False | Some h1 \<Rightarrow>
      (case submit (crash h1 (NodeId 3)) (ClientId 1) (NodeId 3) set_x of None \<Rightarrow> False | Some h2 \<Rightarrow>
        \<not> Option.is_none (map_of (hn_replicas h2) (NodeId 1)) \<and> hn_clock h1 = 1 \<and> hn_peers h2 = trio \<and>
        hn_heartbeat_interval h2 = 1 \<and> hn_election_timeout h2 = 2))"
    by code_simp
  then show ?thesis by (auto split: option.splits)
qed

lemma small_harness_run:
  assumes "small_harness = Some h" and "harness_step h = Some h1"
    and "submit (crash h1 i) client target c = Some h2"
  shows "harness_run trio {#(client, hn_clock h1, c)#} h2"
proof -
  have "harness_run trio {#} h" using assms(1) unfolding small_harness_def by (rule harness_run.boot)
  then have "harness_run trio {#} (crash h1 i)" using assms(2) by (blast intro: harness_run.intros)
  from harness_run.submits [OF this assms(3)] show ?thesis
    by (simp add: crash_def record_fault_def split: if_splits)
qed

text \<open>C38. In every run of the harness, with partitions, crashes and restarts of any nodes at any time,
  each live replica is in step with its durable image, so that a crash between two events loses
  nothing.\<close>

theorem harness_keeps_images:
  assumes "harness_run peers submitted h" and "map_of (hn_replicas h) i = Some r"
  shows "nid (rp_node r) = i \<and> node_inv (rp_node r) \<and>
    (\<exists>d. map_of (hn_durable h) i = Some d \<and> persisted d (rp_node r))"
  using harness_run_inv [OF assms(1)] map_of_SomeD [OF assms(2)]
  by (auto simp: harness_inv_def in_step_def)

theorem harness_keeps_images_witness:
  "\<exists>h h1 h2 r d. small_harness = Some h \<and> harness_step h = Some h1 \<and>
     submit (crash h1 (NodeId 3)) (ClientId 1) (NodeId 3) set_x = Some h2 \<and>
     map_of (hn_replicas h2) (NodeId 1) = Some r \<and> map_of (hn_durable h2) (NodeId 1) = Some d \<and>
     persisted d (rp_node r)"
proof -
  obtain h h1 h2 where s: "small_harness = Some h" "harness_step h = Some h1"
    "submit (crash h1 (NodeId 3)) (ClientId 1) (NodeId 3) set_x = Some h2"
    "\<not> Option.is_none (map_of (hn_replicas h2) (NodeId 1))"
    using small_harness_runs by blast
  then obtain r where r: "map_of (hn_replicas h2) (NodeId 1) = Some r" by (auto simp: Option.is_none_def)
  from harness_keeps_images [OF small_harness_run [OF s(1-3)] r] s r show ?thesis by blast
qed

text \<open>C39. The operations that clients submitted are exactly those that the final history reports, as
  a multiset of client, tick and command: none is lost, none is reported twice and none is
  invented, whatever faults occurred.\<close>

theorem history_accounts_for_every_call:
  assumes "harness_run peers submitted h"
  shows "mset (map (\<lambda>e. (he_client e, invoke_tick e, he_command e)) (finish h)) = submitted"
  using harness_run_inv [OF assms] calls_finish by simp

theorem history_accounts_for_every_call_witness:
  "\<exists>h h1 h2. small_harness = Some h \<and> harness_step h = Some h1 \<and>
     submit (crash h1 (NodeId 3)) (ClientId 1) (NodeId 3) set_x = Some h2 \<and>
     mset (map (\<lambda>e. (he_client e, invoke_tick e, he_command e)) (finish h2)) = {#(ClientId 1, 1, set_x)#}"
proof -
  obtain h h1 h2 where s: "small_harness = Some h" "harness_step h = Some h1"
    "submit (crash h1 (NodeId 3)) (ClientId 1) (NodeId 3) set_x = Some h2" "hn_clock h1 = 1"
    using small_harness_runs by blast
  from history_accounts_for_every_call [OF small_harness_run [OF s(1-3)]] s show ?thesis by auto
qed

text \<open>A crashed replica that has compacted nothing can be restarted, and its node comes back with
  the term, vote, log, snapshot and learners it had when it crashed.\<close>

lemma crashed_replica_restarts:
  assumes "harness_run peers submitted h" and "map_of (hn_replicas h) i = Some r"
    and "i \<in> set (hn_peers h)" and "sorted_wrt (<) (hn_peers h)"
    and "0 < hn_heartbeat_interval h" and "hn_heartbeat_interval h \<le> hn_election_timeout h"
    and "boundary (rp_node r) = 0" and "snapshot_config (rp_node r) = \<lparr>voters = hn_peers h, old_voters = None\<rparr>"
  shows "\<exists>h' r'. restart (crash h i) i = Some h' \<and> map_of (hn_replicas h') i = Some r' \<and>
    durable_part (rp_node r') = durable_part (rp_node r)"
proof -
  from harness_run_inv [OF assms(1)] have inv: "harness_inv h" by simp
  with map_of_SomeD [OF assms(2)] obtain d where d: "map_of (hn_durable h) i = Some d"
    and p: "persisted d (rp_node r)" "node_inv (rp_node r)"
    by (auto simp: harness_inv_def in_step_def)
  have ord: "bt_ordered (hn_replicas h)" using inv by (simp add: harness_inv_def)
  let ?c = "crash h i"
  have c: "map_of (hn_replicas ?c) i = None" "hn_peers ?c = hn_peers h" "map_of (hn_durable ?c) i = Some d"
    "hn_election_timeout ?c = hn_election_timeout h" "hn_heartbeat_interval ?c = hn_heartbeat_interval h"
    "bt_ordered (hn_replicas ?c)"
    using assms(2) d ord by (simp_all add: crash_def record_fault_def)
  from recover_from_total [OF persisted_image_ok [OF p] assms(4,3,5,6)] obtain n where
    n: "recover_from d i (hn_peers h) (hn_election_timeout h) (hn_heartbeat_interval h) = Some (Inr n)" by blast
  note same = recover_from_restores(1) [OF p n disjI2 [OF assms(8)]]
  have "boundary n = 0" using same assms(7) by (simp add: durable_part_def)
  then obtain r' where r': "recover_replica n = Some r'" "rp_node r' = n"
    by (simp add: recover_replica_def)
  have "restart ?c i = Some (record_fault (?c\<lparr>hn_replicas := bt_insert i r' (hn_replicas ?c)\<rparr>) i Restarted)"
    using n r'(1) assms(3) c by (simp add: restart_def restart_recover_from expect_def)
  with same r'(2) c(6) show ?thesis by (auto simp: record_fault_def)
qed

lemma crashed_replica_restarts_witness:
  "\<exists>h h' r r'. small_harness = Some h \<and> map_of (hn_replicas h) (NodeId 2) = Some r \<and>
     restart (crash h (NodeId 2)) (NodeId 2) = Some h' \<and> map_of (hn_replicas h') (NodeId 2) = Some r' \<and>
     durable_part (rp_node r') = durable_part (rp_node r)"
proof -
  have "case small_harness of None \<Rightarrow> False | Some h \<Rightarrow> hn_peers h = trio \<and>
      hn_heartbeat_interval h = 1 \<and> hn_election_timeout h = 2 \<and>
      (case map_of (hn_replicas h) (NodeId 2) of None \<Rightarrow> False | Some r \<Rightarrow>
         boundary (rp_node r) = 0 \<and> snapshot_config (rp_node r) = \<lparr>voters = trio, old_voters = None\<rparr>)"
    by code_simp
  then obtain h r where s: "small_harness = Some h" and h: "hn_peers h = trio"
      "hn_heartbeat_interval h = 1" "hn_election_timeout h = 2"
    and r: "map_of (hn_replicas h) (NodeId 2) = Some r" "boundary (rp_node r) = 0"
      "snapshot_config (rp_node r) = \<lparr>voters = trio, old_voters = None\<rparr>"
    by (auto split: option.splits)
  have run: "harness_run trio {#} h" using s unfolding small_harness_def by (rule harness_run.boot)
  have "sorted_wrt (<) trio" by (simp add: trio_def)
  with crashed_replica_restarts [OF run r(1)] h r s show ?thesis by auto
qed

section \<open>Saved runs\<close>

text \<open>A run that was saved is the run that is loaded: the seed and every field of the configuration
  are printed and parsed back as they were, for every configuration whose numbers fit the machine
  word, the empty list of peers included.\<close>

lemma saved_run_loads:
  assumes "fits64 seed" and "config_fits c"
  shows "load_seed (save_seed seed c) = Some (seed, c)"
  using load_save_seed [OF assms] .

definition saved_config :: run_config where
  "saved_config = \<lparr>rc_peers = trio, rc_election_timeout = 10, rc_heartbeat_interval = 2, rc_min_delay = 1,
     rc_max_delay = 3, rc_apply_timeout_ticks = 40, client_count = 2, total_ticks = 100,
     submit_chance_percent = 20, fault_chance_percent = 5\<rparr>"

lemma saved_run_loads_witness:
  "load_seed (save_seed 42 saved_config) = Some (42, saved_config) \<and>
     load_seed (save_seed 7 (saved_config\<lparr>rc_peers := []\<rparr>)) = Some (7, saved_config\<lparr>rc_peers := []\<rparr>)"
proof -
  have "config_fits saved_config" "config_fits (saved_config\<lparr>rc_peers := []\<rparr>)"
    by (simp_all add: config_fits_def saved_config_def trio_def)
  from saved_run_loads [OF _ this(1), of 42] saved_run_loads [OF _ this(2), of 7] show ?thesis by simp
qed

end
