(* ===== verification/Demo_Client.thy ===== *)
theory Demo_Client
  imports Actor_Handle
begin

text \<open>
  The demo driver (\<^verbatim>\<open>crates/kurogane-runtime/examples/demo_client.rs\<close>): what a command line proposes, and
  what \<^verbatim>\<open>inspect\<close> reads off a node's file. Results are what is printed, without its formatting;
  \<^verbatim>\<open>Usage\<close> and a panic end the program. \<open>inspect_shows\<close>: it executes the whole log on the snapshot, so it
  shows the replica's map exactly when everything in the log is applied (\<open>inspect_shows_applied\<close>).
\<close>

section \<open>Arguments\<close>

text \<open>A \<^verbatim>\<open>String\<close> is the list of its UTF-8 bytes.\<close>

definition as_bytes :: "string \<Rightarrow> bytes" where
  "as_bytes s = map (\<lambda>c. word_of_nat (of_char c)) s"

datatype demo_failure = Usage | Panicked

definition demo_kind :: "string \<Rightarrow> string list \<Rightarrow> proto_command_kind option" where
  "demo_kind verb rest =
     (if verb = ''set'' then (case rest of [k, v] \<Rightarrow> Some (ProtoSet (as_bytes k) (as_bytes v)) | _ \<Rightarrow> None)
      else if verb = ''get'' then (case rest of [k] \<Rightarrow> Some (ProtoGet (as_bytes k)) | _ \<Rightarrow> None)
      else if verb = ''delete'' then (case rest of [k] \<Rightarrow> Some (ProtoDelete (as_bytes k)) | _ \<Rightarrow> None)
      else None)"

section \<open>Proposing\<close>

text \<open>The reply is what is printed, \<open>None\<close> being the empty one. Whether the connection comes about and
  how the call ends are arguments.\<close>

definition demo_propose ::
    "(string \<Rightarrow> bool) \<Rightarrow> (proto_command_kind option option \<Rightarrow> status + propose_reply option) \<Rightarrow>
     string list \<Rightarrow> demo_failure + propose_reply option" where
  "demo_propose connects call args =
     (case args of
        addr # verb # rest \<Rightarrow>
          (case demo_kind verb rest of
             None \<Rightarrow> Inl Usage
           | Some kind \<Rightarrow>
               if \<not> connects addr then Inl Panicked
               else (case call (Some (Some kind)) of
                 Inl _ \<Rightarrow> Inl Panicked
               | Inr reply \<Rightarrow> Inr reply))
      | _ \<Rightarrow> Inl Usage)"

section \<open>Inspecting a file\<close>

fun inspect_entries :: "log_entry list \<Rightarrow> state_machine \<Rightarrow> state_machine option" where
  "inspect_entries [] sm = Some sm"
| "inspect_entries (e # es) sm = (case payload e of
     Command bs \<Rightarrow> do {
       c \<leftarrow> expect (decode bs);
       (sm', _) \<leftarrow> apply_command sm c;
       inspect_entries es sm'
     }
   | Configuration _ \<Rightarrow> inspect_entries es sm)"

text \<open>What is printed of an opened file: the hard state, the number of entries, the boundary, the size
  of the snapshot, and the value of the key if one was asked for.\<close>

record inspection =
  shown_hard_state :: hard_state
  shown_entries :: nat
  shown_boundary :: snapshot_metadata
  shown_snapshot_bytes :: nat
  shown_value :: "bytes option option"

definition inspect_storage :: "storage \<Rightarrow> string option \<Rightarrow> inspection option" where
  "inspect_storage s key = do {
     found \<leftarrow> (case key of
       None \<Rightarrow> Some None
     | Some k \<Rightarrow> do {
         sm \<leftarrow> (if 0 < last_included_index (st_snapshot s)
               then expect (restore new_state_machine (last_included_index (st_snapshot s)) (st_snapshot_data s))
               else Some new_state_machine);
         sm' \<leftarrow> inspect_entries (st_log s) sm;
         Some (Some (sm_get sm' (as_bytes k)))
       });
     Some \<lparr>shown_hard_state = st_hard_state s, shown_entries = length (st_log s),
       shown_boundary = st_snapshot s, shown_snapshot_bytes = length (st_snapshot_data s),
       shown_value = found\<rparr>
   }"

definition inspect :: "decoder \<Rightarrow> (string \<Rightarrow> io_error + bytes) \<Rightarrow> string list \<Rightarrow> demo_failure + inspection" where
  "inspect decode_state read_file args =
     (case (case args of [path] \<Rightarrow> Some (path, None) | [path, key] \<Rightarrow> Some (path, Some key) | _ \<Rightarrow> None) of
        None \<Rightarrow> Inl Usage
      | Some (path, key) \<Rightarrow>
          (case storage_open decode_state path (read_file path) of
             Inl _ \<Rightarrow> Inl Panicked
           | Inr s \<Rightarrow> (case inspect_storage s key of None \<Rightarrow> Inl Panicked | Some shown \<Rightarrow> Inr shown)))"

text \<open>\<^verbatim>\<open>main\<close>: the first argument chooses.\<close>

definition demo_main ::
    "(string \<Rightarrow> bool) \<Rightarrow> (proto_command_kind option option \<Rightarrow> status + propose_reply option) \<Rightarrow>
     decoder \<Rightarrow> (string \<Rightarrow> io_error + bytes) \<Rightarrow> string list \<Rightarrow>
     demo_failure + (propose_reply option + inspection)" where
  "demo_main connects call decode_state read_file args =
     (case args of
        first # rest \<Rightarrow>
          (if first = ''propose'' then map_sum id Inl (demo_propose connects call rest)
           else if first = ''inspect'' then map_sum id Inr (inspect decode_state read_file rest)
           else Inl Usage)
      | [] \<Rightarrow> Inl Usage)"

section \<open>What inspecting shows\<close>

lemma inspect_entries_eq:
  assumes "list_all decodable es" and "fits64 (last_applied sm + length es)"
  shows "\<exists>sm'. inspect_entries es sm = Some sm' \<and> kv_entries sm' = foldl exec_entry (kv_entries sm) es"
  using assms
proof (induction es arbitrary: sm)
  case (Cons e es)
  have one: "fits64 (last_applied sm + 1)" using Cons.prems(2) by (rule fits64_mono) simp
  show ?case
  proof (cases "payload e")
    case (Command bs)
    with Cons.prems(1) obtain c where c: "decode bs = Inr c" by (auto simp: decodable_def)
    from Cons.IH [of "sm\<lparr>last_applied := last_applied sm + 1, kv_entries := exec_command (kv_entries sm) c\<rparr>"]
      Cons.prems Command c show ?thesis
      by (simp add: expect_def apply_command_total [OF one] exec_entry_def)
  next
    case (Configuration cfg)
    have "fits64 (last_applied sm + length es)" using Cons.prems(2) by (rule fits64_mono) simp
    with Cons Configuration show ?thesis by (simp add: exec_entry_def)
  qed
qed simp

text \<open>Inspecting the file of a replica shows the map with the whole log executed on it, the entries that
  are not committed included; it is the map of the replica when all of its log is applied.\<close>

lemma inspect_shows:
  assumes "replica_consistent r" and "persisted (storage_image s) (rp_node r)"
    and "list_all decodable (log (rp_node r))"
  shows "\<exists>shown base. inspect_storage s (Some k) = Some shown \<and> snapshot_map (rp_node r) = Some base \<and>
    shown_value shown = Some (map_of (foldl exec_entry base (log (rp_node r))) (as_bytes k))"
proof -
  let ?n = "rp_node r"
  have stored: "st_log s = log ?n" "st_snapshot s = snapshot ?n" "st_snapshot_data s = snapshot_data ?n"
    using assms(2) by (auto simp: persisted_def storage_image_def)
  from assms(1) obtain base where base: "snapshot_map ?n = Some base" and inv: "node_inv ?n"
    by (auto simp: replica_consistent_def Let_def)
  define sm where "sm = new_state_machine\<lparr>kv_entries := base, last_applied := boundary ?n\<rparr>"
  have "(if 0 < last_included_index (st_snapshot s)
      then expect (restore new_state_machine (last_included_index (st_snapshot s)) (st_snapshot_data s))
      else Some new_state_machine) = Some sm"
    using base by (auto simp: stored sm_def snapshot_map_def restore_def expect_def new_state_machine_def
        split: if_splits sum.splits)
  moreover have "fits64 (last_applied sm + length (log ?n))"
    using inv by (simp add: sm_def node_inv_def)
  from inspect_entries_eq [OF assms(3) this] obtain sm' where "inspect_entries (log ?n) sm = Some sm'"
    "kv_entries sm' = foldl exec_entry base (log ?n)" by (auto simp: sm_def)
  ultimately show ?thesis using base by (simp add: inspect_storage_def stored sm_get_def)
qed

lemma inspect_shows_applied:
  assumes "replica_consistent r" and "persisted (storage_image s) (rp_node r)"
    and "last_applied (rp_state_machine r) = boundary (rp_node r) + length (log (rp_node r))"
  shows "\<exists>shown. inspect_storage s (Some k) = Some shown \<and>
    shown_value shown = Some (sm_get (rp_state_machine r) (as_bytes k))"
proof -
  have whole: "log_between (rp_node r) (boundary (rp_node r)) (last_applied (rp_state_machine r)) = log (rp_node r)"
    by (simp add: log_between_def assms(3))
  with assms(1) have "list_all decodable (log (rp_node r))" by (simp add: replica_consistent_def Let_def)
  from inspect_shows [OF assms(1,2) this] assms(1) whole show ?thesis
    by (auto simp: replica_consistent_def Let_def sm_get_def)
qed

text \<open>A proposal that arrives is the command that was typed.\<close>

lemma demo_kind_command:
  "demo_kind verb rest = Some kind \<Longrightarrow> \<exists>c. command_from_proto (Some kind) = Inr c \<and> command_to_proto c = Some kind"
  by (auto simp: demo_kind_def split: if_splits list.splits)

end
