(* ===== verification/Findings.thy ===== *)
theory Findings
  imports Demo_Client Kv_Properties
begin

text \<open>
  Behaviours of the code that differ from what its comments or its purpose say, each evaluated on a
  concrete state of the model.
\<close>

section \<open>Snapshots\<close>

text \<open>A follower that compacted up to index 3 and holds and has committed indices 4 and 5. A delayed
  \<^verbatim>\<open>InstallSnapshot\<close> for index 2 of the same leader is not recognized as covered, because
  \<^verbatim>\<open>term_at\<close> answers nothing below the boundary: the log is cleared and the boundary moves back,
  below the commit point.\<close>

definition compacted_follower :: node where
  "compacted_follower = (recovered (NodeId 2) trio 5 1 \<lparr>hs_current_term = 1, hs_voted_for = None\<rparr>
     [sample_entry 1 4, sample_entry 1 5]
     \<lparr>metadata = \<lparr>last_included_index = 3, last_included_term = 1\<rparr>, snap_data = [],
      snap_config = \<lparr>voters = trio, old_voters = None\<rparr>\<rparr> [])\<lparr>commit_index := 5\<rparr>"

definition delayed_install :: install_snapshot where
  "delayed_install = \<lparr>is_term = 1, is_leader_id = NodeId 1, is_last_included_index = 2,
     is_last_included_term = 1, is_data = [], is_config = \<lparr>voters = trio, old_voters = None\<rparr>\<rparr>"

lemma delayed_install_drops_committed_entries:
  "last_log_index compacted_follower = Some 5 \<and>
   (case step compacted_follower (Step (NodeId 1) (InstallSnapshot delayed_install)) of
      Some (n, _) \<Rightarrow> log n = [] \<and> boundary n = 2 \<and> commit_index n = 5 \<and> last_log_index n = Some 2
    | None \<Rightarrow> False)"
  by code_simp

text \<open>Compaction writes the new boundary and the shortened log as two effects. A crash between the two
  leaves the old log above the new boundary: recovered, every entry has moved up.\<close>

definition before_compaction :: durable_state where
  "before_compaction = default_durable_state\<lparr>ds_hard_state := \<lparr>hs_current_term = 1, hs_voted_for = None\<rparr>,
     ds_log := [sample_entry 1 1, sample_entry 1 2, sample_entry 1 3]\<rparr>"

definition compacting :: node where
  "compacting = (recovered (NodeId 2) trio 5 1 \<lparr>hs_current_term = 1, hs_voted_for = None\<rparr>
     [sample_entry 1 1, sample_entry 1 2, sample_entry 1 3] default_snapshot [])\<lparr>commit_index := 3\<rparr>"

lemma crash_inside_compaction_shifts_the_log:
  "case compact compacting 2 [] of
     Some (_, Inr (write # _)) \<Rightarrow>
       (case durable_apply before_compaction write of
          Some d \<Rightarrow> (case recover_from d (NodeId 2) trio 5 1 of
            Some (Inr n) \<Rightarrow> log_entry_at compacting 3 = Some (sample_entry 1 3) \<and>
              log_entry_at n 3 = Some (sample_entry 1 1) \<and> last_log_index n = Some 5
          | _ \<Rightarrow> False)
        | None \<Rightarrow> False)
   | _ \<Rightarrow> False"
  by code_simp

section \<open>Membership\<close>

text \<open>In the joint phase from \<open>[1]\<close> to \<open>[2, 3]\<close> the votes of nodes 1 and 2 win, although node 2 alone
  is no majority of the new voters: the first test counts votes of any member.\<close>

definition joint_candidate :: node where
  "joint_candidate = (trio_voter (NodeId 1))\<lparr>role := Candidate,
     current_config := \<lparr>voters = [NodeId 2, NodeId 3], old_voters = Some [NodeId 1]\<rparr>,
     votes_granted := {NodeId 1, NodeId 2}\<rparr>"

lemma old_voter_counts_for_new_majority:
  "has_quorum joint_candidate \<and>
   \<not> majority_reached (voters (current_config joint_candidate)) (\<lambda>i. i \<in> votes_granted joint_candidate)"
  by code_simp

text \<open>A second change proposed while the first is still joint replaces the old voter set by the
  uncommitted new one, so the voters of the configuration in force lose their say.\<close>

definition joint_leader :: node where
  "joint_leader = ahead\<lparr>next_index := [NodeId 2 \<mapsto> 4, NodeId 3 \<mapsto> 4, NodeId 4 \<mapsto> 4, NodeId 5 \<mapsto> 4],
     match_index := [NodeId 2 \<mapsto> 0, NodeId 3 \<mapsto> 0, NodeId 4 \<mapsto> 0, NodeId 5 \<mapsto> 0]\<rparr>"

lemma config_change_accepted_while_joint:
  "case propose_config_change joint_leader [NodeId 1, NodeId 4] of
     Some (n, Some _) \<Rightarrow> current_config n = \<lparr>voters = [NodeId 1, NodeId 4], old_voters = Some trio\<rparr> \<and>
       (case propose_config_change n [NodeId 1, NodeId 5] of
          Some (m, Some _) \<Rightarrow> current_config m =
            \<lparr>voters = [NodeId 1, NodeId 5], old_voters = Some [NodeId 1, NodeId 4]\<rparr> \<and> commit_index m = 0
        | _ \<Rightarrow> False)
   | _ \<Rightarrow> False"
  by code_simp

text \<open>A learner that restarts before its first snapshot is recovered with the configured peers as its
  voters, although a joining node's membership is meant to come only from the cluster.\<close>

definition joining_storage :: storage where
  "joining_storage = \<lparr>st_path = [], st_hard_state = \<lparr>hs_current_term = 1, hs_voted_for = None\<rparr>,
     st_log = [], st_snapshot = default_metadata, st_snapshot_data = [],
     st_snapshot_config = default_config, st_learners = []\<rparr>"

lemma restarted_learner_becomes_voter:
  "case start_node (NodeId 3) trio 5 1 True (joining_storage\<lparr>st_hard_state := default_hard_state\<rparr>) of
     Some n \<Rightarrow> voters (current_config n) = [] \<and>
       (case start_node (NodeId 3) trio 5 1 True joining_storage of
          Some m \<Rightarrow> voters (current_config m) = trio
        | None \<Rightarrow> False)
   | None \<Rightarrow> False"
  by code_simp

section \<open>Encodings\<close>

text \<open>The length of a field is cast to 32 bits: a key of \<open>2^32\<close> bytes is encoded with length 0 and read
  back as the empty key.\<close>

lemma long_key_is_cut:
  assumes "length key = 2 ^ 32"
  shows "decode (encode (Get key)) = Inr (Get [])"
proof -
  have "encode_bytes buf key = encode_bytes buf [] @ key" for buf
    using assms by (simp add: encode_bytes_def to_be_bytes_def)
  then have "encode (Get key) = encode (Get []) @ key" by simp
  with decode_encode [of "Get []" key] show ?thesis by (simp add: short_def)
qed

lemma empty_old_voters_are_lost:
  "configuration_from_proto (configuration_to_proto \<lparr>voters = vs, old_voters = Some []\<rparr>) =
     \<lparr>voters = vs, old_voters = None\<rparr>"
  by (simp add: configuration_from_proto_def configuration_to_proto_def)


section \<open>A reply for another command\<close>

text \<open>The client service reads the term of the accepted entry in a request of its own. When a new
  leader replaces the entry between the two requests, the term it reads, and then finds unchanged,
  is that of the other command, and the client gets that command's result: here the answer of a
  read for a write that was never committed.\<close>

definition leading :: actor where
  "leading = new_actor \<lparr>rp_node = (trio_voter (NodeId 1))\<lparr>current_term := 1, voted_for := Some (NodeId 1),
       role := Leader, next_index := [NodeId 2 \<mapsto> 1, NodeId 3 \<mapsto> 1],
       match_index := [NodeId 2 \<mapsto> 0, NodeId 3 \<mapsto> 0]\<rparr>,
     rp_state_machine = new_state_machine, rp_results = Map.empty\<rparr> (joining_storage, None) 50"

definition takeover :: append_entries where
  "takeover = \<lparr>ae_term = 2, ae_leader_id = NodeId 2, prev_log_index = 0, prev_log_term = 0,
     entries = [\<lparr>entry_term = 2, payload = Command (encode get_x)\<rparr>], leader_commit = 1\<rparr>"

lemma reply_of_another_command:
  "(case run_actor (\<lambda>_. []) (\<lambda>_. True) leading
      [RqPropose set_x, RqPeerRequest (NodeId 2) (AppendEntries takeover), RqEntryTerm 1, RqEntryTerm 1,
       RqAppliedResult 1] of
      Some (_, [RpPropose (Accepted i), _, RpEntryTerm before, RpEntryTerm later, RpApplied result], published) \<Rightarrow>
        i = 1 \<and> published ! 1 = 1 \<and>
        client_propose (Some (command_to_proto set_x)) (\<lambda>_. Some (Accepted i)) (\<lambda>_. Some before) WaitApplied
          (\<lambda>_. Some later) (\<lambda>_. Some result) = Inr (ReplyApplied 1 (Some (ProtoGetResult None)))
    | _ \<Rightarrow> False)"
  by code_simp

section \<open>Inspecting a file\<close>

text \<open>The demo driver rebuilds "applied state" from a file and executes the whole log: right after a
  leader of three took a proposal that nobody else has, it shows the value the node does not hold.\<close>

lemma inspect_shows_uncommitted:
  "case run_actor (\<lambda>_. []) (\<lambda>_. True) leading [RqPropose (Set (as_bytes ''x'') [1])] of
     Some (a, _, _) \<Rightarrow> commit_index (rp_node (ac_replica a)) = 0 \<and>
       sm_get (rp_state_machine (ac_replica a)) (as_bytes ''x'') = None \<and>
       (case inspect_storage (fst (ac_storage a)) (Some ''x'') of
          Some shown \<Rightarrow> shown_value shown = Some (Some [1])
        | None \<Rightarrow> False)
   | None \<Rightarrow> False"
  by code_simp

end
