(* ===== verification/Spec2Isabelle.thy ===== *)
theory Spec2Isabelle
  imports Raft_Properties Raft_Log_Properties Raft_Progress Kv_Properties Runtime_Properties Verify_Properties Findings
begin

text \<open>
  A model of \<^bold>\<open>kurogane\<close>, a replicated key-value store on Raft, and the theorems that make it correct.

  \<^bold>\<open>The program\<close> (\<^verbatim>\<open>src/crates\<close>). \<^verbatim>\<open>kurogane-raft\<close> is a deterministic Raft node: \<^verbatim>\<open>Node::step\<close> takes an
  event and returns effects (writes to be made durable, messages to be sent). \<^verbatim>\<open>kurogane-kv\<close> puts a
  key-value state machine on it: a \<^verbatim>\<open>Replica\<close> owns a node and applies the entries it commits.
  \<^verbatim>\<open>kurogane-sim\<close> runs nodes in logical time with seeded delays; \<^verbatim>\<open>kurogane-verify\<close> runs replicas with
  faults and checks the histories of clients for linearizability. \<^verbatim>\<open>kurogane-runtime\<close> is the real
  process: an actor task that owns the replica, its storage file and its transport, gRPC services
  at the edge, and \<^verbatim>\<open>main\<close>.

  \<^bold>\<open>The model\<close>. Each theory states in its opening text which file it models.
  \<^item> \<open>Prelude\<close>: checked \<^verbatim>\<open>u64\<close> arithmetic (\<open>None\<close> is a panic), results, list lemmas, the collections
    \<open>run_simps\<close> and \<open>u64_simps\<close>. \<open>Text_Format\<close>: the string functions of the standard library in use.
  \<^item> \<open>Raft_Types\<close>, \<open>Raft_Node\<close>, \<open>Raft_Election\<close>, \<open>Raft_Replication\<close>, \<open>Raft_Commit\<close>: the whole of
    \<^verbatim>\<open>Node\<close>, field by field and method by method. A method that mutates \<^verbatim>\<open>self\<close> returns the new node and
    the effects.
  \<^item> \<open>Raft_Durable\<close>: \<^verbatim>\<open>DurableState\<close> of \<^verbatim>\<open>kurogane-sim\<close>, and \<open>persisted\<close>, the relation between an image
    and a node.
  \<^item> \<open>Ordered_Map\<close>, \<open>Kv_Codec\<close>, \<open>Kv_State_Machine\<close>, \<open>Kv_Replica\<close>: \<^verbatim>\<open>kurogane-kv\<close>. A \<^verbatim>\<open>BTreeMap\<close> is an
    association list sorted by key.
  \<^item> \<open>Simulation\<close>; \<open>Linearizability\<close>, \<open>Harness\<close>, \<open>Seed_File\<close>: \<^verbatim>\<open>kurogane-sim\<close> and \<^verbatim>\<open>kurogane-verify\<close>.
  \<^item> \<open>Dto\<close>, \<open>Storage\<close>, \<open>Actor\<close>, \<open>Runtime\<close>, \<open>Node_Config\<close>: \<^verbatim>\<open>dto.rs\<close>, \<^verbatim>\<open>storage.rs\<close>, \<^verbatim>\<open>actor.rs\<close>, the
    edge (\<^verbatim>\<open>auth.rs\<close>, \<^verbatim>\<open>server.rs\<close>, \<^verbatim>\<open>peer_client.rs\<close>) and \<^verbatim>\<open>bin/kurogane-node.rs\<close>. \<open>Actor_Handle\<close>:
    the handle of the actor's task and the timer that ticks it. \<open>Demo_Client\<close>: \<^verbatim>\<open>examples/demo_client.rs\<close>.

  \<^bold>\<open>Interfaces\<close> are locales, each interpreted on the model: \<open>ordered_map\<close> (\<open>Ordered_Map\<close>), \<open>prefix_code\<close>
  (\<open>Kv_Codec\<close>: length-prefixed fields, pairs, commands), \<open>quorum_system\<close> (\<open>Raft_Cluster\<close>: majorities of
  a voter set intersect) and its extension \<open>ledger_quorum\<close> (\<open>Ledger\<close>), \<open>durable_store\<close> (\<open>Storage\<close>: the
  image in memory and the file), \<open>wire_type\<close> (\<open>Dto\<close>: entries, batches, snapshots, commands, results).

  \<^bold>\<open>The lemmas\<close>.
  \<^item> \<open>Raft_Invariant\<close>: \<open>node_inv\<close> and its preservation by every operation. \<open>Raft_Votes\<close>: what one node
    does with its vote over its life, restarts from any prefix of its writes included.
  \<^item> \<open>Raft_Cluster\<close>: a network of nodes that loses, delays, reorders and duplicates messages and crashes
    nodes in the middle of a batch; one leader per term. Its membership is fixed: the operations
    of the world are events, proposals, learners and compaction, but no configuration change.
  \<^item> \<open>Raft_Agreement\<close>: what an accepted batch does to the log and what the commit rule demands, joint
    configurations included.
  \<^item> \<open>Ledger\<close>: what replication promises, as six steps on the terms, logs, elections and acceptances of a
    cluster. \<open>Raft_Moves\<close>: what one operation does to a node's term, vote, log and commit point.
    \<open>Ledger_Refinement\<close>: the nodes, their messages and their disks take only ledger steps.
  \<^item> \<open>Raft_Log_Properties\<close>: log matching, leader completeness, state machine safety, durability on a
    majority and agreement of the maps of two replicas. \<open>Raft_Pacing\<close>: where a leader resumes
    replication, so that its heartbeats never panic. \<open>Raft_Progress\<close>: a cluster is never stuck; from
    every world there is a run in which a leader commits the next command.
  \<^item> \<open>Process\<close>: the node of a process moves by the operations of \<^verbatim>\<open>Node\<close> alone, whatever it is asked.
  \<^item> \<open>Raft_Properties\<close>, \<open>Kv_Properties\<close>, \<open>Runtime_Properties\<close>, \<open>Verify_Properties\<close>: the properties, each
    after a text with its number, with a witness at a concrete state (\<open>Raft_Samples\<close>) where it has
    hypotheses.
  \<^item> \<open>Findings\<close>: concrete states at which the code does not do what it is meant to, evaluated in the
    model.

  \<^bold>\<open>Bounds and termination\<close>. \<^verbatim>\<open>u64\<close> and \<^verbatim>\<open>usize\<close> are natural numbers with checked addition and
  subtraction, so an overflow is a panic, as in the profile the repository's tests use; the
  generator and the search mask are 64- and 128-bit words that wrap. There is no fuel: the loops
  end by structural recursion or a measure (the distance of the cursor to the commit point, the
  bytes left to read, the value of the mask, whether the configuration is still joint). A generated run recurses over its number of ticks.

  \<^bold>\<open>Parameters\<close>. The protobuf codec of prost, the metadata map of tonic, the hash function behind
  \<^verbatim>\<open>DefaultHasher\<close>, whether an address parses, and how flushes end are arguments of the definitions
  that use them, as are tokio's channels; the few properties that need something of them say what.

  \<^bold>\<open>Not modelled\<close>. Tokio's channels and tasks (the actor loop runs on the list of requests it
  receives; the handle takes the channel's answers as an argument), the clock and random source of
  \<^verbatim>\<open>timer.rs\<close>, sockets and connections, the code generated from \<^verbatim>\<open>kurogane.proto\<close>, the texts of errors,
  and the accessors, which are the record selectors. Safety across configuration changes is not
  claimed: \<open>Findings\<close> has states in which the code violates what it would need. Log matching, leader
  completeness and what follows from them are proved for worlds in which nobody compacts, because a
  delayed snapshot breaks them otherwise (\<open>Findings\<close>); election safety needs no such restriction.
  Progress is the existence of a run, for counters below \<open>2 ^ 56\<close>, far from where the checked
  additions panic; nothing is said of how likely that run is under the real timers.
\<close>

end
